(* ===== verification/Prelude.thy ===== *)
theory Prelude
  imports Main
    "HOL-Library.Char_ord"
    "HOL-Library.List_Lexorder"
    "HOL-Library.Product_Lexorder"
    "HOL-Library.Word"
begin

text \<open>
  Shared vocabulary of the development: byte strings, the checked machine
  arithmetic of Rust (\<open>usize\<close> as bounded \<open>nat\<close>, \<open>i64\<close> as bounded \<open>int\<close>), the
  \<open>Result\<close> plumbing on sums, ASCII helpers, and the decimal printer and its
  inverse. The collections \<open>result_simps\<close> and \<open>checked_simps\<close> carry the
  component proofs.
\<close>

section \<open>Types\<close>

text \<open>A \<open>u8\<close> is a \<open>char\<close> (an 8-bit value); \<open>Bytes\<close> is a list of them, ordered
  lexicographically as in Rust.\<close>

type_synonym byte = char
type_synonym bytes = "char list"
type_synonym u32 = "32 word"
type_synonym u64 = "64 word"

named_theorems result_simps
named_theorems checked_simps

section \<open>Results\<close>

definition res_bind :: "'e + 'a \<Rightarrow> ('a \<Rightarrow> 'e + 'b) \<Rightarrow> 'e + 'b" where
  "res_bind m f = (case m of Inl e \<Rightarrow> Inl e | Inr x \<Rightarrow> f x)"

definition ok_or :: "'a option \<Rightarrow> 'e \<Rightarrow> 'e + 'a" where
  "ok_or m e = (case m of None \<Rightarrow> Inl e | Some x \<Rightarrow> Inr x)"

definition ensure :: "bool \<Rightarrow> 'e \<Rightarrow> 'e + unit" where
  "ensure b e = (if b then Inr () else Inl e)"

definition map_err :: "('e \<Rightarrow> 'f) \<Rightarrow> 'e + 'a \<Rightarrow> 'f + 'a" where
  "map_err f m = (case m of Inl e \<Rightarrow> Inl (f e) | Inr x \<Rightarrow> Inr x)"

definition opt_filter :: "('a \<Rightarrow> bool) \<Rightarrow> 'a option \<Rightarrow> 'a option" where
  "opt_filter P m = (case m of None \<Rightarrow> None | Some x \<Rightarrow> if P x then Some x else None)"

fun res_mapM :: "('a \<Rightarrow> 'e + 'b) \<Rightarrow> 'a list \<Rightarrow> 'e + 'b list" where
  "res_mapM f [] = Inr []"
| "res_mapM f (x # xs) = res_bind (f x) (\<lambda>y. res_bind (res_mapM f xs) (\<lambda>ys. Inr (y # ys)))"

fun opt_mapM :: "('a \<Rightarrow> 'b option) \<Rightarrow> 'a list \<Rightarrow> 'b list option" where
  "opt_mapM f [] = Some []"
| "opt_mapM f (x # xs) =
     Option.bind (f x) (\<lambda>y. Option.bind (opt_mapM f xs) (\<lambda>ys. Some (y # ys)))"

lemma res_bind_simps [simp]:
  "res_bind (Inl e) f = Inl e"
  "res_bind (Inr x) f = f x"
  by (simp_all add: res_bind_def)

lemma res_bind_Inr_iff [result_simps]:
  "res_bind m f = Inr y \<longleftrightarrow> (\<exists>x. m = Inr x \<and> f x = Inr y)"
  by (cases m) simp_all

lemma res_bind_cong [fundef_cong]:
  "m = m' \<Longrightarrow> (\<And>x. m' = Inr x \<Longrightarrow> f x = f' x) \<Longrightarrow> res_bind m f = res_bind m' f'"
  by (cases m') auto

lemma opt_filter_simps [simp]:
  "opt_filter P None = None"
  "opt_filter P (Some x) = (if P x then Some x else None)"
  by (simp_all add: opt_filter_def)

lemma opt_filter_Some_iff [result_simps]: "opt_filter P m = Some x \<longleftrightarrow> m = Some x \<and> P x"
  by (cases m) auto

lemma ok_or_simps [simp]:
  "ok_or None e = Inl e"
  "ok_or (Some x) e = Inr x"
  by (simp_all add: ok_or_def)

lemma ok_or_Inr_iff [result_simps]: "ok_or m e = Inr x \<longleftrightarrow> m = Some x"
  by (cases m) simp_all

lemma ensure_simps [simp]:
  "ensure True e = Inr ()"
  "ensure False e = Inl e"
  by (simp_all add: ensure_def)

lemma ensure_Inr_iff [result_simps]: "ensure b e = Inr u \<longleftrightarrow> b"
  by (simp add: ensure_def)

lemma map_err_simps [simp]:
  "map_err f (Inl e) = Inl (f e)"
  "map_err f (Inr x) = Inr x"
  by (simp_all add: map_err_def)

lemma map_err_Inr_iff [result_simps]: "map_err f m = Inr x \<longleftrightarrow> m = Inr x"
  by (cases m) simp_all

text \<open>\<open>res_all P r\<close>: every value \<open>r\<close> may return satisfies \<open>P\<close>. Its rules follow the
  shape of the program, without looking at the conditions it tests.\<close>

definition res_all :: "('a \<Rightarrow> bool) \<Rightarrow> 'e + 'a \<Rightarrow> bool" where
  "res_all P r \<longleftrightarrow> (\<forall>x. r = Inr x \<longrightarrow> P x)"

named_theorems res_all_intros

lemma res_allD: "res_all P r \<Longrightarrow> r = Inr x \<Longrightarrow> P x"
  by (simp add: res_all_def)

lemma res_all_mono: "res_all P r \<Longrightarrow> (\<And>x. P x \<Longrightarrow> Q x) \<Longrightarrow> res_all Q r"
  by (simp add: res_all_def)

lemma res_all_Inl [res_all_intros]: "res_all P (Inl e)"
  by (simp add: res_all_def)

lemma res_all_Inr [res_all_intros]: "P x \<Longrightarrow> res_all P (Inr x)"
  by (simp add: res_all_def)

lemma res_all_bind [res_all_intros]: "(\<And>x. m = Inr x \<Longrightarrow> res_all P (f x)) \<Longrightarrow> res_all P (res_bind m f)"
  by (cases m) (auto simp: res_all_def)

lemma res_all_if [res_all_intros]:
  "(b \<Longrightarrow> res_all P r) \<Longrightarrow> (\<not> b \<Longrightarrow> res_all P s) \<Longrightarrow> res_all P (if b then r else s)"
  by simp

lemma res_all_option [res_all_intros]:
  "(x = None \<Longrightarrow> res_all P r) \<Longrightarrow> (\<And>y. x = Some y \<Longrightarrow> res_all P (s y)) \<Longrightarrow>
     res_all P (case x of None \<Rightarrow> r | Some y \<Rightarrow> s y)"
  by (cases x) simp_all

lemma length_opt_mapM: "opt_mapM f xs = Some ys \<Longrightarrow> length ys = length xs"
  by (induction xs arbitrary: ys) (auto split: Option.bind_splits)

lemma opt_mapM_Some_iff: "opt_mapM f xs = Some ys \<longleftrightarrow> map f xs = map Some ys"
proof (induction xs arbitrary: ys)
  case Nil
  then show ?case by auto
next
  case (Cons x xs)
  show ?case
    by (cases ys) (auto simp: Cons.IH bind_eq_Some_conv)
qed

section \<open>Machine integers\<close>

text \<open>\<open>usize\<close> values are naturals up to \<open>USIZE_MAX\<close> (a 64-bit target); \<open>i64\<close>
  values are integers in the two's complement range.\<close>

definition USIZE_MAX :: nat where
  "USIZE_MAX = 18446744073709551615"

definition U32_MAX :: nat where
  "U32_MAX = 4294967295"

definition ISIZE_MAX :: nat where
  "ISIZE_MAX = 9223372036854775807"

definition checked_add :: "nat \<Rightarrow> nat \<Rightarrow> nat option" where
  "checked_add a b = (if a + b \<le> USIZE_MAX then Some (a + b) else None)"

definition checked_sub :: "nat \<Rightarrow> nat \<Rightarrow> nat option" where
  "checked_sub a b = (if b \<le> a then Some (a - b) else None)"

definition checked_mul :: "nat \<Rightarrow> nat \<Rightarrow> nat option" where
  "checked_mul a b = (if a * b \<le> USIZE_MAX then Some (a * b) else None)"

text \<open>Plain \<open>+=\<close> and \<open>-=\<close> on \<open>usize\<close> wrap around in a release build (a debug build
  panics instead); the invariants show that neither ever happens.\<close>

definition wrapping_add :: "nat \<Rightarrow> nat \<Rightarrow> nat" where
  "wrapping_add a b = (a + b) mod (USIZE_MAX + 1)"

definition wrapping_sub :: "nat \<Rightarrow> nat \<Rightarrow> nat" where
  "wrapping_sub a b = nat ((int a - int b) mod (int USIZE_MAX + 1))"

definition I64_MAX :: int where
  "I64_MAX = 9223372036854775807"

definition I64_MIN :: int where
  "I64_MIN = - 9223372036854775808"

definition i64_ok :: "int \<Rightarrow> bool" where
  "i64_ok i \<longleftrightarrow> I64_MIN \<le> i \<and> i \<le> I64_MAX"

definition i64_checked :: "int \<Rightarrow> int option" where
  "i64_checked i = (if i64_ok i then Some i else None)"

lemma checked_add_Some_iff [checked_simps]:
  "checked_add a b = Some c \<longleftrightarrow> c = a + b \<and> a + b \<le> USIZE_MAX"
  by (auto simp: checked_add_def)

lemma checked_sub_Some_iff [checked_simps]:
  "checked_sub a b = Some c \<longleftrightarrow> c = a - b \<and> b \<le> a"
  by (auto simp: checked_sub_def)

lemma checked_mul_Some_iff [checked_simps]:
  "checked_mul a b = Some c \<longleftrightarrow> c = a * b \<and> a * b \<le> USIZE_MAX"
  by (auto simp: checked_mul_def)

lemma i64_checked_Some_iff [checked_simps]:
  "i64_checked i = Some j \<longleftrightarrow> j = i \<and> i64_ok i"
  by (auto simp: i64_checked_def)

text \<open>Evaluation compares with the bounds as binary integers.\<close>

lemma checked_add_code [code]:
  "checked_add a b = (if int a + int b \<le> 18446744073709551615 then Some (a + b) else None)"
  by (simp add: checked_add_def USIZE_MAX_def)

lemma checked_mul_code [code]:
  "checked_mul a b = (if int a * int b \<le> 18446744073709551615 then Some (a * b) else None)"
proof -
  have "a * b \<le> USIZE_MAX \<longleftrightarrow> int (a * b) \<le> int USIZE_MAX" by (simp only: of_nat_le_iff)
  then show ?thesis by (simp add: checked_mul_def USIZE_MAX_def)
qed

lemma wrapping_add_code [code]:
  "wrapping_add a b = (if int a + int b \<le> 18446744073709551615 then a + b
     else nat ((int a + int b) mod 18446744073709551616))"
  by (auto simp: wrapping_add_def USIZE_MAX_def nat_mod_distrib nat_add_distrib)

lemma wrapping_sub_code [code]:
  "wrapping_sub a b = (if b \<le> a \<and> int a \<le> 18446744073709551615 then a - b
     else nat ((int a - int b) mod 18446744073709551616))"
proof -
  have "(int a - int b) mod 18446744073709551616 = int a - int b"
    if "b \<le> a" "int a \<le> 18446744073709551615"
    using that by (intro mod_pos_pos_trivial) auto
  then show ?thesis by (auto simp: wrapping_sub_def USIZE_MAX_def nat_diff_distrib)
qed

lemma wrapping_add_ok: "a + b \<le> USIZE_MAX \<Longrightarrow> wrapping_add a b = a + b"
  by (simp add: wrapping_add_def)

lemma wrapping_sub_ok:
  assumes "b \<le> a" "a \<le> USIZE_MAX"
  shows "wrapping_sub a b = a - b"
proof -
  have "(int a - int b) mod (int USIZE_MAX + 1) = int a - int b"
    using assms by (intro mod_pos_pos_trivial) auto
  with assms show ?thesis by (simp add: wrapping_sub_def nat_diff_distrib)
qed

lemma checked_add_ok: "a + b \<le> USIZE_MAX \<Longrightarrow> checked_add a b = Some (a + b)"
  by (simp add: checked_add_def)

lemma i64_checked_ok: "i64_ok i \<Longrightarrow> i64_checked i = Some i"
  by (simp add: i64_checked_def)

section \<open>ASCII\<close>

definition is_ascii_digit :: "byte \<Rightarrow> bool" where
  "is_ascii_digit c \<longleftrightarrow> 48 \<le> (of_char c :: nat) \<and> (of_char c :: nat) \<le> 57"

definition digit_value :: "byte \<Rightarrow> nat" where
  "digit_value c = of_char c - 48"

definition to_ascii_uppercase1 :: "byte \<Rightarrow> byte" where
  "to_ascii_uppercase1 c =
     (if 97 \<le> (of_char c :: nat) \<and> (of_char c :: nat) \<le> 122 then char_of (of_char c - 32 :: nat) else c)"

definition to_ascii_uppercase :: "bytes \<Rightarrow> bytes" where
  "to_ascii_uppercase b = map to_ascii_uppercase1 b"

text \<open>Rust compares both operands folded to lower case; folding both to upper
  case is the same relation.\<close>

definition eq_ignore_ascii_case :: "bytes \<Rightarrow> bytes \<Rightarrow> bool" where
  "eq_ignore_ascii_case a b \<longleftrightarrow> to_ascii_uppercase a = to_ascii_uppercase b"

definition is_ascii_whitespace :: "byte \<Rightarrow> bool" where
  "is_ascii_whitespace c \<longleftrightarrow>
     (of_char c :: nat) \<in> {32, 9, 10, 12, 13}"

definition CR :: byte where "CR = CHR 0x0D"

definition LF :: byte where "LF = CHR 0x0A"

definition CRLF :: bytes where "CRLF = [CR, LF]"

lemma CR_neq_LF [simp]: "CR \<noteq> LF" "LF \<noteq> CR"
  by (simp_all add: CR_def LF_def)

lemma length_CRLF [simp]: "length CRLF = 2"
  by (simp add: CRLF_def)

lemma CR_LF_not_digit [simp]: "\<not> is_ascii_digit CR" "\<not> is_ascii_digit LF"
  by (simp_all add: is_ascii_digit_def CR_def LF_def)

section \<open>Decimal text\<close>

definition digit :: "nat \<Rightarrow> byte" where
  "digit n = char_of (48 + n)"

fun dec_digits :: "nat \<Rightarrow> bytes" where
  "dec_digits n = (if n < 10 then [digit n] else dec_digits (n div 10) @ [digit (n mod 10)])"

declare dec_digits.simps [simp del]

text \<open>\<open>i64::to_string\<close>.\<close>

definition int_to_string :: "int \<Rightarrow> bytes" where
  "int_to_string i = (if i < 0 then CHR ''-'' # dec_digits (nat (- i)) else dec_digits (nat i))"

definition digits_value :: "bytes \<Rightarrow> nat" where
  "digits_value ds = foldl (\<lambda>n c. 10 * n + digit_value c) 0 ds"

lemma of_char_digit: "n < 10 \<Longrightarrow> (of_char (digit n) :: nat) = 48 + n"
  by (simp add: digit_def)

lemma is_ascii_digit_digit [simp]: "n < 10 \<Longrightarrow> is_ascii_digit (digit n)"
  by (simp add: is_ascii_digit_def of_char_digit)

lemma digit_value_digit [simp]: "n < 10 \<Longrightarrow> digit_value (digit n) = n"
  by (simp add: digit_value_def of_char_digit)

lemma digit_neq_iff: "n < 10 \<Longrightarrow> digit n = c \<longleftrightarrow> (of_char c :: nat) = 48 + n"
  by (metis char_of_char digit_def of_char_digit)

lemma dec_digits_nonempty [simp]: "dec_digits n \<noteq> []"
  by (subst dec_digits.simps) simp

lemma dec_digits_are_digits: "c \<in> set (dec_digits n) \<Longrightarrow> is_ascii_digit c"
proof (induction n rule: dec_digits.induct)
  case (1 n)
  then show ?case
    by (subst (asm) (2) dec_digits.simps) (auto split: if_splits)
qed

lemma digits_value_snoc: "digits_value (ds @ [c]) = 10 * digits_value ds + digit_value c"
  by (simp add: digits_value_def)

lemma digits_value_dec_digits [simp]: "digits_value (dec_digits n) = n"
proof (induction n rule: dec_digits.induct)
  case (1 n)
  show ?case
  proof (cases "n < 10")
    case True
    then show ?thesis by (subst dec_digits.simps) (simp add: digits_value_def)
  next
    case False
    with 1 show ?thesis by (subst dec_digits.simps) (simp add: digits_value_snoc)
  qed
qed

lemma hd_dec_digits_nonzero: "0 < n \<Longrightarrow> hd (dec_digits n) \<noteq> digit 0"
proof (induction n rule: dec_digits.induct)
  case (1 n)
  show ?case
  proof (cases "n < 10")
    case True
    with 1(2) show ?thesis
      by (subst dec_digits.simps) (metis digit_value_digit list.sel(1) neq0_conv zero_less_numeral)
  next
    case False
    then have "hd (dec_digits n) = hd (dec_digits (n div 10))"
      by (subst dec_digits.simps) simp
    with False 1(1) show ?thesis by simp
  qed
qed

lemma digits_value_mono_prefix:
  "digits_value ds \<le> digits_value (ds @ es)"
  by (induction es rule: rev_induct) (auto simp: digits_value_snoc simp flip: append_assoc)

lemma dec_digits_no_CR [simp]: "CR \<notin> set (dec_digits n)"
  using dec_digits_are_digits CR_LF_not_digit by blast

lemma dec_digits_no_LF [simp]: "LF \<notin> set (dec_digits n)"
  using dec_digits_are_digits CR_LF_not_digit by blast

end
