(* ===== verification/Float_Text.thy ===== *)
theory Float_Text
  imports Prelude
begin

text \<open>
  The grammar of \<open>str::parse::<f64>\<close> from the Rust standard library, as far as
  the program observes it: which byte strings are numbers, and which of them
  round to a finite value. A number is kept exactly, as a sign, a decimal
  mantissa and a power of ten. Strings the grammar accepts are ASCII, so the
  preceding \<open>from_utf8\<close> check never changes the outcome.
\<close>

datatype f64_text = Decimal_Text bool int int | Inf_Text bool | Nan_Text

definition strip_sign :: "bytes \<Rightarrow> bool \<times> bytes" where
  "strip_sign b =
     (case b of
        c # r \<Rightarrow> if c = CHR ''-'' then (True, r) else if c = CHR ''+'' then (False, r) else (False, b)
      | [] \<Rightarrow> (False, []))"

text \<open>The exponent stops accumulating once it reaches \<open>0x10000\<close>.\<close>

definition exponent_value :: "bytes \<Rightarrow> nat" where
  "exponent_value ds =
     foldl (\<lambda>n c. if n < 65536 then 10 * n + digit_value c else n) 0 ds"

definition parse_exponent :: "bytes \<Rightarrow> int option" where
  "parse_exponent r =
     (let (neg, ds) = strip_sign r in
      if ds = [] \<or> \<not> list_all is_ascii_digit ds then None
      else Some (if neg then - int (exponent_value ds) else int (exponent_value ds)))"

definition mantissa_value :: "bytes \<Rightarrow> int" where
  "mantissa_value ds = foldl (\<lambda>n c. 10 * n + int (digit_value c)) 0 ds"

definition parse_number :: "bool \<Rightarrow> bytes \<Rightarrow> f64_text option" where
  "parse_number neg u =
     (let ip = takeWhile is_ascii_digit u;
          r1 = dropWhile is_ascii_digit u;
          (fp, r2) = (case r1 of
              c # r \<Rightarrow> if c = CHR ''.'' then (takeWhile is_ascii_digit r, dropWhile is_ascii_digit r)
                      else ([], r1)
            | [] \<Rightarrow> ([], []));
          scale = - int (length fp)
      in if ip = [] \<and> fp = [] then None
         else (case r2 of
             [] \<Rightarrow> Some (Decimal_Text neg (mantissa_value (ip @ fp)) scale)
           | c # r \<Rightarrow>
               if c = CHR ''e'' \<or> c = CHR ''E'' then
                 map_option (\<lambda>e. Decimal_Text neg (mantissa_value (ip @ fp)) (scale + e)) (parse_exponent r)
               else None))"

definition parse_f64_text :: "bytes \<Rightarrow> f64_text option" where
  "parse_f64_text b =
     (let (neg, u) = strip_sign b in
      if eq_ignore_ascii_case u ''inf'' \<or> eq_ignore_ascii_case u ''infinity'' then Some (Inf_Text neg)
      else if eq_ignore_ascii_case u ''nan'' then Some Nan_Text
      else parse_number neg u)"

text \<open>A decimal rounds (to nearest, ties to even) to an infinity exactly from the
  midpoint between the largest finite double and \<open>2 ^ 1024\<close> upwards.\<close>

definition F64_OVERFLOW :: int where
  "F64_OVERFLOW = push_bit 970 18014398509481983"

definition f64_text_finite :: "f64_text \<Rightarrow> bool" where
  "f64_text_finite t =
     (case t of
        Decimal_Text _ m e \<Rightarrow>
          if 0 \<le> e then m * 10 ^ nat e < F64_OVERFLOW else m < F64_OVERFLOW * 10 ^ nat (- e)
      | Inf_Text _ \<Rightarrow> False
      | Nan_Text \<Rightarrow> False)"

definition parses_as_finite_f64 :: "bytes \<Rightarrow> bool" where
  "parses_as_finite_f64 b =
     (case parse_f64_text b of None \<Rightarrow> False | Some t \<Rightarrow> f64_text_finite t)"

end
