(* ===== verification/Resp_Frame.thy ===== *)
theory Resp_Frame
  imports Float_Text
begin

text \<open>
  The vocabulary of the RESP codec (\<open>src/src/resp\<close>): frames, limits, errors,
  and the scalar check the encoder and the decoder share.
\<close>

section \<open>Frames (\<open>frame.rs\<close>)\<close>

datatype frame =
    FSimple bytes
  | FError bytes
  | FInteger int
  | FBulk "bytes option"
  | FArray "frame list option"
  | FNull
  | FBoolean bool
  | FDouble bytes
  | FBigNumber bytes
  | FBlobError bytes
  | FVerbatim bytes
  | FMap "frame list"
  | FSet "frame list"
  | FPush "frame list"
  | FAttribute "frame list"

section \<open>Limits (\<open>limits.rs\<close>)\<close>

record resp_limits =
  max_frame_bytes :: nat
  max_bulk_bytes :: nat
  max_line_bytes :: nat
  max_nodes :: nat
  max_depth :: nat

definition default_limits :: resp_limits where
  "default_limits =
     \<lparr>max_frame_bytes = 4 * 1024 * 1024, max_bulk_bytes = 1024 * 1024,
      max_line_bytes = 1024, max_nodes = 1024, max_depth = 16\<rparr>"

text \<open>\<open>InvalidAddress\<close> also carries the diagnosis of the address parser of the
  standard library, which nothing here reads.\<close>

datatype config_error =
    InvalidServerLimits string
  | NonUnicodeValue string
  | InvalidInteger string bytes
  | InvalidRespLimits string
  | NonUnicodeAddress
  | InvalidAddress bytes

definition validate_limits :: "resp_limits \<Rightarrow> config_error + unit" where
  "validate_limits l =
     (let reason =
        (if max_frame_bytes l = 0 \<or> max_bulk_bytes l = 0 \<or> max_line_bytes l = 0
            \<or> max_nodes l = 0 \<or> max_depth l = 0
         then Some ''all limits must be greater than zero''
         else if max_bulk_bytes l > max_frame_bytes l
         then Some ''max_bulk_bytes cannot exceed max_frame_bytes''
         else if max_line_bytes l > max_frame_bytes l
         then Some ''max_line_bytes cannot exceed max_frame_bytes''
         else if max_depth l > 128 then Some ''max_depth cannot exceed 128''
         else None)
      in case reason of Some r \<Rightarrow> Inl (InvalidRespLimits r) | None \<Rightarrow> Inr ())"

text \<open>Every field is a \<open>usize\<close>; a configuration the constructors accept also
  passes \<open>validate\<close>.\<close>

definition limits_ok :: "resp_limits \<Rightarrow> bool" where
  "limits_ok l \<longleftrightarrow> validate_limits l = Inr () \<and>
     max_frame_bytes l \<le> USIZE_MAX \<and> max_nodes l \<le> USIZE_MAX"

lemma limits_okD:
  assumes "limits_ok l"
  shows "max_frame_bytes l \<le> USIZE_MAX" "max_nodes l \<le> USIZE_MAX"
    "max_bulk_bytes l \<le> max_frame_bytes l" "max_line_bytes l \<le> max_frame_bytes l"
    "max_depth l \<le> 128" "0 < max_nodes l"
  using assms by (auto simp: limits_ok_def validate_limits_def Let_def split: if_splits option.splits)

section \<open>Errors (\<open>error.rs\<close>)\<close>

datatype protocol_error =
    Malformed string
  | LimitExceeded string
  | BufferChanged
  | Poisoned

datatype encode_error =
    InvalidFrame string
  | EncodeLimitExceeded string
  | InvalidLimits config_error

section \<open>Scalars (\<open>decoder.rs\<close>)\<close>

definition validate_scalar :: "byte \<Rightarrow> bytes \<Rightarrow> protocol_error + unit" where
  "validate_scalar kind b =
     (let valid =
        (if kind = CHR ''('' then
           (let digits = (case b of c # r \<Rightarrow> if c = CHR ''-'' then r else b | [] \<Rightarrow> b)
            in digits \<noteq> [] \<and> list_all is_ascii_digit digits)
         else b = ''inf'' \<or> b = ''-inf'' \<or> b = ''nan''
           \<or> (parses_as_finite_f64 b \<and> \<not> list_ex is_ascii_whitespace b))
      in if valid then Inr () else Inl (Malformed ''invalid RESP3 scalar''))"

lemma validate_scalar_no_eol:
  assumes "validate_scalar kind b = Inr ()"
  shows "CR \<notin> set b" "LF \<notin> set b"
proof -
  have w: "is_ascii_whitespace CR" "is_ascii_whitespace LF"
    by (simp_all add: is_ascii_whitespace_def CR_def LF_def)
  have "CR \<notin> set b \<and> LF \<notin> set b"
  proof (cases "kind = CHR ''(''")
    case True
    then have "list_all (\<lambda>c. is_ascii_digit c \<or> c = CHR ''-'') b"
      using assms
      by (auto simp: validate_scalar_def Let_def list_all_iff split: if_splits list.splits)
    moreover have "CR \<noteq> CHR ''-''" "LF \<noteq> CHR ''-''" by (simp_all add: CR_def LF_def)
    ultimately show ?thesis by (auto simp: list_all_iff)
  next
    case False
    then have "b \<in> {''inf'', ''-inf'', ''nan''} \<or> \<not> list_ex is_ascii_whitespace b"
      using assms by (auto simp: validate_scalar_def Let_def split: if_splits)
    with w show ?thesis by (auto simp: list_ex_iff CR_def LF_def)
  qed
  then show "CR \<notin> set b" "LF \<notin> set b" by auto
qed

section \<open>Structural measures\<close>

fun node_count :: "frame \<Rightarrow> nat" where
  "node_count (FArray (Some fs)) = Suc (sum_list (map node_count fs))"
| "node_count (FMap fs) = Suc (sum_list (map node_count fs))"
| "node_count (FSet fs) = Suc (sum_list (map node_count fs))"
| "node_count (FPush fs) = Suc (sum_list (map node_count fs))"
| "node_count (FAttribute fs) = Suc (sum_list (map node_count fs))"
| "node_count _ = 1"

lemma node_count_pos [simp]: "0 < node_count f"
  by (cases f rule: node_count.cases) auto

lemma length_le_node_counts: "length fs \<le> sum_list (map node_count fs)"
proof (induction fs)
  case (Cons f fs)
  with node_count_pos [of f] show ?case by (simp del: node_count_pos)
qed simp

end
