(* ===== verification/Resp_Encoder.thy ===== *)
theory Resp_Encoder
  imports Resp_Frame
begin

text \<open>
  The two-pass encoder of \<open>src/src/resp/encoder.rs\<close>: \<open>encoded_size\<close> checks the
  whole frame against the limits, then the second loop writes it. Both loops
  walk an explicit stack; \<open>wire\<close> is the recursive reading of what they write,
  and \<open>encodable\<close> the declarative reading of what they accept.
\<close>

section \<open>Writing\<close>

definition line :: "byte \<Rightarrow> bytes \<Rightarrow> bytes \<Rightarrow> bytes" where
  "line prefix value dst = dst @ prefix # value @ CRLF"

definition usize_string :: "nat \<Rightarrow> bytes" where
  "usize_string n = dec_digits n"

fun children :: "frame \<Rightarrow> frame list" where
  "children (FArray (Some fs)) = fs"
| "children (FMap fs) = fs"
| "children (FSet fs) = fs"
| "children (FPush fs) = fs"
| "children (FAttribute fs) = fs"
| "children _ = []"

text \<open>One iteration of the writing loop, without the children it pushes.\<close>

fun write_node :: "frame \<Rightarrow> bytes \<Rightarrow> bytes" where
  "write_node (FSimple v) dst = line CHR ''+'' v dst"
| "write_node (FError v) dst = line CHR ''-'' v dst"
| "write_node FNull dst = dst @ ''_'' @ CRLF"
| "write_node (FBoolean b) dst = dst @ (if b then ''#t'' else ''#f'') @ CRLF"
| "write_node (FDouble v) dst = line CHR '','' v dst"
| "write_node (FBigNumber v) dst = line CHR ''('' v dst"
| "write_node (FBlobError v) dst = line CHR ''!'' (usize_string (length v)) dst @ v @ CRLF"
| "write_node (FVerbatim v) dst = line CHR ''='' (usize_string (length v)) dst @ v @ CRLF"
| "write_node (FMap fs) dst = line CHR ''%'' (usize_string (length fs div 2)) dst"
| "write_node (FAttribute fs) dst = line CHR ''|'' (usize_string (length fs div 2)) dst"
| "write_node (FSet fs) dst = line CHR ''~'' (usize_string (length fs)) dst"
| "write_node (FPush fs) dst = line CHR ''>'' (usize_string (length fs)) dst"
| "write_node (FInteger i) dst = line CHR '':'' (int_to_string i) dst"
| "write_node (FBulk None) dst = dst @ ''$-1'' @ CRLF"
| "write_node (FBulk (Some v)) dst = line CHR ''$'' (usize_string (length v)) dst @ v @ CRLF"
| "write_node (FArray None) dst = dst @ ''*-1'' @ CRLF"
| "write_node (FArray (Some fs)) dst = line CHR ''*'' (usize_string (length fs)) dst"

lemma node_count_children: "node_count f = Suc (sum_list (map node_count (children f)))"
  by (cases f rule: children.cases) auto

lemma node_counts_children: "sum_list (map node_count (children f)) < node_count f"
  by (simp add: node_count_children)

text \<open>The stack is a list whose head is its top.\<close>

function write_loop :: "frame list \<Rightarrow> bytes \<Rightarrow> bytes" where
  "write_loop [] dst = dst"
| "write_loop (f # pending) dst = write_loop (children f @ pending) (write_node f dst)"
  by pat_completeness auto
termination
  by (relation "measure (\<lambda>(fs, dst). sum_list (map node_count fs))")
    (auto simp: node_counts_children)

section \<open>Budgeting\<close>

definition line_size :: "nat \<Rightarrow> resp_limits \<Rightarrow> encode_error + nat" where
  "line_size content l =
     res_bind (ok_or (checked_add content 3) (EncodeLimitExceeded ''max_line_bytes'')) (\<lambda>size.
       if size > max_line_bytes l then Inl (EncodeLimitExceeded ''max_line_bytes'') else Inr size)"

definition bulk_size :: "nat \<Rightarrow> resp_limits \<Rightarrow> encode_error + nat" where
  "bulk_size len l =
     (if len > max_bulk_bytes l then Inl (EncodeLimitExceeded ''max_bulk_bytes'')
      else res_bind (line_size (length (usize_string len)) l) (\<lambda>n.
        ok_or (Option.bind (checked_add n len) (\<lambda>n. checked_add n 2))
          (EncodeLimitExceeded ''max_frame_bytes'')))"

definition depth_check :: "nat \<Rightarrow> resp_limits \<Rightarrow> encode_error + nat" where
  "depth_check depth l =
     ok_or (opt_filter (\<lambda>n. n \<le> max_depth l) (checked_add depth 1)) (EncodeLimitExceeded ''max_depth'')"

definition nodes_check :: "nat \<Rightarrow> nat \<Rightarrow> nat \<Rightarrow> resp_limits \<Rightarrow> encode_error + nat" where
  "nodes_check nodes pending n l =
     ok_or (opt_filter (\<lambda>n. n \<le> max_nodes l)
       (Option.bind (checked_add nodes pending) (\<lambda>c. checked_add c n))) (EncodeLimitExceeded ''max_nodes'')"

definition container_size ::
  "bool \<Rightarrow> frame list \<Rightarrow> nat \<Rightarrow> nat \<Rightarrow> nat \<Rightarrow> resp_limits \<Rightarrow> encode_error + nat" where
  "container_size paired fs depth nodes pending l =
     (if paired \<and> length fs mod 2 \<noteq> 0 then Inl (InvalidFrame ''odd map element count'')
      else res_bind (depth_check depth l) (\<lambda>_.
        res_bind (nodes_check nodes pending (length fs) l) (\<lambda>_.
          line_size (length (usize_string (if paired then length fs div 2 else length fs))) l)))"

text \<open>The \<open>delta\<close> of one popped frame; \<open>pending\<close> is the length of the stack below it.\<close>

fun frame_delta :: "frame \<Rightarrow> nat \<Rightarrow> nat \<Rightarrow> nat \<Rightarrow> resp_limits \<Rightarrow> encode_error + nat" where
  "frame_delta (FSimple v) depth nodes pending l =
     res_bind (line_size (length v) l) (\<lambda>size.
       if list_ex (\<lambda>c. c = CR \<or> c = LF) v then Inl (InvalidFrame ''simple/error contains CR or LF'')
       else Inr size)"
| "frame_delta (FError v) depth nodes pending l =
     res_bind (line_size (length v) l) (\<lambda>size.
       if list_ex (\<lambda>c. c = CR \<or> c = LF) v then Inl (InvalidFrame ''simple/error contains CR or LF'')
       else Inr size)"
| "frame_delta FNull depth nodes pending l = line_size 0 l"
| "frame_delta (FBoolean _) depth nodes pending l = line_size 1 l"
| "frame_delta (FDouble v) depth nodes pending l =
     res_bind (line_size (length v) l) (\<lambda>size.
       res_bind (map_err (\<lambda>_. InvalidFrame ''invalid RESP3 scalar'') (validate_scalar CHR '','' v))
         (\<lambda>_. Inr size))"
| "frame_delta (FBigNumber v) depth nodes pending l =
     res_bind (line_size (length v) l) (\<lambda>size.
       res_bind (map_err (\<lambda>_. InvalidFrame ''invalid RESP3 scalar'') (validate_scalar CHR ''('' v))
         (\<lambda>_. Inr size))"
| "frame_delta (FBlobError v) depth nodes pending l = bulk_size (length v) l"
| "frame_delta (FVerbatim v) depth nodes pending l =
     (if length v < 4 \<or> v ! 3 \<noteq> CHR '':'' then Inl (InvalidFrame ''invalid verbatim format'')
      else bulk_size (length v) l)"
| "frame_delta (FMap fs) depth nodes pending l = container_size True fs depth nodes pending l"
| "frame_delta (FAttribute fs) depth nodes pending l = container_size True fs depth nodes pending l"
| "frame_delta (FSet fs) depth nodes pending l = container_size False fs depth nodes pending l"
| "frame_delta (FPush fs) depth nodes pending l = container_size False fs depth nodes pending l"
| "frame_delta (FInteger i) depth nodes pending l = line_size (length (int_to_string i)) l"
| "frame_delta (FBulk None) depth nodes pending l = line_size 2 l"
| "frame_delta (FBulk (Some v)) depth nodes pending l = bulk_size (length v) l"
| "frame_delta (FArray None) depth nodes pending l =
     res_bind (depth_check depth l) (\<lambda>_. line_size 2 l)"
| "frame_delta (FArray (Some fs)) depth nodes pending l =
     container_size False fs depth nodes pending l"

function size_loop ::
  "resp_limits \<Rightarrow> (frame \<times> nat) list \<Rightarrow> nat \<Rightarrow> nat \<Rightarrow> encode_error + nat" where
  "size_loop l [] nodes sz = Inr sz"
| "size_loop l ((f, depth) # pending) nodes sz =
     res_bind (ok_or (opt_filter (\<lambda>n. n \<le> max_nodes l) (checked_add nodes 1))
         (EncodeLimitExceeded ''max_nodes'')) (\<lambda>nodes'.
       res_bind (frame_delta f depth nodes' (length pending) l) (\<lambda>delta.
         res_bind (ok_or (opt_filter (\<lambda>n. n \<le> max_frame_bytes l) (checked_add sz delta))
             (EncodeLimitExceeded ''max_frame_bytes'')) (\<lambda>sz'.
           size_loop l (map (\<lambda>c. (c, Suc depth)) (children f) @ pending) nodes' sz')))"
  by pat_completeness auto
termination
  by (relation "measure (\<lambda>(l, fs, nodes, sz). sum_list (map (node_count \<circ> fst) fs))")
    (auto simp: node_counts_children comp_def)

definition encoded_size :: "frame \<Rightarrow> resp_limits \<Rightarrow> encode_error + nat" where
  "encoded_size f l = size_loop l [(f, 0)] 0 0"

text \<open>\<open>encode\<close> returns its result and the content of \<open>dst\<close> after the call.\<close>

definition encode :: "frame \<Rightarrow> bytes \<Rightarrow> resp_limits \<Rightarrow> (encode_error + unit) \<times> bytes" where
  "encode f dst l =
     (case res_bind (map_err InvalidLimits (validate_limits l)) (\<lambda>_.
         res_bind (encoded_size f l) (\<lambda>size.
           ok_or (checked_add (length dst) size) (EncodeLimitExceeded ''output capacity''))) of
        Inl e \<Rightarrow> (Inl e, dst)
      | Inr _ \<Rightarrow> (Inr (), write_loop [f] dst))"

section \<open>The recursive reading\<close>

definition header :: "frame \<Rightarrow> bytes" where
  "header f = write_node f []"

lemma node_count_child: "c \<in> set (children f) \<Longrightarrow> node_count c < node_count f"
  unfolding node_count_children [of f] by (simp add: less_Suc_eq_le member_le_sum_list)

function wire :: "frame \<Rightarrow> bytes" where
  "wire f = header f @ concat (map wire (children f))"
  by pat_completeness auto
termination
  by (relation "measure node_count") (auto intro: node_count_child)

declare wire.simps [simp del]

lemma line_append: "line p v dst = dst @ line p v []"
  by (simp add: line_def)

lemma write_node_append: "write_node f dst = dst @ header f"
  by (cases "(f, dst)" rule: write_node.cases) (auto simp: header_def line_def)

lemma write_loop_wire: "write_loop fs dst = dst @ concat (map wire fs)"
proof (induction fs dst rule: write_loop.induct)
  case (2 f pending dst)
  then show ?case by (simp add: write_node_append wire.simps [of f])
qed simp

lemma length_header_ge3: "3 \<le> length (header f)"
  by (cases "(f, [] :: bytes)" rule: write_node.cases) (auto simp: header_def line_def)

lemma length_wire_ge: "3 * node_count f \<le> length (wire f)"
proof (induction f rule: wire.induct)
  case (1 f)
  have "(\<Sum>c\<leftarrow>children f. 3 * node_count c) \<le> (\<Sum>c\<leftarrow>children f. length (wire c))"
    by (rule sum_list_mono) (use 1 in auto)
  then show ?case
    using length_header_ge3 [of f]
    by (simp add: wire.simps [of f] node_count_children [of f] length_concat comp_def
        sum_list_const_mult)
qed

section \<open>What the encoder accepts\<close>

fun line_content :: "frame \<Rightarrow> nat" where
  "line_content (FSimple v) = length v"
| "line_content (FError v) = length v"
| "line_content FNull = 0"
| "line_content (FBoolean _) = 1"
| "line_content (FDouble v) = length v"
| "line_content (FBigNumber v) = length v"
| "line_content (FBlobError v) = length (dec_digits (length v))"
| "line_content (FVerbatim v) = length (dec_digits (length v))"
| "line_content (FMap fs) = length (dec_digits (length fs div 2))"
| "line_content (FAttribute fs) = length (dec_digits (length fs div 2))"
| "line_content (FSet fs) = length (dec_digits (length fs))"
| "line_content (FPush fs) = length (dec_digits (length fs))"
| "line_content (FInteger i) = length (int_to_string i)"
| "line_content (FBulk None) = 2"
| "line_content (FBulk (Some v)) = length (dec_digits (length v))"
| "line_content (FArray None) = 2"
| "line_content (FArray (Some fs)) = length (dec_digits (length fs))"

fun payload_ok :: "resp_limits \<Rightarrow> frame \<Rightarrow> bool" where
  "payload_ok l (FSimple v) = (CR \<notin> set v \<and> LF \<notin> set v)"
| "payload_ok l (FError v) = (CR \<notin> set v \<and> LF \<notin> set v)"
| "payload_ok l (FDouble v) = (validate_scalar CHR '','' v = Inr ())"
| "payload_ok l (FBigNumber v) = (validate_scalar CHR ''('' v = Inr ())"
| "payload_ok l (FBlobError v) = (length v \<le> max_bulk_bytes l)"
| "payload_ok l (FVerbatim v) = (4 \<le> length v \<and> v ! 3 = CHR '':'' \<and> length v \<le> max_bulk_bytes l)"
| "payload_ok l (FBulk (Some v)) = (length v \<le> max_bulk_bytes l)"
| "payload_ok l (FMap fs) = even (length fs)"
| "payload_ok l (FAttribute fs) = even (length fs)"
| "payload_ok l _ = True"

fun is_container :: "frame \<Rightarrow> bool" where
  "is_container (FArray _) = True"
| "is_container (FMap _) = True"
| "is_container (FSet _) = True"
| "is_container (FPush _) = True"
| "is_container (FAttribute _) = True"
| "is_container _ = False"

function frame_valid :: "resp_limits \<Rightarrow> nat \<Rightarrow> frame \<Rightarrow> bool" where
  "frame_valid l d f \<longleftrightarrow>
     line_content f + 3 \<le> max_line_bytes l \<and> payload_ok l f
     \<and> (is_container f \<longrightarrow> Suc d \<le> max_depth l)
     \<and> (\<forall>c \<in> set (children f). frame_valid l (Suc d) c)"
  by pat_completeness auto
termination
  by (relation "measure (\<lambda>(l, d, f). node_count f)") (auto intro: node_count_child)

declare frame_valid.simps [simp del]

text \<open>Frame, limits and output length admit the encoding.\<close>

definition encodable :: "resp_limits \<Rightarrow> frame \<Rightarrow> bool" where
  "encodable l f \<longleftrightarrow> frame_valid l 0 f \<and> node_count f \<le> max_nodes l
     \<and> length (wire f) \<le> max_frame_bytes l"

lemma line_size_Inr:
  "limits_ok l \<Longrightarrow> line_size n l = Inr s \<longleftrightarrow> n + 3 \<le> max_line_bytes l \<and> s = n + 3"
  using limits_okD(1,4) [of l]
  by (auto simp: line_size_def result_simps checked_simps)

lemma bulk_size_Inr:
  "limits_ok l \<Longrightarrow> bulk_size n l = Inr s \<longleftrightarrow>
     n \<le> max_bulk_bytes l \<and> length (dec_digits n) + 3 \<le> max_line_bytes l
     \<and> s = length (dec_digits n) + n + 5 \<and> s \<le> USIZE_MAX"
  by (auto simp: bulk_size_def result_simps checked_simps line_size_Inr usize_string_def
      bind_eq_Some_conv)

lemma depth_check_Inr:
  "limits_ok l \<Longrightarrow> depth_check d l = Inr s \<longleftrightarrow> Suc d \<le> max_depth l \<and> s = Suc d"
  using limits_okD(5) [of l]
  by (auto simp: depth_check_def result_simps checked_simps USIZE_MAX_def)

lemma nodes_check_Inr:
  "limits_ok l \<Longrightarrow> nodes_check n p k l = Inr s \<longleftrightarrow> n + p + k \<le> max_nodes l \<and> s = n + p + k"
  using limits_okD(2) [of l]
  by (auto simp: nodes_check_def result_simps checked_simps bind_eq_Some_conv)

lemma container_size_Inr:
  "limits_ok l \<Longrightarrow> container_size paired fs d n p l = Inr s \<longleftrightarrow>
     (paired \<longrightarrow> even (length fs)) \<and> Suc d \<le> max_depth l \<and> n + p + length fs \<le> max_nodes l
     \<and> length (dec_digits (if paired then length fs div 2 else length fs)) + 3 \<le> max_line_bytes l
     \<and> s = length (dec_digits (if paired then length fs div 2 else length fs)) + 3"
  by (auto simp: container_size_def result_simps line_size_Inr depth_check_Inr nodes_check_Inr
      usize_string_def even_iff_mod_2_eq_zero)

lemmas size_simps = line_size_Inr bulk_size_Inr depth_check_Inr nodes_check_Inr container_size_Inr

lemma no_eol_iff: "list_ex (\<lambda>c. c = CR \<or> c = LF) v \<longleftrightarrow> CR \<in> set v \<or> LF \<in> set v"
  by (auto simp: list_ex_iff)

lemma frame_delta_sound:
  assumes "limits_ok l" "frame_delta f d n p l = Inr s"
  shows "line_content f + 3 \<le> max_line_bytes l \<and> payload_ok l f
    \<and> (is_container f \<longrightarrow> Suc d \<le> max_depth l) \<and> s = length (header f)"
  using assms
  by (cases "(f, d, n, p, l)" rule: frame_delta.cases)
    (auto simp: result_simps size_simps header_def line_def usize_string_def no_eol_iff
      split: if_splits)

lemma frame_delta_complete:
  assumes "limits_ok l" "line_content f + 3 \<le> max_line_bytes l" "payload_ok l f"
    "is_container f \<longrightarrow> Suc d \<le> max_depth l" "n + p + length (children f) \<le> max_nodes l"
    "length (header f) \<le> USIZE_MAX"
  shows "frame_delta f d n p l = Inr (length (header f))"
  using assms
  by (cases "(f, d, n, p, l)" rule: frame_delta.cases)
    (auto simp: result_simps size_simps header_def line_def usize_string_def no_eol_iff)

lemma size_loop_sound:
  "limits_ok l \<Longrightarrow> size_loop l P n s = Inr r \<Longrightarrow> n \<le> max_nodes l \<Longrightarrow> s \<le> max_frame_bytes l \<Longrightarrow>
     (\<forall>(f, d) \<in> set P. frame_valid l d f)
     \<and> n + sum_list (map (node_count \<circ> fst) P) \<le> max_nodes l
     \<and> r = s + sum_list (map (length \<circ> wire \<circ> fst) P) \<and> r \<le> max_frame_bytes l"
proof (induction l P n s rule: size_loop.induct)
  case (1 l n s)
  then show ?case by simp
next
  case (2 l f d P n s)
  let ?delta = "length (header f)"
  let ?P = "map (\<lambda>c. (c, Suc d)) (children f) @ P"
  from 2(3) obtain delta where
    n: "Suc n \<le> max_nodes l" "Suc n \<le> USIZE_MAX"
    and delta: "frame_delta f d (Suc n) (length P) l = Inr delta"
    and s: "s + delta \<le> max_frame_bytes l" "s + delta \<le> USIZE_MAX"
    and rest: "size_loop l ?P (Suc n) (s + delta) = Inr r"
    by (auto simp: result_simps checked_simps)
  have d: "delta = ?delta" using frame_delta_sound [OF 2(2) delta] by simp
  have "(\<forall>(f, d) \<in> set ?P. frame_valid l d f)
     \<and> Suc n + sum_list (map (node_count \<circ> fst) ?P) \<le> max_nodes l
     \<and> r = s + delta + sum_list (map (length \<circ> wire \<circ> fst) ?P) \<and> r \<le> max_frame_bytes l"
    using n s rest delta
    by (intro "2.IH" [where x = "Suc n" and xa = delta and xb = "s + delta"])
      (auto simp: 2(2) result_simps checked_simps)
  then show ?case
    using frame_delta_sound [OF 2(2) delta]
    by (auto simp: frame_valid.simps [of l d f] wire.simps [of f] node_count_children [of f]
        length_concat comp_def d)
qed

lemma size_loop_complete:
  "limits_ok l \<Longrightarrow> \<forall>(f, d) \<in> set P. frame_valid l d f \<Longrightarrow>
     n + sum_list (map (node_count \<circ> fst) P) \<le> max_nodes l \<Longrightarrow>
     s + sum_list (map (length \<circ> wire \<circ> fst) P) \<le> max_frame_bytes l \<Longrightarrow>
     size_loop l P n s = Inr (s + sum_list (map (length \<circ> wire \<circ> fst) P))"
proof (induction l P n s rule: size_loop.induct)
  case (1 l n s)
  then show ?case by simp
next
  case (2 l f d P n s)
  let ?P = "map (\<lambda>c. (c, Suc d)) (children f) @ P"
  have u: "max_frame_bytes l \<le> USIZE_MAX" "max_nodes l \<le> USIZE_MAX"
    using limits_okD [OF 2(2)] by auto
  have k: "length (children f) \<le> sum_list (map node_count (children f))"
    by (rule length_le_node_counts)
  have p: "length P \<le> sum_list (map (node_count \<circ> fst) P)"
    using length_le_node_counts [of "map fst P"] by simp
  have v: "frame_valid l d f" using 2(3) by simp
  have n: "Suc n + sum_list (map (node_count \<circ> fst) ?P) \<le> max_nodes l"
    using 2(4) by (simp add: node_count_children [of f] comp_def)
  have sz: "s + length (header f) + sum_list (map (length \<circ> wire \<circ> fst) ?P) \<le> max_frame_bytes l"
    using 2(5) by (simp add: wire.simps [of f] length_concat comp_def)
  have delta: "frame_delta f d (Suc n) (length P) l = Inr (length (header f))"
    using v n k p sz u
    by (intro frame_delta_complete [OF 2(2)]) (auto simp: frame_valid.simps [of l d f] comp_def)
  have "size_loop l ?P (Suc n) (s + length (header f)) =
      Inr (s + length (header f) + sum_list (map (length \<circ> wire \<circ> fst) ?P))"
    using delta n sz u 2(3) v
    by (intro "2.IH" [where x = "Suc n" and xa = "length (header f)"])
      (auto simp: 2(2) result_simps checked_simps frame_valid.simps [of l d f] comp_def)
  with delta n sz u show ?case
    by (simp add: checked_add_def wire.simps [of f] length_concat comp_def)
qed

theorem encoded_size_iff:
  assumes "limits_ok l"
  shows "encoded_size f l = Inr r \<longleftrightarrow> encodable l f \<and> r = length (wire f)"
  using size_loop_sound [of l "[(f, 0)]" 0 0 r] size_loop_complete [of l "[(f, 0)]" 0 0] assms
  by (auto simp: encoded_size_def encodable_def)

end
