(* ===== verification/Resp_Decoder.thy ===== *)
theory Resp_Decoder
  imports Resp_Frame
begin

text \<open>
  The incremental scanner of \<open>src/src/resp/decoder.rs\<close>. The decoder keeps its
  cursor, its line or bulk state, the flat list of scanned nodes and the stack
  of open arrays between calls; \<open>decode\<close> scans the new bytes, and only a
  complete frame is materialized and consumed. The \<open>arrays\<close> stack and the
  stack of \<open>materialize\<close> are lists whose head is the top.
\<close>

section \<open>State\<close>

record payload =
  p_start :: nat
  p_end :: nat

datatype node =
    NSimple payload
  | NError payload
  | NInteger int
  | NBulk "payload option"
  | NArray "nat option" byte
  | NScalar byte payload
  | NNull
  | NBoolean bool

record line_state =
  ln_kind :: byte
  ln_start :: nat
  ln_payload_start :: nat
  ln_saw_cr :: bool

datatype scan_state =
    Prefix
  | Line line_state
  | Bulk payload bool byte

record decoder =
  limits :: resp_limits
  cursor :: nat
  previous_len :: nat
  state :: scan_state
  nodes :: "node list"
  arrays :: "nat list"
  nodes_started :: nat
  pending_nodes :: nat
  poisoned :: bool

definition fresh_decoder :: "resp_limits \<Rightarrow> decoder" where
  "fresh_decoder l =
     \<lparr>limits = l, cursor = 0, previous_len = 0, state = Prefix, nodes = [], arrays = [],
      nodes_started = 0, pending_nodes = 1, poisoned = False\<rparr>"

definition decoder_new :: "resp_limits \<Rightarrow> config_error + decoder" where
  "decoder_new l = res_bind (validate_limits l) (\<lambda>_. Inr (fresh_decoder l))"

section \<open>Helpers\<close>

definition dec_add :: "nat \<Rightarrow> nat \<Rightarrow> protocol_error + nat" where
  "dec_add a b = ok_or (checked_add a b) (LimitExceeded ''max_frame_bytes'')"

text \<open>\<open>src.get(start..end)\<close>: out of range, or a range that runs backwards, is \<open>None\<close>.\<close>

definition payload_slice :: "bytes \<Rightarrow> payload \<Rightarrow> protocol_error + bytes" where
  "payload_slice src p =
     (if p_start p \<le> p_end p \<and> p_end p \<le> length src
      then Inr (take (p_end p - p_start p) (drop (p_start p) src))
      else Inl BufferChanged)"

definition copy_payload :: "bytes \<Rightarrow> payload \<Rightarrow> protocol_error + bytes" where
  "copy_payload src p = payload_slice src p"

fun parse_integer_digits :: "bytes \<Rightarrow> int \<Rightarrow> protocol_error + int" where
  "parse_integer_digits [] value = Inr value"
| "parse_integer_digits (c # ds) value =
     (if \<not> is_ascii_digit c then Inl (Malformed ''invalid integer'')
      else res_bind (ok_or (Option.bind (i64_checked (value * 10)) (\<lambda>v.
               i64_checked (v - int (digit_value c)))) (Malformed ''integer out of range''))
             (parse_integer_digits ds))"

definition parse_integer :: "bytes \<Rightarrow> protocol_error + int" where
  "parse_integer b =
     (let (negative, digits) =
        (case b of
           c # r \<Rightarrow> if c = CHR ''-'' then (True, r) else if c = CHR ''+'' then (False, r) else (False, b)
         | [] \<Rightarrow> (False, b))
      in if digits = [] then Inl (Malformed ''integer without digits'')
         else res_bind (parse_integer_digits digits 0) (\<lambda>value.
           if negative then Inr value
           else ok_or (i64_checked (- value)) (Malformed ''integer out of range'')))"

fun parse_length_digits :: "bytes \<Rightarrow> nat \<Rightarrow> protocol_error + nat" where
  "parse_length_digits [] value = Inr value"
| "parse_length_digits (c # ds) value =
     (if \<not> is_ascii_digit c then Inl (Malformed ''invalid length'')
      else res_bind (ok_or (Option.bind (checked_mul value 10) (\<lambda>v.
               checked_add v (digit_value c))) (Malformed ''length out of range''))
             (parse_length_digits ds))"

definition parse_length :: "bytes \<Rightarrow> protocol_error + nat option" where
  "parse_length b =
     (if b = ''-1'' then Inr None
      else if b = [] then Inl (Malformed ''length without digits'')
      else res_bind (parse_length_digits b 0) (\<lambda>v. Inr (Some v)))"

definition require_frame_end :: "decoder \<Rightarrow> nat \<Rightarrow> protocol_error + unit" where
  "require_frame_end d e =
     (if e > max_frame_bytes (limits d) then Inl (LimitExceeded ''max_frame_bytes'') else Inr ())"

section \<open>Scanning\<close>

text \<open>\<open>True\<close> when the root frame is complete.\<close>

fun finish_arrays :: "nat list \<Rightarrow> protocol_error + (bool \<times> nat list)" where
  "finish_arrays [] = Inr (True, [])"
| "finish_arrays (remaining # rest) =
     (if remaining = 0 then Inl (Malformed ''array already complete'')
      else if remaining - 1 > 0 then Inr (False, (remaining - 1) # rest)
      else finish_arrays rest)"

definition finish_node :: "decoder \<Rightarrow> protocol_error + (decoder \<times> bool)" where
  "finish_node d =
     res_bind (finish_arrays (arrays d)) (\<lambda>(complete, rest).
       Inr (d\<lparr>state := Prefix, arrays := rest\<rparr>, complete))"

definition push_node :: "node \<Rightarrow> decoder \<Rightarrow> decoder" where
  "push_node n d = d\<lparr>nodes := nodes d @ [n]\<rparr>"

definition is_aggregate_prefix :: "byte \<Rightarrow> bool" where
  "is_aggregate_prefix k \<longleftrightarrow> k \<in> set ''*%~>|''"

definition is_prefix :: "byte \<Rightarrow> bool" where
  "is_prefix k \<longleftrightarrow> k \<in> set ''+-:$*_#,(!=%~>|''"

definition finish_bulk_header :: "decoder \<Rightarrow> byte \<Rightarrow> nat option \<Rightarrow> protocol_error + (decoder \<times> bool)" where
  "finish_bulk_header d kind length' =
     (case length' of
        Some len \<Rightarrow>
          if len > max_bulk_bytes (limits d) then Inl (LimitExceeded ''max_bulk_bytes'')
          else res_bind (dec_add (cursor d) len) (\<lambda>e.
            res_bind (dec_add e 2) (\<lambda>e2.
              res_bind (require_frame_end d e2) (\<lambda>_.
                Inr (d\<lparr>state := Bulk \<lparr>p_start = cursor d, p_end = e\<rparr> False kind\<rparr>, False))))
      | None \<Rightarrow> finish_node (push_node (NBulk None) d))"

definition declare_nodes :: "decoder \<Rightarrow> nat \<Rightarrow> protocol_error + decoder" where
  "declare_nodes d len =
     res_bind (ok_or (checked_add (pending_nodes d) len) (LimitExceeded ''max_nodes'')) (\<lambda>pending.
       res_bind (ok_or (checked_add (nodes_started d) pending) (LimitExceeded ''max_nodes'')) (\<lambda>declared.
         if declared > max_nodes (limits d) then Inl (LimitExceeded ''max_nodes'')
         else res_bind (ok_or (checked_mul pending 3) (LimitExceeded ''max_frame_bytes'')) (\<lambda>minimum.
           res_bind (dec_add (cursor d) minimum) (\<lambda>e.
             res_bind (require_frame_end d e) (\<lambda>_. Inr (d\<lparr>pending_nodes := pending\<rparr>))))))"

definition finish_array_header :: "decoder \<Rightarrow> byte \<Rightarrow> nat option \<Rightarrow> protocol_error + (decoder \<times> bool)" where
  "finish_array_header d kind length' =
     res_bind (case length' of Some len \<Rightarrow> declare_nodes d len | None \<Rightarrow> Inr d) (\<lambda>d.
       let d = push_node (NArray length' kind) d in
       (case length' of
          Some len \<Rightarrow>
            if len > 0 then Inr (d\<lparr>arrays := len # arrays d, state := Prefix\<rparr>, False) else finish_node d
        | None \<Rightarrow> finish_node d))"

definition finish_line :: "bytes \<Rightarrow> byte \<Rightarrow> payload \<Rightarrow> decoder \<Rightarrow> protocol_error + (decoder \<times> bool)" where
  "finish_line src kind p d =
     (if kind = CHR ''+'' then finish_node (push_node (NSimple p) d)
      else if kind = CHR ''-'' then finish_node (push_node (NError p) d)
      else if kind = CHR '':'' then
        res_bind (payload_slice src p) (\<lambda>b.
          res_bind (parse_integer b) (\<lambda>i. finish_node (push_node (NInteger i) d)))
      else if kind = CHR ''_'' then
        (if p_start p \<noteq> p_end p then Inl (Malformed ''invalid null'')
         else finish_node (push_node NNull d))
      else if kind = CHR ''#'' then
        res_bind (payload_slice src p) (\<lambda>b.
          if b = ''t'' then finish_node (push_node (NBoolean True) d)
          else if b = ''f'' then finish_node (push_node (NBoolean False) d)
          else Inl (Malformed ''invalid boolean''))
      else if kind = CHR '','' \<or> kind = CHR ''('' then
        res_bind (payload_slice src p) (\<lambda>b.
          res_bind (validate_scalar kind b) (\<lambda>_. finish_node (push_node (NScalar kind p) d)))
      else if kind \<in> set ''$*!=%~>|'' then
        res_bind (payload_slice src p) (\<lambda>b.
          res_bind (parse_length b) (\<lambda>length'.
            if kind \<noteq> CHR ''$'' \<and> kind \<noteq> CHR ''*'' \<and> length' = None
            then Inl (Malformed ''null RESP3 length'')
            else res_bind
              (if kind = CHR ''%'' \<or> kind = CHR ''|'' then
                 (case length' of
                    None \<Rightarrow> Inr None
                  | Some n \<Rightarrow> res_bind (ok_or (checked_mul n 2) (LimitExceeded ''max_nodes'')) (\<lambda>n. Inr (Some n)))
               else Inr length') (\<lambda>length'.
              if kind \<in> set ''$!='' then finish_bulk_header d kind length'
              else finish_array_header d kind length')))
      else Inl (Malformed ''unknown prefix''))"

text \<open>How one turn of the scanning loop ends.\<close>

datatype flow = Continue | Return bool

definition next_flow :: "protocol_error + (decoder \<times> bool) \<Rightarrow> protocol_error + (decoder \<times> flow)" where
  "next_flow r = res_bind r (\<lambda>(d, complete). Inr (d, if complete then Return True else Continue))"

definition byte_at :: "bytes \<Rightarrow> nat \<Rightarrow> byte option" where
  "byte_at src i = (if i < length src then Some (src ! i) else None)"

text \<open>The three states are split into the checks before the byte is read and what
  is done with it.\<close>

definition prefix_budget :: "decoder \<Rightarrow> protocol_error + unit" where
  "prefix_budget d =
     (if nodes_started d > 0 then res_bind (dec_add (cursor d) 3) (require_frame_end d) else Inr ())"

definition start_node :: "byte \<Rightarrow> decoder \<Rightarrow> protocol_error + (decoder \<times> flow)" where
  "start_node kind d =
     (if \<not> is_prefix kind then Inl (Malformed ''unknown prefix'')
      else if is_aggregate_prefix kind \<and> length (arrays d) \<ge> max_depth (limits d)
      then Inl (LimitExceeded ''max_depth'')
      else res_bind (ok_or (opt_filter (\<lambda>n. n \<le> max_nodes (limits d)) (checked_add (nodes_started d) 1))
              (LimitExceeded ''max_nodes'')) (\<lambda>started.
        res_bind (ok_or (checked_sub (pending_nodes d) 1) (Malformed ''node without parent'')) (\<lambda>pending.
          res_bind (dec_add (cursor d) 1) (\<lambda>c.
            Inr (d\<lparr>nodes_started := started, pending_nodes := pending, cursor := c,
                   state := Line \<lparr>ln_kind = kind, ln_start = cursor d, ln_payload_start = c,
                                  ln_saw_cr = False\<rparr>\<rparr>, Continue)))))"

definition scan_prefix :: "bytes \<Rightarrow> decoder \<Rightarrow> protocol_error + (decoder \<times> flow)" where
  "scan_prefix src d =
     res_bind (prefix_budget d) (\<lambda>_.
       case byte_at src (cursor d) of
         None \<Rightarrow> Inr (d, Return False)
       | Some kind \<Rightarrow> start_node kind d)"

definition line_budget :: "line_state \<Rightarrow> decoder \<Rightarrow> protocol_error + unit" where
  "line_budget ln d =
     res_bind (dec_add (cursor d) (if ln_saw_cr ln then 1 else 2)) (\<lambda>minimum_end.
       res_bind (require_frame_end d minimum_end) (\<lambda>_.
         res_bind (ok_or (checked_sub minimum_end (ln_start ln)) (Malformed ''invalid line offset'')) (\<lambda>line_len.
           if line_len > max_line_bytes (limits d) then Inl (LimitExceeded ''max_line_bytes'')
           else Inr ())))"

definition scan_line_byte :: "bytes \<Rightarrow> line_state \<Rightarrow> byte \<Rightarrow> decoder \<Rightarrow> protocol_error + (decoder \<times> flow)" where
  "scan_line_byte src ln b d =
     res_bind (dec_add (cursor d) 1) (\<lambda>c.
       if ln_saw_cr ln then
         (if b \<noteq> LF then Inl (Malformed ''CR without LF'')
          else res_bind (ok_or (checked_sub c 2) (Malformed ''invalid line offset'')) (\<lambda>e.
            next_flow (finish_line src (ln_kind ln)
              \<lparr>p_start = ln_payload_start ln, p_end = e\<rparr> (d\<lparr>cursor := c\<rparr>))))
       else if b = LF then Inl (Malformed ''LF without CR'')
       else Inr (d\<lparr>cursor := c,
           state := Line (if b = CR then ln\<lparr>ln_saw_cr := True\<rparr> else ln)\<rparr>, Continue))"

definition scan_line :: "bytes \<Rightarrow> line_state \<Rightarrow> decoder \<Rightarrow> protocol_error + (decoder \<times> flow)" where
  "scan_line src ln d =
     res_bind (line_budget ln d) (\<lambda>_.
       case byte_at src (cursor d) of
         None \<Rightarrow> Inr (d, Return False)
       | Some b \<Rightarrow> scan_line_byte src ln b d)"

definition finish_bulk :: "bytes \<Rightarrow> payload \<Rightarrow> byte \<Rightarrow> decoder \<Rightarrow> protocol_error + (decoder \<times> bool)" where
  "finish_bulk src p kind d =
     (if kind = CHR ''$'' then finish_node (push_node (NBulk (Some p)) d)
      else if kind = CHR ''='' \<and> (p_end p - p_start p < 4 \<or> src ! (p_start p + 3) \<noteq> CHR '':'')
      then Inl (Malformed ''invalid verbatim format'')
      else finish_node (push_node (NScalar kind p) d))"

definition bulk_cursor :: "bytes \<Rightarrow> payload \<Rightarrow> nat \<Rightarrow> nat" where
  "bulk_cursor src p c = (if c < p_end p then min (length src) (p_end p) else c)"

definition scan_bulk_end :: "bytes \<Rightarrow> payload \<Rightarrow> bool \<Rightarrow> byte \<Rightarrow> decoder \<Rightarrow> protocol_error + (decoder \<times> flow)" where
  "scan_bulk_end src p saw_cr kind d =
     (if cursor d < p_end p then Inr (d, Return False)
      else (case byte_at src (cursor d) of
          None \<Rightarrow> Inr (d, Return False)
        | Some b \<Rightarrow>
            res_bind (dec_add (cursor d) 1) (\<lambda>c.
              if saw_cr then
                (if b \<noteq> LF then Inl (Malformed ''invalid bulk terminator'')
                 else next_flow (finish_bulk src p kind (d\<lparr>cursor := c\<rparr>)))
              else if b \<noteq> CR then Inl (Malformed ''invalid bulk terminator'')
              else Inr (d\<lparr>cursor := c, state := Bulk p True kind\<rparr>, Continue))))"

definition scan_bulk :: "bytes \<Rightarrow> payload \<Rightarrow> bool \<Rightarrow> byte \<Rightarrow> decoder \<Rightarrow> protocol_error + (decoder \<times> flow)" where
  "scan_bulk src p saw_cr kind d =
     scan_bulk_end src p saw_cr kind (d\<lparr>cursor := bulk_cursor src p (cursor d)\<rparr>)"

definition scan_step :: "bytes \<Rightarrow> decoder \<Rightarrow> protocol_error + (decoder \<times> flow)" where
  "scan_step src d =
     (case state d of
        Prefix \<Rightarrow> scan_prefix src d
      | Line ln \<Rightarrow> scan_line src ln d
      | Bulk p saw_cr kind \<Rightarrow> scan_bulk src p saw_cr kind d)"

text \<open>The ways a line or a bulk ends keep the cursor; no step touches the limits,
  the observed length or the poison flag.\<close>

definition same_config :: "decoder \<Rightarrow> decoder \<Rightarrow> bool" where
  "same_config d d' \<longleftrightarrow>
     limits d' = limits d \<and> previous_len d' = previous_len d \<and> poisoned d' = poisoned d"

definition keeps_cursor :: "decoder \<Rightarrow> decoder \<times> 'a \<Rightarrow> bool" where
  "keeps_cursor d r \<longleftrightarrow> cursor (fst r) = cursor d \<and> same_config d (fst r)"

lemmas keeps_simps = keeps_cursor_def same_config_def

lemma finish_node_keeps: "res_all (keeps_cursor d) (finish_node (push_node n d))"
  by (auto simp: finish_node_def push_node_def keeps_simps intro!: res_all_intros)

lemma finish_bulk_header_keeps: "res_all (keeps_cursor d) (finish_bulk_header d k n)"
  unfolding finish_bulk_header_def
  by (intro res_all_intros finish_node_keeps) (simp add: keeps_simps)

lemma declare_nodes_keeps: "res_all (\<lambda>d'. keeps_cursor d (d', ())) (declare_nodes d n)"
  unfolding declare_nodes_def by (intro res_all_intros) (simp add: keeps_simps)

lemma finish_array_header_keeps: "res_all (keeps_cursor d) (finish_array_header d k n)"
proof -
  have "res_all (\<lambda>d'. keeps_cursor d (d', ()))
      (case n of Some len \<Rightarrow> declare_nodes d len | None \<Rightarrow> Inr d)"
    by (intro res_all_intros declare_nodes_keeps) (simp add: keeps_simps)
  then show ?thesis
    unfolding finish_array_header_def Let_def
    by (intro res_all_intros)
      (auto simp: keeps_simps finish_node_def push_node_def result_simps res_all_def
        split: if_splits option.splits)
qed

lemma finish_line_keeps: "res_all (keeps_cursor d) (finish_line src k p d)"
  unfolding finish_line_def
  by (intro res_all_intros finish_node_keeps finish_bulk_header_keeps finish_array_header_keeps)

lemma finish_bulk_keeps: "res_all (keeps_cursor d) (finish_bulk src p k d)"
  unfolding finish_bulk_def by (intro res_all_intros finish_node_keeps)

lemmas finish_line_cursor = finish_line_keeps [THEN res_allD]
lemmas finish_bulk_cursor = finish_bulk_keeps [THEN res_allD]

lemma byte_at_Some_iff: "byte_at src i = Some b \<longleftrightarrow> i < length src \<and> b = src ! i"
  by (auto simp: byte_at_def)

lemma dec_add_Inr_iff: "dec_add a b = Inr c \<longleftrightarrow> c = a + b \<and> a + b \<le> USIZE_MAX"
  by (auto simp: dec_add_def result_simps checked_simps)

lemma start_node_progress:
  "res_all (\<lambda>(d', _). cursor d' = Suc (cursor d) \<and> same_config d d') (start_node k d)"
  unfolding start_node_def by (intro res_all_intros) (simp add: dec_add_Inr_iff same_config_def)

lemma scan_line_byte_progress:
  "res_all (\<lambda>(d', _). cursor d' = Suc (cursor d) \<and> same_config d d') (scan_line_byte src ln b d)"
  unfolding scan_line_byte_def next_flow_def
  by (intro res_all_intros)
    (auto simp: dec_add_Inr_iff keeps_simps dest!: finish_line_cursor intro!: res_all_intros)

lemma scan_bulk_end_progress:
  "res_all (\<lambda>(d', f). same_config d d' \<and>
      (f \<noteq> Return False \<longrightarrow> cursor d' = Suc (cursor d) \<and> cursor d < length src))
     (scan_bulk_end src p saw_cr k d)"
  unfolding scan_bulk_end_def next_flow_def
  by (intro res_all_intros)
    (auto simp: byte_at_Some_iff dec_add_Inr_iff keeps_simps dest!: finish_bulk_cursor
      intro!: res_all_intros)

lemma scan_prefix_progress:
  "res_all (\<lambda>(d', f). same_config d d' \<and>
      (f \<noteq> Return False \<longrightarrow> cursor d' = Suc (cursor d) \<and> cursor d < length src)) (scan_prefix src d)"
  unfolding scan_prefix_def
  by (intro res_all_intros res_all_mono [OF start_node_progress])
    (auto simp: same_config_def byte_at_Some_iff)

lemma scan_line_progress:
  "res_all (\<lambda>(d', f). same_config d d' \<and>
      (f \<noteq> Return False \<longrightarrow> cursor d' = Suc (cursor d) \<and> cursor d < length src)) (scan_line src ln d)"
  unfolding scan_line_def
  by (intro res_all_intros res_all_mono [OF scan_line_byte_progress])
    (auto simp: same_config_def byte_at_Some_iff)

lemma bulk_cursor_mono: "bulk_cursor src p c < length src \<Longrightarrow> c \<le> bulk_cursor src p c"
  by (auto simp: bulk_cursor_def)

lemma scan_step_moves:
  "res_all (\<lambda>(d', f). same_config d d' \<and>
      (f \<noteq> Return False \<longrightarrow> cursor d < cursor d' \<and> cursor d' \<le> length src)) (scan_step src d)"
proof (cases "state d")
  case Prefix
  show ?thesis
    unfolding scan_step_def Prefix scan_state.case
    by (rule res_all_mono [OF scan_prefix_progress]) auto
next
  case (Line ln)
  show ?thesis
    unfolding scan_step_def Line scan_state.case
    by (rule res_all_mono [OF scan_line_progress]) auto
next
  case (Bulk p saw_cr kind)
  show ?thesis
    unfolding scan_step_def Bulk scan_state.case scan_bulk_def
    by (rule res_all_mono [OF scan_bulk_end_progress])
      (auto simp: same_config_def dest: bulk_cursor_mono)
qed

lemmas scan_step_progress = scan_step_moves [THEN res_allD, of src d "(d', Continue)" for src d d', simplified]

text \<open>Every turn that does not return has read a byte, so the loop ends.\<close>

function scan :: "bytes \<Rightarrow> decoder \<Rightarrow> protocol_error + (decoder \<times> bool)" where
  "scan src d =
     (case scan_step src d of
        Inl e \<Rightarrow> Inl e
      | Inr (d', Return complete) \<Rightarrow> Inr (d', complete)
      | Inr (d', Continue) \<Rightarrow> scan src d')"
  by pat_completeness auto
termination
proof (relation "measure (\<lambda>(src, d). length src - cursor d)")
  fix src d x d' f
  assume "scan_step src d = Inr x" "(d', f) = x" "f = Continue"
  then have "scan_step src d = Inr (d', Continue)" by simp
  from scan_step_progress [OF this]
  show "((src, d'), (src, d)) \<in> measure (\<lambda>(src, d). length src - cursor d)" by auto
qed simp

declare scan.simps [simp del]

section \<open>Materializing\<close>

definition scalar_frame :: "byte \<Rightarrow> bytes \<Rightarrow> protocol_error + frame" where
  "scalar_frame kind v =
     (if kind = CHR '','' then Inr (FDouble v)
      else if kind = CHR ''('' then Inr (FBigNumber v)
      else if kind = CHR ''!'' then Inr (FBlobError v)
      else if kind = CHR ''='' then Inr (FVerbatim v)
      else Inl (Malformed ''unknown scalar''))"

definition aggregate_frame :: "byte \<Rightarrow> frame list \<Rightarrow> frame" where
  "aggregate_frame kind fs =
     (if kind = CHR ''%'' then FMap fs
      else if kind = CHR ''~'' then FSet fs
      else if kind = CHR ''>'' then FPush fs
      else if kind = CHR ''|'' then FAttribute fs
      else FArray (Some fs))"

text \<open>One turn of the loop: the children of an array are popped off the stack.\<close>

fun build_frame :: "bytes \<Rightarrow> node \<Rightarrow> frame list \<Rightarrow> protocol_error + frame list" where
  "build_frame src (NSimple p) frames = res_bind (copy_payload src p) (\<lambda>v. Inr (FSimple v # frames))"
| "build_frame src (NError p) frames = res_bind (copy_payload src p) (\<lambda>v. Inr (FError v # frames))"
| "build_frame src (NInteger i) frames = Inr (FInteger i # frames)"
| "build_frame src (NBulk None) frames = Inr (FBulk None # frames)"
| "build_frame src (NBulk (Some p)) frames =
     res_bind (copy_payload src p) (\<lambda>v. Inr (FBulk (Some v) # frames))"
| "build_frame src (NArray None _) frames = Inr (FArray None # frames)"
| "build_frame src NNull frames = Inr (FNull # frames)"
| "build_frame src (NBoolean b) frames = Inr (FBoolean b # frames)"
| "build_frame src (NScalar kind p) frames =
     res_bind (copy_payload src p) (\<lambda>v. res_bind (scalar_frame kind v) (\<lambda>f. Inr (f # frames)))"
| "build_frame src (NArray (Some n) kind) frames =
     (if length frames < n then Inl (Malformed ''incomplete array'')
      else Inr (aggregate_frame kind (take n frames) # drop n frames))"

fun build_frames :: "bytes \<Rightarrow> node list \<Rightarrow> frame list \<Rightarrow> protocol_error + frame list" where
  "build_frames src [] frames = Inr frames"
| "build_frames src (n # ns) frames = res_bind (build_frame src n frames) (build_frames src ns)"

definition materialize :: "bytes \<Rightarrow> node list \<Rightarrow> protocol_error + frame" where
  "materialize src ns =
     res_bind (build_frames src (rev ns) []) (\<lambda>frames.
       case frames of
         [] \<Rightarrow> Inl (Malformed ''frame without root'')
       | [f] \<Rightarrow> Inr f
       | _ \<Rightarrow> Inl (Malformed ''frame with multiple roots''))"

section \<open>Decoding\<close>

text \<open>The fields a failed scan had already moved are not part of the result:
  a poisoned decoder reads none of them again.\<close>

definition fail :: "decoder \<Rightarrow> decoder" where
  "fail d = d\<lparr>poisoned := True, nodes := [], arrays := []\<rparr>"

text \<open>\<open>decode\<close> returns its result, the decoder and the buffer after the call.\<close>

definition decode :: "decoder \<Rightarrow> bytes \<Rightarrow> (protocol_error + frame option) \<times> decoder \<times> bytes" where
  "decode d src =
     (if poisoned d then (Inl Poisoned, d, src)
      else if length src < previous_len d then (Inl BufferChanged, fail d, src)
      else let d = d\<lparr>previous_len := length src\<rparr> in
        (case scan src d of
           Inl e \<Rightarrow> (Inl e, fail d, src)
         | Inr (d', False) \<Rightarrow> (Inr None, d', src)
         | Inr (d', True) \<Rightarrow>
             (case materialize src (nodes d') of
                Inl e \<Rightarrow> (Inl e, fail d', src)
              | Inr f \<Rightarrow> (Inr (Some f), fresh_decoder (limits d'), drop (cursor d') src))))"


section \<open>More input never changes what was decided\<close>

lemma byte_at_append: "byte_at src i = Some b \<Longrightarrow> byte_at (src @ rest) i = Some b"
  by (auto simp: byte_at_def nth_append split: if_splits)

lemma payload_slice_append:
  "p_end p \<le> length src \<Longrightarrow> payload_slice (src @ rest) p = payload_slice src p"
  by (auto simp: payload_slice_def)

lemma finish_line_append:
  "p_end p \<le> length src \<Longrightarrow> finish_line (src @ rest) k p d = finish_line src k p d"
  by (simp only: finish_line_def payload_slice_append)

lemma finish_bulk_append:
  assumes "p_end p \<le> length src"
  shows "finish_bulk (src @ rest) p k d = finish_bulk src p k d"
proof -
  have "4 \<le> p_end p - p_start p \<Longrightarrow> (src @ rest) ! (p_start p + 3) = src ! (p_start p + 3)"
    using assms by (auto simp: nth_append)
  then show ?thesis unfolding finish_bulk_def by (cases "p_end p - p_start p < 4") auto
qed

lemma scan_line_byte_append:
  assumes "cursor d < length src"
  shows "scan_line_byte (src @ rest) ln b d = scan_line_byte src ln b d"
proof -
  have "finish_line (src @ rest) k \<lparr>p_start = r, p_end = q\<rparr> = finish_line src k \<lparr>p_start = r, p_end = q\<rparr>"
    if "dec_add (cursor d) 1 = Inr c" "checked_sub c 2 = Some q" for c k q r
    using that assms
    by (intro ext finish_line_append) (auto simp: dec_add_Inr_iff checked_simps)
  then show ?thesis
    unfolding scan_line_byte_def by (intro res_bind_cong if_cong refl) (simp_all add: ok_or_Inr_iff)
qed

lemma scan_prefix_append:
  assumes "scan_prefix src d \<noteq> Inr (d, Return False)"
  shows "scan_prefix (src @ rest) d = scan_prefix src d"
  using assms
  by (cases "prefix_budget d"; cases "byte_at src (cursor d)") (auto simp: scan_prefix_def byte_at_append)

lemma scan_line_append:
  assumes "scan_line src ln d \<noteq> Inr (d, Return False)"
  shows "scan_line (src @ rest) ln d = scan_line src ln d"
  using assms
  by (cases "line_budget ln d"; cases "byte_at src (cursor d)")
    (auto simp: scan_line_def byte_at_def scan_line_byte_append nth_append split: if_splits)

lemma scan_bulk_end_append:
  assumes "scan_bulk_end src p saw_cr kind d \<noteq> Inr (d, Return False)"
  shows "scan_bulk_end (src @ rest) p saw_cr kind d = scan_bulk_end src p saw_cr kind d"
    "p_end p \<le> length src"
proof -
  from assms obtain b where b: "byte_at src (cursor d) = Some b" and c: "\<not> cursor d < p_end p"
    by (auto simp: scan_bulk_end_def split: if_splits option.splits)
  then show "p_end p \<le> length src" by (auto simp: byte_at_def split: if_splits)
  then show "scan_bulk_end (src @ rest) p saw_cr kind d = scan_bulk_end src p saw_cr kind d"
    using b c byte_at_append [OF b] by (simp only: scan_bulk_end_def finish_bulk_append option.case)
qed

lemma scan_step_append:
  assumes "scan_step src d = r" "\<And>d'. r \<noteq> Inr (d', Return False)"
  shows "scan_step (src @ rest) d = r"
proof (cases "state d")
  case Prefix
  with assms show ?thesis by (simp add: scan_step_def scan_prefix_append)
next
  case (Line ln)
  with assms show ?thesis by (simp add: scan_step_def scan_line_append)
next
  case (Bulk p saw_cr kind)
  let ?d = "d\<lparr>cursor := bulk_cursor src p (cursor d)\<rparr>"
  have "scan_bulk_end src p saw_cr kind ?d \<noteq> Inr (?d, Return False)"
    using Bulk assms by (auto simp: scan_step_def scan_bulk_def)
  from scan_bulk_end_append [OF this]
  have "scan_bulk_end (src @ rest) p saw_cr kind ?d = r"
    "bulk_cursor (src @ rest) p (cursor d) = bulk_cursor src p (cursor d)"
    using Bulk assms by (auto simp: scan_step_def scan_bulk_def bulk_cursor_def)
  then show ?thesis by (simp add: Bulk scan_step_def scan_bulk_def)
qed

text \<open>A turn that waits for input only moves the cursor to where the next turn would.\<close>

lemma bulk_cursor_twice: "bulk_cursor (src @ rest) p (bulk_cursor src p c) = bulk_cursor (src @ rest) p c"
  by (auto simp: bulk_cursor_def min_def)

lemma scan_prefix_wait: "scan_prefix src d = Inr (d', Return b) \<Longrightarrow> d' = d \<and> \<not> b"
  by (auto simp: scan_prefix_def start_node_def result_simps split: if_splits option.splits)

lemma scan_line_wait: "scan_line src ln d = Inr (d', Return False) \<Longrightarrow> d' = d"
  by (auto simp: scan_line_def scan_line_byte_def next_flow_def result_simps split: if_splits option.splits)

lemma scan_bulk_end_wait: "scan_bulk_end src p saw_cr k d = Inr (d', Return False) \<Longrightarrow> d' = d"
  by (auto simp: scan_bulk_end_def next_flow_def result_simps split: if_splits option.splits)

lemma scan_step_wait:
  assumes "scan_step src d = Inr (d', Return False)"
  shows "scan_step (src @ rest) d' = scan_step (src @ rest) d"
  using assms
  by (cases "state d")
    (auto simp: scan_step_def scan_bulk_def bulk_cursor_twice
      dest!: scan_prefix_wait scan_line_wait scan_bulk_end_wait)

lemma scan_append:
  "scan src d = r \<Longrightarrow> (\<And>d'. r \<noteq> Inr (d', False)) \<Longrightarrow> scan (src @ rest) d = r"
proof (induction src d rule: scan.induct)
  case (1 src d)
  show ?case
  proof (cases "\<exists>d'. scan_step src d = Inr (d', Return False)")
    case True
    with 1(2) have "\<exists>d'. r = Inr (d', False)" by (auto simp: scan.simps [of src d])
    with 1(3) show ?thesis by blast
  next
    case False
    then have step: "scan_step (src @ rest) d = scan_step src d"
      by (metis scan_step_append)
    show ?thesis
      using 1 unfolding scan.simps [of "src @ rest" d] scan.simps [of src d] step
      by (auto split: sum.splits flow.splits)
  qed
qed

lemma scan_resume:
  "scan src d = Inr (d', False) \<Longrightarrow> scan (src @ rest) d' = scan (src @ rest) d"
proof (induction src d rule: scan.induct)
  case (1 src d)
  show ?case
  proof (cases "scan_step src d")
    case (Inr s)
    obtain e fl where s: "s = (e, fl)" by (cases s)
    show ?thesis
    proof (cases fl)
      case Continue
      with Inr s have "scan_step (src @ rest) d = Inr (e, Continue)"
        by (intro scan_step_append) auto
      moreover have "scan (src @ rest) d' = scan (src @ rest) e"
        using 1 Inr s Continue by (simp add: scan.simps [of src d])
      ultimately show ?thesis by (simp add: scan.simps [of "src @ rest" d])
    next
      case (Return b)
      with 1(2) Inr s have "e = d'" "\<not> b" by (auto simp: scan.simps [of src d])
      with Inr s Return scan_step_wait [of src d d' rest] show ?thesis
        by (simp add: scan.simps [of "src @ rest" d'] scan.simps [of "src @ rest" d])
    qed
  qed (use 1(2) in \<open>simp add: scan.simps [of src d]\<close>)
qed


lemma same_config_trans: "same_config d e \<Longrightarrow> same_config e f \<Longrightarrow> same_config d f"
  by (simp add: same_config_def)

lemma scan_keeps: "scan src d = Inr (d', c) \<Longrightarrow> same_config d d'"
proof (induction src d rule: scan.induct)
  case (1 src d)
  show ?case
  proof (cases "scan_step src d")
    case (Inr s)
    obtain e fl where s: "s = (e, fl)" by (cases s)
    have "same_config d e" using res_allD [OF scan_step_moves Inr] s by simp
    with 1 Inr s show ?thesis
      by (cases fl) (auto simp: scan.simps [of src d] intro: same_config_trans)
  qed (use 1(2) in \<open>simp add: scan.simps [of src d]\<close>)
qed


lemma scan_cursor: "scan src d = Inr (d', True) \<Longrightarrow> cursor d' \<le> length src"
proof (induction src d rule: scan.induct)
  case (1 src d)
  show ?case
  proof (cases "scan_step src d")
    case (Inr s)
    obtain e fl where s: "s = (e, fl)" by (cases s)
    with 1 Inr res_allD [OF scan_step_moves Inr] show ?thesis
      by (cases fl) (auto simp: scan.simps [of src d])
  qed (use 1(2) in \<open>simp add: scan.simps [of src d]\<close>)
qed

section \<open>The contract of \<open>decode\<close>\<close>

text \<open>The scanner does not read the observed length, so it can be set before or after.\<close>

definition set_len :: "nat \<Rightarrow> protocol_error + (decoder \<times> 'a) \<Rightarrow> protocol_error + (decoder \<times> 'a)" where
  "set_len n r = res_bind r (\<lambda>(d, c). Inr (d\<lparr>previous_len := n\<rparr>, c))"

lemma set_len_bind: "set_len n (res_bind m f) = res_bind m (\<lambda>x. set_len n (f x))"
  by (cases m) (simp_all add: set_len_def)

lemma set_len_simps:
  "set_len n (Inl e) = Inl e"
  "set_len n (Inr (d, c)) = Inr (d\<lparr>previous_len := n\<rparr>, c)"
  "set_len n (if b then r else s) = (if b then set_len n r else set_len n s)"
  "set_len n (case z of (a, b) \<Rightarrow> t a b) = (case z of (a, b) \<Rightarrow> set_len n (t a b))"
  by (auto simp: set_len_def split: prod.split)

lemma finish_node_len: "finish_node (d\<lparr>previous_len := n\<rparr>) = set_len n (finish_node d)"
  by (cases d) (simp add: finish_node_def set_len_simps set_len_bind)

lemma push_node_len: "push_node k (d\<lparr>previous_len := n\<rparr>) = (push_node k d)\<lparr>previous_len := n\<rparr>"
  by (simp add: push_node_def)

lemma require_frame_end_len: "require_frame_end (d\<lparr>previous_len := n\<rparr>) = require_frame_end d"
  by (rule ext) (simp add: require_frame_end_def)

lemma len_commute:
  "d\<lparr>previous_len := n, cursor := c\<rparr> = d\<lparr>cursor := c, previous_len := n\<rparr>"
  "d\<lparr>previous_len := n, state := st\<rparr> = d\<lparr>state := st, previous_len := n\<rparr>"
  "d\<lparr>previous_len := n, nodes_started := c\<rparr> = d\<lparr>nodes_started := c, previous_len := n\<rparr>"
  "d\<lparr>previous_len := n, pending_nodes := c\<rparr> = d\<lparr>pending_nodes := c, previous_len := n\<rparr>"
  by simp_all

lemma len_select:
  "cursor (d\<lparr>previous_len := n\<rparr>) = cursor d" "limits (d\<lparr>previous_len := n\<rparr>) = limits d"
  "arrays (d\<lparr>previous_len := n\<rparr>) = arrays d" "nodes_started (d\<lparr>previous_len := n\<rparr>) = nodes_started d"
  "pending_nodes (d\<lparr>previous_len := n\<rparr>) = pending_nodes d"
  by simp_all

lemmas len_simps = len_commute len_select set_len_simps set_len_bind finish_node_len push_node_len require_frame_end_len

lemma finish_bulk_header_len:
  "finish_bulk_header (d\<lparr>previous_len := n\<rparr>) k m = set_len n (finish_bulk_header d k m)"
  by (cases m) (simp_all add: finish_bulk_header_def len_simps)

lemma declare_nodes_len:
  "declare_nodes (d\<lparr>previous_len := n\<rparr>) k = res_bind (declare_nodes d k) (\<lambda>d. Inr (d\<lparr>previous_len := n\<rparr>))"
  unfolding declare_nodes_def
  by (simp add: require_frame_end_len res_bind_def split: sum.split)

lemma finish_array_header_len:
  "finish_array_header (d\<lparr>previous_len := n\<rparr>) k m = set_len n (finish_array_header d k m)"
proof (cases m)
  case (Some k)
  show ?thesis
    unfolding finish_array_header_def Some option.case Let_def declare_nodes_len
    by (cases "declare_nodes d k") (simp_all add: len_simps)
qed (simp add: finish_array_header_def Let_def len_simps)

lemma finish_line_len: "finish_line src k p (d\<lparr>previous_len := n\<rparr>) = set_len n (finish_line src k p d)"
  unfolding finish_line_def
  by (simp only: len_simps finish_bulk_header_len finish_array_header_len)

lemma finish_bulk_len: "finish_bulk src p k (d\<lparr>previous_len := n\<rparr>) = set_len n (finish_bulk src p k d)"
  unfolding finish_bulk_def by (simp only: len_simps)

lemma next_flow_len: "next_flow (set_len n r) = set_len n (next_flow r)"
  by (cases r) (auto simp: next_flow_def set_len_simps split: prod.split)

lemma scan_line_byte_len: "scan_line_byte src ln b (d\<lparr>previous_len := n\<rparr>) = set_len n (scan_line_byte src ln b d)"
  unfolding scan_line_byte_def
  by (simp only: len_simps finish_line_len next_flow_len)

lemma start_node_len: "start_node k (d\<lparr>previous_len := n\<rparr>) = set_len n (start_node k d)"
  unfolding start_node_def by (simp only: len_simps)

lemma scan_bulk_end_len:
  "scan_bulk_end src p saw_cr k (d\<lparr>previous_len := n\<rparr>) = set_len n (scan_bulk_end src p saw_cr k d)"
  unfolding scan_bulk_end_def
  by (cases "byte_at src (cursor d)")
    (simp_all only: len_simps finish_bulk_len next_flow_len option.case)

lemma scan_step_len: "scan_step src (d\<lparr>previous_len := n\<rparr>) = set_len n (scan_step src d)"
proof (cases "state d")
  case Prefix
  moreover have "prefix_budget (d\<lparr>previous_len := n\<rparr>) = prefix_budget d"
    by (simp add: prefix_budget_def len_simps)
  ultimately show ?thesis
    by (cases "byte_at src (cursor d)") (simp_all add: scan_step_def scan_prefix_def start_node_len len_simps)
next
  case (Line ln)
  moreover have "line_budget ln (d\<lparr>previous_len := n\<rparr>) = line_budget ln d"
    by (simp add: line_budget_def len_simps)
  ultimately show ?thesis
    by (cases "byte_at src (cursor d)") (simp_all add: scan_step_def scan_line_def scan_line_byte_len len_simps)
qed (simp add: scan_step_def scan_bulk_def len_simps scan_bulk_end_len)

lemma scan_len: "scan src (d\<lparr>previous_len := n\<rparr>) = set_len n (scan src d)"
proof (induction src d rule: scan.induct)
  case (1 src d)
  show ?case
  proof (cases "scan_step src d")
    case (Inr s)
    obtain e fl where "s = (e, fl)" by (cases s)
    with 1 Inr show ?thesis
      by (cases fl)
        (auto simp: scan.simps [of src d] scan.simps [of src "d\<lparr>previous_len := n\<rparr>"]
          scan_step_len set_len_simps)
  qed (simp add: scan.simps [of src d] scan.simps [of src "d\<lparr>previous_len := n\<rparr>"]
      scan_step_len set_len_simps)
qed

lemma set_len_Inr_iff: "set_len n r = Inr (d', c) \<longleftrightarrow> (\<exists>d. r = Inr (d, c) \<and> d' = d\<lparr>previous_len := n\<rparr>)"
  by (cases r) (auto simp: set_len_def)

text \<open>Of a poisoned decoder only the poison is ever read again.\<close>

definition observe :: "decoder \<Rightarrow> decoder option" where
  "observe d = (if poisoned d then None else Some d)"

definition decode_observed ::
  "decoder \<Rightarrow> bytes \<Rightarrow> (protocol_error + frame option) \<times> decoder option \<times> bytes" where
  "decode_observed d src = (case decode d src of (r, d', src') \<Rightarrow> (r, observe d', src'))"

lemma observe_fail [simp]: "observe (fail d) = None"
  by (simp add: observe_def fail_def)

lemma decode_resume:
  assumes "decode d src = (Inr None, d', src')"
  shows "src' = src" "decode_observed d' (src @ rest) = decode_observed d (src @ rest)"
proof -
  let ?n = "length src"
  from assms have p: "\<not> poisoned d" and l: "previous_len d \<le> ?n" and src: "src' = src"
    and s: "scan src (d\<lparr>previous_len := ?n\<rparr>) = Inr (d', False)"
    by (auto simp: decode_def Let_def split: if_splits sum.splits bool.splits)
  show "src' = src" by (rule src)
  from s obtain e where e: "scan src d = Inr (e, False)" and d': "d' = e\<lparr>previous_len := ?n\<rparr>"
    by (auto simp: scan_len set_len_Inr_iff)
  have "\<not> poisoned d'" using scan_keeps [OF e] p by (simp add: same_config_def d')
  then show "decode_observed d' (src @ rest) = decode_observed d (src @ rest)"
    using p l scan_resume [OF e, of rest]
    by (auto simp: decode_observed_def decode_def d' scan_len Let_def split: sum.split bool.split)
qed

end
