(* ===== verification/Resp_Roundtrip.thy ===== *)
theory Resp_Roundtrip
  imports Resp_Encoder Resp_Decoder
begin

text \<open>
  The encoder and the decoder agree: what \<open>encode\<close> accepts and writes, \<open>decode\<close>
  reads back under the same limits, whole or in fragments, consuming exactly
  the bytes of the frame.
\<close>

section \<open>Numbers\<close>

lemma digits_value_Nil [simp]: "digits_value [] = 0"
  by (simp add: digits_value_def)

lemma parse_length_digits_append:
  assumes "list_all is_ascii_digit ds" "digits_value (es @ ds) \<le> USIZE_MAX"
  shows "parse_length_digits ds (digits_value es) = Inr (digits_value (es @ ds))"
  using assms
proof (induction ds arbitrary: es)
  case (Cons c ds)
  have m: "digits_value (es @ [c]) \<le> USIZE_MAX"
    using Cons.prems digits_value_mono_prefix [of "es @ [c]" ds] by simp
  with Cons.IH [of "es @ [c]"] Cons.prems show ?case
    by (simp add: digits_value_snoc checked_mul_def checked_add_def mult.commute)
qed simp

lemma parse_length_dec_digits:
  assumes "n \<le> USIZE_MAX"
  shows "parse_length (dec_digits n) = Inr (Some n)"
proof -
  have "list_all is_ascii_digit (dec_digits n)"
    by (auto simp: list_all_iff dec_digits_are_digits)
  then have "parse_length_digits (dec_digits n) 0 = Inr n"
    using parse_length_digits_append [of "dec_digits n" "[]"] assms by simp
  moreover have "dec_digits n \<noteq> ''-1''"
    using dec_digits_are_digits [of "CHR ''-''" n] by (auto simp: is_ascii_digit_def)
  ultimately show ?thesis by (simp add: parse_length_def)
qed

lemma parse_integer_digits_append:
  assumes "list_all is_ascii_digit ds" "I64_MIN \<le> - int (digits_value (es @ ds))"
  shows "parse_integer_digits ds (- int (digits_value es)) = Inr (- int (digits_value (es @ ds)))"
  using assms
proof (induction ds arbitrary: es)
  case (Cons c ds)
  have m: "I64_MIN \<le> - int (digits_value (es @ [c]))"
    using Cons.prems digits_value_mono_prefix [of "es @ [c]" ds] by simp
  then have "i64_ok (- int (digits_value es) * 10)" "i64_ok (- int (digits_value (es @ [c])))"
    by (auto simp: i64_ok_def I64_MAX_def digits_value_snoc)
  with Cons.IH [of "es @ [c]"] Cons.prems show ?case
    by (simp add: digits_value_snoc i64_checked_ok mult.commute)
qed simp

lemma parse_integer_int_to_string:
  assumes "i64_ok i"
  shows "parse_integer (int_to_string i) = Inr i"
proof -
  define n where "n = nat (if i < 0 then - i else i)"
  have d: "list_all is_ascii_digit (dec_digits n)"
    by (auto simp: list_all_iff dec_digits_are_digits)
  have "I64_MIN \<le> - int n" using assms by (auto simp: n_def i64_ok_def I64_MAX_def I64_MIN_def)
  then have p: "parse_integer_digits (dec_digits n) 0 = Inr (- int n)"
    using parse_integer_digits_append [OF d, of "[]"] by simp
  obtain c ds where c: "dec_digits n = c # ds" by (cases "dec_digits n") auto
  have "is_ascii_digit c" using dec_digits_are_digits [of c n] c by simp
  then have "c \<noteq> CHR ''-''" "c \<noteq> CHR ''+''" by (auto simp: is_ascii_digit_def)
  with p c assms show ?thesis
    by (cases "i < 0")
      (auto simp: parse_integer_def int_to_string_def i64_checked_def n_def)
qed

section \<open>The layout of one node\<close>

fun kind_of :: "frame \<Rightarrow> byte" where
  "kind_of (FSimple _) = CHR ''+''"
| "kind_of (FError _) = CHR ''-''"
| "kind_of (FInteger _) = CHR '':''"
| "kind_of (FBulk _) = CHR ''$''"
| "kind_of (FArray _) = CHR ''*''"
| "kind_of FNull = CHR ''_''"
| "kind_of (FBoolean _) = CHR ''#''"
| "kind_of (FDouble _) = CHR '',''"
| "kind_of (FBigNumber _) = CHR ''(''"
| "kind_of (FBlobError _) = CHR ''!''"
| "kind_of (FVerbatim _) = CHR ''=''"
| "kind_of (FMap _) = CHR ''%''"
| "kind_of (FSet _) = CHR ''~''"
| "kind_of (FPush _) = CHR ''>''"
| "kind_of (FAttribute _) = CHR ''|''"

fun content :: "frame \<Rightarrow> bytes" where
  "content (FSimple v) = v"
| "content (FError v) = v"
| "content (FInteger i) = int_to_string i"
| "content (FBulk None) = ''-1''"
| "content (FBulk (Some v)) = dec_digits (length v)"
| "content (FArray None) = ''-1''"
| "content (FArray (Some fs)) = dec_digits (length fs)"
| "content FNull = []"
| "content (FBoolean b) = (if b then ''t'' else ''f'')"
| "content (FDouble v) = v"
| "content (FBigNumber v) = v"
| "content (FBlobError v) = dec_digits (length v)"
| "content (FVerbatim v) = dec_digits (length v)"
| "content (FMap fs) = dec_digits (length fs div 2)"
| "content (FSet fs) = dec_digits (length fs)"
| "content (FPush fs) = dec_digits (length fs)"
| "content (FAttribute fs) = dec_digits (length fs div 2)"

fun body :: "frame \<Rightarrow> bytes option" where
  "body (FBulk v) = v"
| "body (FBlobError v) = Some v"
| "body (FVerbatim v) = Some v"
| "body _ = None"

definition body_text :: "frame \<Rightarrow> bytes" where
  "body_text f = (case body f of None \<Rightarrow> [] | Some v \<Rightarrow> v @ CRLF)"

lemma header_layout: "header f = kind_of f # content f @ CRLF @ body_text f"
  by (cases f rule: content.cases)
    (simp_all add: header_def line_def usize_string_def body_text_def)

lemma line_content_length: "line_content f = length (content f)"
  by (cases f rule: content.cases) simp_all

lemma content_no_eol:
  assumes "payload_ok l f"
  shows "CR \<notin> set (content f) \<and> LF \<notin> set (content f)"
proof -
  have "CR \<notin> set ''-1tf''" "LF \<notin> set ''-1tf''" by (simp_all add: CR_def LF_def)
  then show ?thesis
    using assms validate_scalar_no_eol
    by (cases f rule: content.cases) (auto simp: int_to_string_def)
qed


section \<open>Scanning a line and a bulk\<close>

definition resume :: "bytes \<Rightarrow> protocol_error + (decoder \<times> bool) \<Rightarrow> protocol_error + (decoder \<times> bool)" where
  "resume src r = res_bind r (\<lambda>(d, complete). if complete then Inr (d, True) else scan src d)"

lemma scan_next_flow: "scan_step src d = next_flow r \<Longrightarrow> scan src d = resume src r"
  by (cases r) (auto simp: scan.simps [of src d] next_flow_def resume_def split: bool.split)

lemma scan_continue: "scan_step src d = Inr (d', Continue) \<Longrightarrow> scan src d = scan src d'"
  by (simp add: scan.simps [of src d])

lemma byte_at_mid: "byte_at (pre @ c # rest) (length pre) = Some c"
  by (simp add: byte_at_def)

lemma byte_at_mid2: "byte_at (pre @ b # c # rest) (Suc (length pre)) = Some c"
  by (simp add: byte_at_def nth_append)

lemma require_frame_end_ok: "e \<le> max_frame_bytes (limits d) \<Longrightarrow> require_frame_end d e = Inr ()"
  by (simp add: require_frame_end_def)

lemma dec_add_ok: "a + b \<le> USIZE_MAX \<Longrightarrow> dec_add a b = Inr (a + b)"
  by (simp add: dec_add_Inr_iff)

lemma line_budget_ok:
  assumes "limits_ok (limits d)" "cursor d + k \<le> max_frame_bytes (limits d)"
    "ln_start ln \<le> cursor d" "cursor d + k \<le> ln_start ln + max_line_bytes (limits d)"
    "k = (if ln_saw_cr ln then 1 else 2)"
  shows "line_budget ln d = Inr ()"
  using assms limits_okD(1) [OF assms(1)]
  by (auto simp: line_budget_def dec_add_ok require_frame_end_ok checked_sub_def)

lemma scan_line_text:
  assumes "limits_ok (limits d)" "state d = Line ln" "\<not> ln_saw_cr ln"
    "src = pre @ v @ CRLF @ rest" "cursor d = length pre"
    "CR \<notin> set v" "LF \<notin> set v" "ln_start ln \<le> cursor d"
    "length pre + length v + 2 \<le> max_frame_bytes (limits d)"
    "length pre + length v + 2 \<le> ln_start ln + max_line_bytes (limits d)"
  shows "scan src d = resume src (finish_line src (ln_kind ln)
     \<lparr>p_start = ln_payload_start ln, p_end = length pre + length v\<rparr>
     (d\<lparr>state := Line (ln\<lparr>ln_saw_cr := True\<rparr>), cursor := length pre + length v + 2\<rparr>))"
  using assms
proof (induction v arbitrary: d pre)
  case Nil
  have u: "length pre + 2 \<le> USIZE_MAX" using Nil limits_okD(1) [OF Nil(1)] by simp
  let ?d = "d\<lparr>cursor := length pre + 1, state := Line (ln\<lparr>ln_saw_cr := True\<rparr>)\<rparr>"
  have "line_budget ln d = Inr ()" "line_budget (ln\<lparr>ln_saw_cr := True\<rparr>) ?d = Inr ()"
    by (rule line_budget_ok, use Nil in auto)+
  note budget = this
  have "scan_step src d = Inr (?d, Continue)"
    using Nil u budget by (simp add: scan_step_def scan_line_def byte_at_mid CRLF_def
        scan_line_byte_def dec_add_ok)
  moreover have "scan_step src ?d = next_flow (finish_line src (ln_kind ln)
     \<lparr>p_start = ln_payload_start ln, p_end = length pre\<rparr> (?d\<lparr>cursor := length pre + 2\<rparr>))"
    using Nil u budget by (simp add: scan_step_def scan_line_def byte_at_mid2 CRLF_def
        scan_line_byte_def dec_add_ok checked_sub_def)
  ultimately show ?case by (simp add: scan_continue scan_next_flow)
next
  case (Cons c v)
  have u: "length pre + 2 \<le> USIZE_MAX" using Cons limits_okD(1) [of "limits d"] by simp
  let ?d = "d\<lparr>cursor := length pre + 1, state := Line ln\<rparr>"
  have "line_budget ln d = Inr ()" by (rule line_budget_ok, use Cons.prems in auto)
  then have "scan_step src d = Inr (?d, Continue)"
    using Cons.prems u by (auto simp: scan_step_def scan_line_def byte_at_mid
        scan_line_byte_def dec_add_ok)
  then have "scan src d = scan src ?d" by (rule scan_continue)
  also have "\<dots> = resume src (finish_line src (ln_kind ln)
     \<lparr>p_start = ln_payload_start ln, p_end = length (pre @ [c]) + length v\<rparr>
     (?d\<lparr>state := Line (ln\<lparr>ln_saw_cr := True\<rparr>), cursor := length (pre @ [c]) + length v + 2\<rparr>))"
    using Cons.prems by (intro Cons.IH) auto
  finally show ?case by simp
qed

lemma scan_bulk_text:
  assumes "state d = Bulk p False k" "src = pre @ v @ CRLF @ rest" "cursor d = length pre"
    "p_end p = length pre + length v" "length pre + length v + 2 \<le> USIZE_MAX"
  shows "scan src d = resume src (finish_bulk src p k
     (d\<lparr>state := Bulk p True k, cursor := length pre + length v + 2\<rparr>))"
proof -
  let ?d = "d\<lparr>cursor := length pre + length v + 1, state := Bulk p True k\<rparr>"
  have b: "byte_at src (length pre + length v) = Some CR" "byte_at src (length pre + length v + 1) = Some LF"
    using byte_at_mid [of "pre @ v" CR] byte_at_mid2 [of "pre @ v" CR LF] assms(2)
    by (simp_all add: CRLF_def)
  have c: "bulk_cursor src p (length pre) = length pre + length v"
    "bulk_cursor src p (length pre + length v + 1) = length pre + length v + 1"
    using assms(2,4) by (auto simp: bulk_cursor_def)
  have "scan_step src d = Inr (?d, Continue)"
    using assms b c by (simp add: scan_step_def scan_bulk_def scan_bulk_end_def dec_add_ok)
  moreover have "scan_step src ?d = next_flow (finish_bulk src p k (?d\<lparr>cursor := length pre + length v + 2\<rparr>))"
    using assms b c by (simp add: scan_step_def scan_bulk_def scan_bulk_end_def dec_add_ok)
  ultimately show ?thesis by (simp add: scan_continue scan_next_flow)
qed


section \<open>Scanning one node\<close>

definition line_payload :: "nat \<Rightarrow> frame \<Rightarrow> payload" where
  "line_payload off f = \<lparr>p_start = off + 1, p_end = off + 1 + length (content f)\<rparr>"

definition body_payload :: "nat \<Rightarrow> frame \<Rightarrow> payload" where
  "body_payload off f =
     (let s = off + 3 + length (content f)
      in \<lparr>p_start = s, p_end = s + length (case body f of None \<Rightarrow> [] | Some v \<Rightarrow> v)\<rparr>)"

fun node_of :: "nat \<Rightarrow> frame \<Rightarrow> node" where
  "node_of off (FSimple v) = NSimple (line_payload off (FSimple v))"
| "node_of off (FError v) = NError (line_payload off (FError v))"
| "node_of off (FInteger i) = NInteger i"
| "node_of off (FBulk None) = NBulk None"
| "node_of off (FBulk (Some v)) = NBulk (Some (body_payload off (FBulk (Some v))))"
| "node_of off (FArray None) = NArray None CHR ''*''"
| "node_of off (FArray (Some fs)) = NArray (Some (length fs)) CHR ''*''"
| "node_of off FNull = NNull"
| "node_of off (FBoolean b) = NBoolean b"
| "node_of off (FDouble v) = NScalar CHR '','' (line_payload off (FDouble v))"
| "node_of off (FBigNumber v) = NScalar CHR ''('' (line_payload off (FBigNumber v))"
| "node_of off (FBlobError v) = NScalar CHR ''!'' (body_payload off (FBlobError v))"
| "node_of off (FVerbatim v) = NScalar CHR ''='' (body_payload off (FVerbatim v))"
| "node_of off (FMap fs) = NArray (Some (length fs)) CHR ''%''"
| "node_of off (FSet fs) = NArray (Some (length fs)) CHR ''~''"
| "node_of off (FPush fs) = NArray (Some (length fs)) CHR ''>''"
| "node_of off (FAttribute fs) = NArray (Some (length fs)) CHR ''|''"

function frame_i64 :: "frame \<Rightarrow> bool" where
  "frame_i64 f \<longleftrightarrow> (case f of FInteger i \<Rightarrow> i64_ok i | _ \<Rightarrow> True) \<and> (\<forall>c \<in> set (children f). frame_i64 c)"
  by pat_completeness auto
termination
  by (relation "measure node_count") (auto intro: node_count_child)

declare frame_i64.simps [simp del]

text \<open>The decoder once it has read the header of \<open>f\<close>, before it closes the node.\<close>

definition read_node :: "frame \<Rightarrow> decoder \<Rightarrow> decoder" where
  "read_node f d = d\<lparr>nodes := nodes d @ [node_of (cursor d) f], nodes_started := Suc (nodes_started d),
     pending_nodes := pending_nodes d - 1 + length (children f),
     cursor := cursor d + length (header f), state := Prefix\<rparr>"

definition after_header :: "frame \<Rightarrow> decoder \<Rightarrow> protocol_error + (decoder \<times> bool)" where
  "after_header f d =
     (if children f = [] then finish_node (read_node f d)
      else Inr ((read_node f d)\<lparr>arrays := length (children f) # arrays d\<rparr>, False))"

definition node_fits :: "frame \<Rightarrow> decoder \<Rightarrow> bool" where
  "node_fits f d \<longleftrightarrow>
     line_content f + 3 \<le> max_line_bytes (limits d) \<and> payload_ok (limits d) f
     \<and> (is_container f \<longrightarrow> length (arrays d) < max_depth (limits d))
     \<and> (case f of FInteger i \<Rightarrow> i64_ok i | _ \<Rightarrow> True)
     \<and> 0 < pending_nodes d
     \<and> nodes_started d + pending_nodes d + length (children f) \<le> max_nodes (limits d)
     \<and> cursor d + length (header f) + 3 * (pending_nodes d - 1 + length (children f))
         \<le> max_frame_bytes (limits d)"

definition started :: "frame \<Rightarrow> decoder \<Rightarrow> bool \<Rightarrow> decoder" where
  "started f d saw_cr = d\<lparr>nodes_started := Suc (nodes_started d), pending_nodes := pending_nodes d - 1,
     cursor := Suc (cursor d),
     state := Line \<lparr>ln_kind = kind_of f, ln_start = cursor d, ln_payload_start = Suc (cursor d),
       ln_saw_cr = saw_cr\<rparr>\<rparr>"

lemma kind_of_prefix [simp]: "is_prefix (kind_of f)" "is_aggregate_prefix (kind_of f) \<longleftrightarrow> is_container f"
  by (cases f; simp add: is_prefix_def is_aggregate_prefix_def)+

lemma scan_start:
  assumes "limits_ok (limits d)" "node_fits f d" "state d = Prefix"
    "src = pre @ header f @ rest" "cursor d = length pre"
  shows "scan src d = scan src (started f d False)"
proof -
  have u: "cursor d + length (header f) \<le> max_frame_bytes (limits d)"
    "max_frame_bytes (limits d) \<le> USIZE_MAX" "max_nodes (limits d) \<le> USIZE_MAX"
    "Suc (nodes_started d) \<le> max_nodes (limits d)" "3 \<le> length (header f)"
    using assms limits_okD(1,2) [OF assms(1)] length_header_ge3 [of f] by (auto simp: node_fits_def)
  then have "prefix_budget d = Inr ()"
    by (simp add: prefix_budget_def dec_add_ok require_frame_end_ok)
  moreover have "start_node (kind_of f) d = Inr (started f d False, Continue)"
    using assms(2) u
    by (auto simp: start_node_def node_fits_def started_def dec_add_ok checked_add_def checked_sub_def)
  ultimately have "scan_step src d = Inr (started f d False, Continue)"
    using assms by (simp add: scan_step_def scan_prefix_def byte_at_mid header_layout)
  then show ?thesis by (rule scan_continue)
qed

lemma scan_header_line:
  assumes "limits_ok (limits d)" "node_fits f d" "state d = Prefix"
    "src = pre @ header f @ rest" "cursor d = length pre"
  shows "scan src d = resume src (finish_line src (kind_of f) (line_payload (cursor d) f)
     ((started f d True)\<lparr>cursor := cursor d + 3 + length (content f)\<rparr>))"
proof -
  have "scan src (started f d False) = resume src (finish_line src (kind_of f)
      \<lparr>p_start = Suc (cursor d), p_end = length (pre @ [kind_of f]) + length (content f)\<rparr>
      ((started f d False)\<lparr>state := Line \<lparr>ln_kind = kind_of f, ln_start = cursor d,
          ln_payload_start = Suc (cursor d), ln_saw_cr = True\<rparr>,
        cursor := length (pre @ [kind_of f]) + length (content f) + 2\<rparr>))"
    using assms content_no_eol [of "limits d" f]
      scan_line_text [of "started f d False" _ src "pre @ [kind_of f]" "content f" "body_text f @ rest"]
    by (auto simp: started_def node_fits_def line_content_length header_layout)
  also have "\<dots> = resume src (finish_line src (kind_of f) (line_payload (cursor d) f)
     ((started f d True)\<lparr>cursor := cursor d + 3 + length (content f)\<rparr>))"
    using assms(5) by (simp add: started_def line_payload_def numeral_3_eq_3)
  finally show ?thesis using scan_start [OF assms] by simp
qed


lemma payload_slice_mid:
  "payload_slice (pre @ v @ rest) \<lparr>p_start = length pre, p_end = length pre + length v\<rparr> = Inr v"
  by (simp add: payload_slice_def)

lemma slice_content:
  "payload_slice (pre @ header f @ rest) (line_payload (length pre) f) = Inr (content f)"
  using payload_slice_mid [of "pre @ [kind_of f]" "content f" "CRLF @ body_text f @ rest"]
  by (simp add: header_layout line_payload_def)

lemma slice_body:
  assumes "body f = Some v"
  shows "payload_slice (pre @ header f @ rest) (body_payload (length pre) f) = Inr v"
  using payload_slice_mid [of "pre @ kind_of f # content f @ CRLF" v "CRLF @ rest"] assms
  by (simp add: header_layout body_payload_def body_text_def Let_def numeral_3_eq_3)

lemma finish_node_state: "finish_node (d\<lparr>state := s\<rparr>) = finish_node d"
  by (simp add: finish_node_def)

lemma frame_length_bounds:
  assumes "limits_ok (limits d)" "node_fits f d"
  shows "length (children f) \<le> USIZE_MAX" "length (children f) div 2 \<le> USIZE_MAX"
    "body f = Some v \<Longrightarrow> length v \<le> USIZE_MAX"
proof -
  show "length (children f) \<le> USIZE_MAX" "length (children f) div 2 \<le> USIZE_MAX"
    using assms limits_okD(2) [OF assms(1)] by (auto simp: node_fits_def)
  assume "body f = Some v"
  then have "length v \<le> length (header f)" by (simp add: header_layout body_text_def)
  then show "length v \<le> USIZE_MAX"
    using assms limits_okD(1) [OF assms(1)] by (auto simp: node_fits_def)
qed

lemma declare_nodes_ok:
  assumes "limits_ok (limits d)" "nodes_started d + pending_nodes d + n \<le> max_nodes (limits d)"
    "cursor d + 3 * (pending_nodes d + n) \<le> max_frame_bytes (limits d)"
  shows "declare_nodes d n = Inr (d\<lparr>pending_nodes := pending_nodes d + n\<rparr>)"
  using assms limits_okD(1,2) [OF assms(1)]
  by (simp add: declare_nodes_def checked_add_def checked_mul_def dec_add_ok require_frame_end_ok
      mult.commute)

lemma finish_aggregate:
  assumes "limits_ok (limits d)" "node_fits f d" "is_container f" "f \<noteq> FArray None"
  shows "finish_array_header ((started f d True)\<lparr>cursor := cursor d + 3 + length (content f)\<rparr>)
      (kind_of f) (Some (length (children f))) = after_header f d"
proof -
  have h: "length (header f) = 3 + length (content f)" "body f = None"
    using assms(3) by (cases f; simp add: header_layout body_text_def)+
  have n: "node_of (cursor d) f = NArray (Some (length (children f))) (kind_of f)"
    using assms(3,4) by (cases f rule: children.cases) auto
  show ?thesis
    using assms(1,2) h n
    by (cases d)
      (auto simp: finish_array_header_def declare_nodes_ok after_header_def read_node_def node_fits_def
        started_def push_node_def finish_node_def Let_def add.assoc)
qed


lemma finish_leaf:
  assumes "children f = []" "body f = None"
  shows "finish_node (push_node (node_of (cursor d) f)
      ((started f d True)\<lparr>cursor := cursor d + 3 + length (content f)\<rparr>)) = after_header f d"
  using assms
  by (cases d)
    (simp add: after_header_def read_node_def started_def push_node_def finish_node_def header_layout
      body_text_def numeral_3_eq_3)

lemma finish_line_node:
  assumes "limits_ok (limits d)" "node_fits f d" "body f = None"
    "payload_slice src (line_payload (cursor d) f) = Inr (content f)"
  shows "finish_line src (kind_of f) (line_payload (cursor d) f)
      ((started f d True)\<lparr>cursor := cursor d + 3 + length (content f)\<rparr>) = after_header f d"
proof (cases "is_container f \<and> f \<noteq> FArray None")
  case True
  then show ?thesis
    using assms finish_aggregate [OF assms(1,2)] frame_length_bounds [OF assms(1,2)]
    by (cases f) (auto simp: finish_line_def parse_length_dec_digits node_fits_def checked_mul_def)
next
  case False
  have minus: "parse_length ''-1'' = Inr None" by (simp add: parse_length_def)
  show ?thesis
    using False assms finish_leaf [of f d]
    by (cases f)
      (auto simp: finish_line_def node_fits_def parse_integer_int_to_string minus
        finish_bulk_header_def finish_array_header_def line_payload_def split: option.splits)
qed

lemma finish_line_bulk:
  assumes "limits_ok (limits d)" "node_fits f d" "body f = Some v"
    "payload_slice src (line_payload (cursor d) f) = Inr (content f)"
  defines "d' \<equiv> (started f d True)\<lparr>cursor := cursor d + 3 + length (content f)\<rparr>"
  shows "finish_line src (kind_of f) (line_payload (cursor d) f) d' =
     Inr (d'\<lparr>state := Bulk (body_payload (cursor d) f) False (kind_of f)\<rparr>, False)"
proof -
  have b: "cursor d + 3 + length (content f) + length v + 2 \<le> max_frame_bytes (limits d)"
    "max_frame_bytes (limits d) \<le> USIZE_MAX" "length v \<le> max_bulk_bytes (limits d)"
    using assms(2,3) limits_okD(1) [OF assms(1)]
    by (cases f; auto simp: node_fits_def header_layout body_text_def)+
  have d': "cursor d' = cursor d + 3 + length (content f)" "limits d' = limits d"
    by (simp_all add: d'_def started_def)
  have "finish_bulk_header d' (kind_of f) (Some (length v)) =
      Inr (d'\<lparr>state := Bulk (body_payload (cursor d) f) False (kind_of f)\<rparr>, False)"
    using b d' assms(3)
    by (simp add: finish_bulk_header_def dec_add_ok require_frame_end_ok body_payload_def Let_def)
  moreover have "parse_length (content f) = Inr (Some (length v))"
    using assms(3) frame_length_bounds(3) [OF assms(1,2)]
    by (cases f) (auto simp: parse_length_dec_digits)
  ultimately show ?thesis
    using assms(3,4) by (cases f) (simp_all add: finish_line_def)
qed

lemma finish_bulk_node:
  assumes "node_fits f d" "body f = Some v" "src = pre @ header f @ rest" "cursor d = length pre"
  shows "finish_bulk src (body_payload (cursor d) f) (kind_of f)
     ((started f d True)\<lparr>state := s, cursor := cursor d + length (header f)\<rparr>) = after_header f d"
proof -
  have "src ! (p_start (body_payload (cursor d) f) + 3) = v ! 3" if "4 \<le> length v"
    using that assms
    by (simp add: body_payload_def Let_def header_layout body_text_def nth_append numeral_3_eq_3)
  then show ?thesis
    using assms(1,2)
    by (cases f; cases d)
      (auto simp: finish_bulk_def node_fits_def body_payload_def Let_def after_header_def
        read_node_def started_def push_node_def finish_node_def)
qed


lemma scan_node:
  assumes "limits_ok (limits d)" "node_fits f d" "state d = Prefix"
    "src = pre @ header f @ rest" "cursor d = length pre"
  shows "scan src d = resume src (after_header f d)"
proof -
  have slice: "payload_slice src (line_payload (cursor d) f) = Inr (content f)"
    using assms(4,5) slice_content by simp
  show ?thesis
  proof (cases "body f")
    case None
    with scan_header_line [OF assms] finish_line_node [OF assms(1,2) None slice] show ?thesis by simp
  next
    case (Some v)
    let ?bp = "body_payload (cursor d) f"
    let ?d = "(started f d True)\<lparr>cursor := cursor d + 3 + length (content f),
        state := Bulk ?bp False (kind_of f)\<rparr>"
    have h: "length (header f) = 3 + length (content f) + length v + 2"
      using Some by (simp add: header_layout body_text_def)
    have "cursor d + length (header f) \<le> USIZE_MAX"
      using assms(2) limits_okD(1) [OF assms(1)] by (auto simp: node_fits_def)
    then have "scan src ?d = resume src (finish_bulk src ?bp (kind_of f)
        (?d\<lparr>state := Bulk ?bp True (kind_of f),
           cursor := length (pre @ kind_of f # content f @ CRLF) + length v + 2\<rparr>))"
      using assms(4,5) Some h
      by (intro scan_bulk_text [where rest = rest])
        (auto simp: header_layout body_text_def body_payload_def Let_def)
    then have "scan src ?d = resume src (after_header f d)"
      using finish_bulk_node [OF assms(2) Some assms(4,5)] assms(5) h
      by (simp add: numeral_3_eq_3 add.assoc)
    with scan_header_line [OF assms] finish_line_bulk [OF assms(1,2) Some slice] show ?thesis
      by (simp add: resume_def)
  qed
qed


section \<open>Scanning frames\<close>

function flat_nodes :: "nat \<Rightarrow> frame list \<Rightarrow> node list" where
  "flat_nodes off [] = []"
| "flat_nodes off (f # fs) = node_of off f # flat_nodes (off + length (header f)) (children f @ fs)"
  by pat_completeness auto
termination
  by (relation "measure (\<lambda>(off, fs). sum_list (map node_count fs))") (auto simp: node_counts_children)

abbreviation forest_wire :: "frame list \<Rightarrow> bytes" where
  "forest_wire fs \<equiv> concat (map wire fs)"

abbreviation forest_count :: "frame list \<Rightarrow> nat" where
  "forest_count fs \<equiv> sum_list (map node_count fs)"

lemma flat_nodes_append:
  "flat_nodes off (fs @ gs) = flat_nodes off fs @ flat_nodes (off + length (forest_wire fs)) gs"
proof (induction off fs rule: flat_nodes.induct)
  case (2 off f fs)
  then show ?case by (simp add: wire.simps [of f] add.assoc)
qed simp

definition after_frames :: "frame list \<Rightarrow> decoder \<Rightarrow> decoder" where
  "after_frames fs d = d\<lparr>nodes := nodes d @ flat_nodes (cursor d) fs,
     nodes_started := nodes_started d + forest_count fs,
     pending_nodes := pending_nodes d - length fs,
     cursor := cursor d + length (forest_wire fs), state := Prefix\<rparr>"

definition frames_fit :: "frame list \<Rightarrow> decoder \<Rightarrow> bool" where
  "frames_fit fs d \<longleftrightarrow>
     (\<forall>f \<in> set fs. frame_valid (limits d) (length (arrays d)) f \<and> frame_i64 f)
     \<and> length fs \<le> pending_nodes d
     \<and> nodes_started d + forest_count fs + (pending_nodes d - length fs) \<le> max_nodes (limits d)
     \<and> cursor d + length (forest_wire fs) + 3 * (pending_nodes d - length fs) \<le> max_frame_bytes (limits d)"

lemma length_forest_wire_ge: "3 * forest_count fs \<le> length (forest_wire fs)"
proof (induction fs)
  case (Cons f fs)
  with length_wire_ge [of f] show ?case by simp
qed simp

lemma frames_fit_node:
  assumes "frames_fit [f] d"
  shows "node_fits f d"
proof -
  have "length (children f) \<le> forest_count (children f)" by (rule length_le_node_counts)
  moreover have "3 * forest_count (children f) \<le> length (forest_wire (children f))"
    by (rule length_forest_wire_ge)
  ultimately show ?thesis
    using assms
    by (auto simp: frames_fit_def node_fits_def frame_valid.simps [of _ _ f] frame_i64.simps [of f]
        wire.simps [of f] node_count_children [of f])
qed

lemma frames_fit_head: "frames_fit (f # fs) d \<Longrightarrow> frames_fit [f] d"
  using length_forest_wire_ge [of fs] length_le_node_counts [of fs]
  by (auto simp: frames_fit_def)

lemma frames_fit_tail:
  assumes "frames_fit (f # fs) d" "arrays d = Suc (length fs) # rest"
  shows "frames_fit fs ((after_frames [f] d)\<lparr>arrays := length fs # rest\<rparr>)"
  using assms by (auto simp: frames_fit_def after_frames_def)

lemma after_frames_Cons:
  "after_frames fs ((after_frames [f] d)\<lparr>arrays := as\<rparr>) = (after_frames (f # fs) d)\<lparr>arrays := as\<rparr>"
  using flat_nodes_append [of "cursor d" "[f]" fs]
  by (cases d) (simp add: after_frames_def add.assoc del: flat_nodes.simps)

lemma finish_node_arrays:
  assumes "finish_arrays as = finish_arrays bs"
  shows "finish_node (d\<lparr>arrays := as\<rparr>) = finish_node (d\<lparr>arrays := bs\<rparr>)"
  using assms by (simp add: finish_node_def)

definition scans_as :: "bytes \<Rightarrow> frame \<Rightarrow> decoder \<Rightarrow> bool" where
  "scans_as src f d \<longleftrightarrow> scan src d = resume src (finish_node (after_frames [f] d))"

text \<open>\<open>at src d fs\<close>: the cursor stands before the encoding of \<open>fs\<close>.\<close>

definition at :: "bytes \<Rightarrow> decoder \<Rightarrow> frame list \<Rightarrow> bool" where
  "at src d fs \<longleftrightarrow> limits_ok (limits d) \<and> state d = Prefix
     \<and> (\<exists>pre rest. src = pre @ forest_wire fs @ rest \<and> cursor d = length pre) \<and> frames_fit fs d"

lemma at_head: "at src d (f # fs) \<Longrightarrow> at src d [f]"
  unfolding at_def using frames_fit_head by fastforce

lemma at_tail:
  assumes "at src d (f # fs)" "arrays d = Suc (length fs) # rest"
  shows "at src ((after_frames [f] d)\<lparr>arrays := length fs # rest\<rparr>) fs"
proof -
  from assms(1) obtain pre post where "src = (pre @ wire f) @ forest_wire fs @ post" "cursor d = length pre"
    by (auto simp: at_def)
  then have "\<exists>pre post. src = pre @ forest_wire fs @ post \<and> cursor d + length (wire f) = length pre"
    by (metis length_append)
  with assms frames_fit_tail [of f fs d rest] show ?thesis
    by (auto simp: at_def after_frames_def)
qed

lemma scan_forest:
  assumes "\<And>f d. f \<in> set fs \<Longrightarrow> at src d [f] \<Longrightarrow> scans_as src f d"
    "at src d fs" "fs \<noteq> []" "arrays d = length fs # rest"
  shows "scan src d = resume src (finish_node ((after_frames fs d)\<lparr>arrays := rest\<rparr>))"
  using assms
proof (induction fs arbitrary: d)
  case (Cons f fs)
  have step: "scan src d = resume src (finish_node (after_frames [f] d))"
    using Cons.prems(1) [of f d] at_head [OF Cons.prems(2)] by (simp add: scans_as_def)
  let ?d = "(after_frames [f] d)\<lparr>arrays := length fs # rest\<rparr>"
  show ?case
  proof (cases "fs = []")
    case True
    then have "finish_node (after_frames [f] d) = finish_node ((after_frames [f] d)\<lparr>arrays := rest\<rparr>)"
      using Cons.prems(4) by (simp add: finish_node_def after_frames_def)
    with True step show ?thesis by simp
  next
    case False
    then have "finish_node (after_frames [f] d) = Inr (?d, False)"
      using Cons.prems(4) by (cases d) (simp add: finish_node_def after_frames_def)
    then have "scan src d = scan src ?d" using step by (simp add: resume_def)
    also have "\<dots> = resume src (finish_node ((after_frames fs ?d)\<lparr>arrays := rest\<rparr>))"
      using Cons.prems False at_tail [OF Cons.prems(2)] by (intro Cons.IH) auto
    finally show ?thesis by (simp add: after_frames_Cons)
  qed
qed simp

lemma at_children:
  assumes "at src d [f]"
  shows "at src ((read_node f d)\<lparr>arrays := length (children f) # arrays d\<rparr>) (children f)"
proof -
  from assms obtain pre post where
    "src = (pre @ header f) @ forest_wire (children f) @ post" "cursor d = length pre"
    by (auto simp: at_def wire.simps [of f])
  then have "\<exists>pre post. src = pre @ forest_wire (children f) @ post
      \<and> cursor d + length (header f) = length pre"
    by (metis length_append)
  with assms show ?thesis
    by (auto simp: at_def frames_fit_def read_node_def frame_valid.simps [of _ _ f]
        frame_i64.simps [of f] node_count_children [of f] wire.simps [of f])
qed

lemma read_node_children:
  "(after_frames (children f) ((read_node f d)\<lparr>arrays := as\<rparr>))\<lparr>arrays := arrays d\<rparr> = after_frames [f] d"
  if "0 < pending_nodes d"
  using that
  by (cases d) (simp add: after_frames_def read_node_def wire.simps [of f] node_count_children [of f] add.assoc)

lemma scan_frame: "at src d [f] \<Longrightarrow> scans_as src f d"
proof (induction f arbitrary: d rule: wire.induct)
  case (1 f)
  from 1(2) obtain pre post where
    src: "src = pre @ header f @ (forest_wire (children f) @ post)" "cursor d = length pre"
    and l: "limits_ok (limits d)" "state d = Prefix" and fit: "frames_fit [f] d"
    by (auto simp: at_def wire.simps [of f])
  have p: "0 < pending_nodes d" using fit by (simp add: frames_fit_def)
  have step: "scan src d = resume src (after_header f d)"
    by (rule scan_node [OF l(1) frames_fit_node [OF fit] l(2) src])
  let ?d = "(read_node f d)\<lparr>arrays := length (children f) # arrays d\<rparr>"
  show ?case
  proof (cases "children f = []")
    case True
    then have "read_node f d = after_frames [f] d"
      by (cases d) (simp add: read_node_def after_frames_def wire.simps [of f] node_count_children [of f])
    with step True show ?thesis by (simp add: scans_as_def after_header_def)
  next
    case False
    then have "scan src d = scan src ?d" using step by (simp add: after_header_def resume_def)
    also have "\<dots> = resume src (finish_node ((after_frames (children f) ?d)\<lparr>arrays := arrays d\<rparr>))"
      using 1 False at_children [OF 1(2)] by (intro scan_forest) auto
    finally show ?thesis using read_node_children [OF p] by (simp add: scans_as_def)
  qed
qed


section \<open>Materializing what was scanned\<close>

lemma build_frame_node:
  assumes "src = pre @ header f @ rest"
  shows "build_frame src (node_of (length pre) f) (children f @ stk) = Inr (f # stk)"
  using slice_content [of pre f rest] slice_body [of f _ pre rest] assms
  by (cases f rule: content.cases)
    (simp_all add: copy_payload_def scalar_frame_def aggregate_frame_def)

lemma build_frames_append:
  "build_frames src (ns @ ms) stk = res_bind (build_frames src ns stk) (build_frames src ms)"
proof (induction ns arbitrary: stk)
  case (Cons n ns)
  then show ?case by (cases "build_frame src n stk") auto
qed simp

lemma build_flat_nodes:
  "src = pre @ forest_wire fs @ rest \<Longrightarrow> off = length pre \<Longrightarrow>
     build_frames src (rev (flat_nodes off fs)) stk = Inr (fs @ stk)"
proof (induction off fs arbitrary: pre rule: flat_nodes.induct)
  case (2 off f fs)
  have "build_frames src (rev (flat_nodes (off + length (header f)) (children f @ fs))) stk =
      Inr ((children f @ fs) @ stk)"
    using 2(2,3) by (intro "2.IH" [of "pre @ header f"]) (simp_all add: wire.simps [of f])
  moreover have "src = pre @ header f @ (forest_wire (children f @ fs) @ rest)"
    using 2(2) by (simp add: wire.simps [of f])
  ultimately show ?case
    using build_frame_node [of src pre f _ "fs @ stk"] 2(3) by (simp add: build_frames_append)
qed simp

section \<open>Round trip\<close>

lemma scan_wire:
  assumes "limits_ok l" "encodable l f" "frame_i64 f"
  shows "scan (wire f @ rest) (fresh_decoder l) = Inr (after_frames [f] (fresh_decoder l), True)"
proof -
  have "at (wire f @ rest) (fresh_decoder l) [f]"
    using assms by (auto simp: at_def frames_fit_def fresh_decoder_def encodable_def)
  then have "scan (wire f @ rest) (fresh_decoder l) =
      resume (wire f @ rest) (finish_node (after_frames [f] (fresh_decoder l)))"
    using scan_frame by (simp add: scans_as_def)
  also have "finish_node (after_frames [f] (fresh_decoder l)) = Inr (after_frames [f] (fresh_decoder l), True)"
    by (simp add: finish_node_def after_frames_def fresh_decoder_def)
  finally show ?thesis by (simp add: resume_def)
qed

lemma decode_wire:
  assumes "limits_ok l" "encodable l f" "frame_i64 f"
  shows "decode (fresh_decoder l) (wire f @ rest) = (Inr (Some f), fresh_decoder l, rest)"
proof -
  have "materialize (wire f @ rest) (flat_nodes 0 [f]) = Inr f"
    using build_flat_nodes [of "wire f @ rest" "[]" "[f]" rest 0 "[]"]
    by (simp add: materialize_def del: flat_nodes.simps)
  moreover have "previous_len (fresh_decoder l) = 0" "\<not> poisoned (fresh_decoder l)"
    by (simp_all add: fresh_decoder_def)
  moreover have "nodes (after_frames [f] (fresh_decoder l)) = flat_nodes 0 [f]"
    "cursor (after_frames [f] (fresh_decoder l)) = length (wire f)"
    "limits (after_frames [f] (fresh_decoder l)) = l"
    by (simp_all add: after_frames_def fresh_decoder_def)
  ultimately show ?thesis
    using scan_wire [OF assms, of rest] by (simp add: decode_def scan_len set_len_simps Let_def)
qed

lemma encode_ok_iff:
  assumes "limits_ok l"
  shows "encode f dst l = (Inr (), dst') \<longleftrightarrow>
    encodable l f \<and> length dst + length (wire f) \<le> USIZE_MAX \<and> dst' = dst @ wire f"
proof -
  have v: "validate_limits l = Inr ()" using assms by (simp add: limits_ok_def)
  show ?thesis
  proof (cases "encoded_size f l")
    case (Inl e)
    with encoded_size_iff [OF assms, of f "length (wire f)"] v show ?thesis by (auto simp: encode_def)
  next
    case (Inr n)
    with encoded_size_iff [OF assms] have "encodable l f" "n = length (wire f)" by auto
    with Inr v show ?thesis by (auto simp: encode_def checked_add_def write_loop_wire)
  qed
qed

lemma decode_strict_prefix:
  assumes "limits_ok l" "encodable l f" "frame_i64 f" "wire f = a @ b" "b \<noteq> []"
  shows "\<exists>d. decode (fresh_decoder l) a = (Inr None, d, a)"
proof -
  let ?d = "fresh_decoder l"
  have whole: "scan (a @ b) ?d = Inr (after_frames [f] ?d, True)"
    using scan_wire [OF assms(1-3), of "[]"] assms(4) by simp
  have "\<exists>d. scan a ?d = Inr (d, False)"
  proof (rule ccontr)
    assume no: "\<nexists>d. scan a ?d = Inr (d, False)"
    then have "scan (a @ b) ?d = scan a ?d" by (intro scan_append) auto
    with whole have "scan a ?d = Inr (after_frames [f] ?d, True)" by simp
    from scan_cursor [OF this] assms(4,5) show False
      by (simp add: after_frames_def fresh_decoder_def)
  qed
  moreover have "previous_len ?d = 0" "\<not> poisoned ?d" by (simp_all add: fresh_decoder_def)
  ultimately show ?thesis by (auto simp: decode_def scan_len set_len_simps Let_def)
qed

section \<open>Fragments\<close>

text \<open>The reading side of a connection: every chunk is appended to the buffer and
  \<open>decode\<close> is called once.\<close>

fun feed :: "decoder \<Rightarrow> bytes \<Rightarrow> bytes list \<Rightarrow> (protocol_error + frame option) list \<times> decoder \<times> bytes" where
  "feed d buf [] = ([], d, buf)"
| "feed d buf (c # cs) =
     (let (r, d, buf) = decode d (buf @ c); (rs, d, buf) = feed d buf cs in (r # rs, d, buf))"

lemma decode_observed_eq:
  "decode_observed d src = decode_observed e src \<Longrightarrow> decode e src = (r, d', src') \<Longrightarrow>
     \<not> poisoned d' \<Longrightarrow> decode d src = (r, d', src')"
  by (auto simp: decode_observed_def observe_def split: prod.splits if_splits)

lemma decode_Inr_alive:
  assumes "decode d src = (Inr x, d', src')"
  shows "\<not> poisoned d'"
proof -
  have "\<not> poisoned d" using assms by (auto simp: decode_def split: if_splits)
  then show ?thesis
    using assms scan_keeps [of src "d\<lparr>previous_len := length src\<rparr>"]
    by (auto simp: decode_def Let_def same_config_def fresh_decoder_def
        split: if_splits sum.splits bool.splits)
qed

lemma strict_prefix_split:
  assumes "xs @ ys = zs @ ws" "length xs < length zs"
  obtains b where "zs = xs @ b" "b \<noteq> []"
proof
  show "zs = xs @ drop (length xs) zs"
    using assms by (metis append_eq_append_conv_if append_take_drop_id less_imp_le_nat)
  show "drop (length xs) zs \<noteq> []" using assms(2) by simp
qed

lemma feed_wire:
  assumes "limits_ok l" "encodable l f" "frame_i64 f"
    "\<And>rest. decode_observed d (buf @ rest) = decode_observed (fresh_decoder l) (buf @ rest)"
    "buf @ concat cs = wire f @ rest" "cs \<noteq> []" "length (buf @ concat (butlast cs)) < length (wire f)"
    "length (wire f) \<le> length (buf @ concat cs)"
  shows "feed d buf cs = (replicate (length cs - 1) (Inr None) @ [Inr (Some f)], fresh_decoder l, rest)"
  using assms(4-)
proof (induction cs arbitrary: d buf)
  case (Cons c cs)
  have p: "\<not> poisoned (fresh_decoder l)" by (simp add: fresh_decoder_def)
  show ?case
  proof (cases "cs = []")
    case True
    with Cons.prems(2) have w: "buf @ c = wire f @ rest" by simp
    have "decode d (buf @ c) = (Inr (Some f), fresh_decoder l, rest)"
      using decode_observed_eq [OF Cons.prems(1) [of c] _ p] decode_wire [OF assms(1-3), of rest]
      unfolding w .
    with True show ?thesis by simp
  next
    case False
    let ?buf = "buf @ c"
    have "length ?buf < length (wire f)" using Cons.prems False by simp
    with Cons.prems(2) obtain b where b: "wire f = ?buf @ b" "b \<noteq> []"
      using strict_prefix_split [of ?buf "concat cs" "wire f" rest] by (metis append_assoc concat.simps(2))
    from decode_strict_prefix [OF assms(1-3) b] obtain e
      where e: "decode (fresh_decoder l) ?buf = (Inr None, e, ?buf)" by blast
    have d': "decode d ?buf = (Inr None, e, ?buf)"
      by (rule decode_observed_eq [OF Cons.prems(1) [of c] e decode_Inr_alive [OF e]])
    have "feed e ?buf cs = (replicate (length cs - 1) (Inr None) @ [Inr (Some f)], fresh_decoder l, rest)"
    proof (rule Cons.IH)
      show "decode_observed e (?buf @ rest) = decode_observed (fresh_decoder l) (?buf @ rest)" for rest
        by (rule decode_resume(2) [OF e])
    qed (use Cons.prems(2-) False in simp_all)
    moreover obtain m where "length cs = Suc m" using False by (cases cs) auto
    ultimately show ?thesis using d' by simp
  qed
qed simp


section \<open>Properties\<close>

definition small_limits :: resp_limits where
  "small_limits = \<lparr>max_frame_bytes = 48, max_bulk_bytes = 16, max_line_bytes = 16,
     max_nodes = 8, max_depth = 4\<rparr>"

definition sample_frame :: frame where
  "sample_frame = FArray (Some [FInteger (-42), FMap [FBulk (Some ''ab''), FBulk None]])"

definition sample_wire :: bytes where
  "sample_wire = ''*2'' @ CRLF @ '':-42'' @ CRLF @ ''%1'' @ CRLF @ ''$2'' @ CRLF @ ''ab'' @ CRLF @ ''$-1'' @ CRLF"

lemma small_limits_ok: "limits_ok small_limits"
  by (simp add: limits_ok_def validate_limits_def small_limits_def USIZE_MAX_def)

lemma sample_encode: "encode sample_frame dst small_limits = (Inr (), dst @ sample_wire)"
  if "length dst \<le> 100"
proof -
  have "encoded_size sample_frame small_limits = Inr (length sample_wire)" by code_simp
  moreover have "write_loop [sample_frame] [] = sample_wire" by code_simp
  moreover have "length sample_wire \<le> 100" by code_simp
  ultimately show ?thesis
    using that small_limits_ok
    by (auto simp: encode_def limits_ok_def checked_add_def USIZE_MAX_def write_loop_wire)
qed

lemma sample_i64: "frame_i64 sample_frame"
  by code_simp

text \<open>
  C5. Whatever \<open>encode\<close> appends to its output, a fresh decoder with the same
  limits reads back as the very same frame, whatever bytes follow, and leaves
  exactly those bytes in the buffer.
\<close>

theorem encode_decode_roundtrip:
  assumes "limits_ok l" "frame_i64 f" "encode f dst l = (Inr (), out)"
  shows "\<exists>w. out = dst @ w \<and> decode (fresh_decoder l) (w @ rest) = (Inr (Some f), fresh_decoder l, rest)"
  using assms decode_wire encode_ok_iff [OF assms(1)] by blast

theorem encode_decode_roundtrip_witness:
  "\<exists>w. ''x'' @ sample_wire = ''x'' @ w \<and>
     decode (fresh_decoder small_limits) (w @ ''tail'') =
       (Inr (Some sample_frame), fresh_decoder small_limits, ''tail'')"
  using encode_decode_roundtrip [OF small_limits_ok sample_i64, of "''x''" "''x'' @ sample_wire" "''tail''"]
    sample_encode [of "''x''"] by simp

text \<open>
  C12. The result does not depend on how the network fragments the input: for any
  split of the bytes of an encoded frame and of what follows it into chunks,
  every call before the chunk that completes the frame returns \<open>None\<close>, that
  call returns the frame, and the surplus stays in the buffer.
\<close>

theorem decode_fragments:
  assumes "limits_ok l" "frame_i64 f" "encode f [] l = (Inr (), w)"
    "concat cs = w @ rest" "cs \<noteq> []" "length (concat (butlast cs)) < length w"
  shows "feed (fresh_decoder l) [] cs =
    (replicate (length cs - 1) (Inr None) @ [Inr (Some f)], fresh_decoder l, rest)"
proof -
  have w: "encodable l f" "w = wire f" using assms(3) encode_ok_iff [OF assms(1)] by auto
  show ?thesis using assms(4-6) by (intro feed_wire [OF assms(1) w(1) assms(2)]) (simp_all add: w(2))
qed

theorem decode_fragments_witness:
  "feed (fresh_decoder small_limits) [] [take 5 sample_wire, [], drop 5 sample_wire @ ''+O''] =
     ([Inr None, Inr None, Inr (Some sample_frame)], fresh_decoder small_limits, ''+O'')"
proof -
  have "length (concat (butlast [take 5 sample_wire, [], drop 5 sample_wire @ ''+O''])) < length sample_wire"
    by code_simp
  then show ?thesis
    using decode_fragments [OF small_limits_ok sample_i64, of sample_wire
        "[take 5 sample_wire, [], drop 5 sample_wire @ ''+O'']" "''+O''"] sample_encode [of "[]"]
    by (simp add: numeral_2_eq_2)
qed

text \<open>
  C29. The encoder accepts exactly the frames that satisfy the limits: the size
  pass succeeds if and only if every line, bulk, depth, node and frame budget
  holds and no simple string carries a line break, and then the bytes appended
  are the recursive encoding of the frame; on an error the output is untouched.
\<close>

theorem encode_correct:
  assumes "limits_ok l"
  shows "if encodable l f \<and> length dst + length (wire f) \<le> USIZE_MAX
     then encode f dst l = (Inr (), dst @ wire f)
     else \<exists>e. encode f dst l = (Inl e, dst)"
proof (cases "encodable l f \<and> length dst + length (wire f) \<le> USIZE_MAX")
  case True
  with encode_ok_iff [OF assms] show ?thesis by simp
next
  case False
  obtain r out where r: "encode f dst l = (r, out)" by (cases "encode f dst l")
  with False encode_ok_iff [OF assms, of f dst out] have "r \<noteq> Inr ()" by auto
  then obtain e where "r = Inl e" by (cases r) auto
  with r have "encode f dst l = (Inl e, dst)" by (auto simp: encode_def split: sum.splits)
  with False show ?thesis by auto
qed

theorem encode_correct_witness:
  "limits_ok small_limits \<and> encode sample_frame ''x'' small_limits = (Inr (), ''x'' @ wire sample_frame)"
proof -
  have "encodable small_limits sample_frame" "length ''x'' + length (wire sample_frame) \<le> USIZE_MAX"
    using encode_ok_iff [OF small_limits_ok] sample_encode [of "''x''"] by auto
  with encode_correct [OF small_limits_ok, of sample_frame "''x''"] small_limits_ok show ?thesis by simp
qed

text \<open>
  C30. A failed \<open>decode\<close> leaves the buffer as it was, drops the metadata and
  closes the decoder for good: every later call fails with \<open>Poisoned\<close> and
  consumes nothing.
\<close>

theorem decode_failure_is_terminal:
  assumes "\<not> poisoned d" "decode d src = (Inl e, d', src')"
  shows "src' = src \<and> nodes d' = [] \<and> arrays d' = []
    \<and> decode d' later = (Inl Poisoned, d', later)"
  using assms by (auto simp: decode_def fail_def Let_def split: if_splits sum.splits bool.splits)

theorem decode_failure_is_terminal_witness:
  "\<exists>d'. decode (fresh_decoder small_limits) ''?'' = (Inl (Malformed ''unknown prefix''), d', ''?'')
     \<and> decode d' ''+OK'' = (Inl Poisoned, d', ''+OK'')"
proof -
  have "scan ''?'' (fresh_decoder small_limits\<lparr>previous_len := 1\<rparr>) = Inl (Malformed ''unknown prefix'')"
    by code_simp
  then have "decode (fresh_decoder small_limits) ''?'' =
      (Inl (Malformed ''unknown prefix''), fail (fresh_decoder small_limits\<lparr>previous_len := 1\<rparr>), ''?'')"
    by (simp add: decode_def fresh_decoder_def Let_def)
  with decode_failure_is_terminal [OF _ this] show ?thesis by (auto simp: fresh_decoder_def)
qed

end
