(* ===== verification/Ordered.thy ===== *)
theory Ordered
  imports Prelude
begin

text \<open>
  The containers of the Rust standard library the program is built on.
  \<open>BTreeMap\<close> and \<open>BTreeSet\<close> are strictly increasing association lists and
  lists: iteration order is list order and equality is equality of contents.
  A \<open>HashMap\<close> is modelled by the same canonical list; its iteration order is
  unspecified in Rust, so no property may depend on it. The locales
  \<open>dictionary\<close> and \<open>key_set\<close> state what the clients rely on, and are
  interpreted on the two models at the end.
\<close>

type_synonym ('k, 'v) btree_map = "('k \<times> 'v) list"
type_synonym 'a btree_set = "'a list"

named_theorems ordered_simps

section \<open>Maps\<close>

fun bm_insert :: "'k::linorder \<Rightarrow> 'v \<Rightarrow> ('k, 'v) btree_map \<Rightarrow> ('k, 'v) btree_map" where
  "bm_insert k v [] = [(k, v)]"
| "bm_insert k v ((a, b) # m) =
     (if k < a then (k, v) # (a, b) # m
      else if k = a then (k, v) # m
      else (a, b) # bm_insert k v m)"

fun bm_remove :: "'k::linorder \<Rightarrow> ('k, 'v) btree_map \<Rightarrow> ('k, 'v) btree_map" where
  "bm_remove k [] = []"
| "bm_remove k ((a, b) # m) = (if k = a then m else (a, b) # bm_remove k m)"

abbreviation bm_get :: "('k, 'v) btree_map \<Rightarrow> 'k \<Rightarrow> 'v option" where
  "bm_get \<equiv> map_of"

definition bm_ok :: "('k::linorder, 'v) btree_map \<Rightarrow> bool" where
  "bm_ok m \<longleftrightarrow> sorted_wrt (<) (map fst m)"

lemma bm_ok_Nil [simp]: "bm_ok []"
  by (simp add: bm_ok_def)

lemma bm_ok_Cons [simp]:
  "bm_ok ((k, v) # m) \<longleftrightarrow> (\<forall>x \<in> fst ` set m. k < x) \<and> bm_ok m"
  by (auto simp: bm_ok_def)

lemma bm_ok_distinct: "bm_ok m \<Longrightarrow> distinct (map fst m)"
  by (auto simp: bm_ok_def strict_sorted_iff)

lemma bm_get_above: "\<forall>x \<in> fst ` set m. k < x \<Longrightarrow> bm_get m k = None"
  for k :: "'k::linorder"
  by (force simp: map_of_eq_None_iff)

lemma bm_get_below: "k < a \<Longrightarrow> \<forall>x \<in> set m. a < fst x \<Longrightarrow> bm_get m k = None"
  for k :: "'k::linorder"
  by (rule bm_get_above) (auto dest: order.strict_trans)

lemma keys_bm_insert: "fst ` set (bm_insert k v m) = insert k (fst ` set m)"
  by (induction k v m rule: bm_insert.induct) auto

lemma bm_get_insert [simp]: "bm_get (bm_insert k v m) = (bm_get m)(k \<mapsto> v)"
  by (induction k v m rule: bm_insert.induct) (auto simp: fun_upd_twist)

lemma bm_ok_insert [simp]: "bm_ok m \<Longrightarrow> bm_ok (bm_insert k v m)"
  by (induction k v m rule: bm_insert.induct) (auto simp: keys_bm_insert)

lemma set_bm_remove: "set (bm_remove k m) \<subseteq> set m"
  by (induction k m rule: bm_remove.induct) auto

lemma bm_ok_remove [simp]: "bm_ok m \<Longrightarrow> bm_ok (bm_remove k m)"
  by (induction k m rule: bm_remove.induct) (use set_bm_remove in fastforce)+

lemma bm_get_remove [simp]: "bm_ok m \<Longrightarrow> bm_get (bm_remove k m) = (bm_get m)(k := None)"
  by (induction k m rule: bm_remove.induct) (auto simp: bm_get_above fun_upd_idem_iff)

lemma bm_remove_absent: "bm_get m k = None \<Longrightarrow> bm_remove k m = m"
  by (induction k m rule: bm_remove.induct) (auto split: if_splits)

lemma bm_insert_nonempty [simp]: "bm_insert k v m \<noteq> []"
  by (cases "(k, v, m)" rule: bm_insert.cases) auto

lemma length_bm_insert:
  "bm_ok m \<Longrightarrow> length (bm_insert k v m) = (case bm_get m k of None \<Rightarrow> Suc (length m) | Some _ \<Rightarrow> length m)"
proof (induction k v m rule: bm_insert.induct)
  case (2 k v a b m)
  then show ?case
    by (cases k a rule: linorder_cases) (auto simp: bm_get_above bm_get_below split: option.splits)
qed simp

lemma length_bm_remove:
  "length (bm_remove k m) = (case bm_get m k of None \<Rightarrow> length m | Some _ \<Rightarrow> length m - 1)"
  by (induction k m rule: bm_remove.induct) (auto split: option.splits, metis Suc_pred length_pos_if_in_set map_of_SomeD)

lemma bm_eqI:
  "bm_ok m \<Longrightarrow> bm_ok n \<Longrightarrow> bm_get m = bm_get n \<Longrightarrow> m = n"
proof -
  assume ok: "bm_ok m" "bm_ok n" and eq: "bm_get m = bm_get n"
  have s: "set m = set n"
    using ok eq bm_ok_distinct by (metis map_of_eqI map_of_is_SomeI map_of_SomeD subrelI subset_antisym)
  have "map fst m = map fst n"
    using ok s by (metis bm_ok_def list.set_map strict_sorted_equal)
  with ok s show ?thesis
    by (metis bm_ok_distinct distinct_map map_of_eqI eq_key_imp_eq_value inj_on_eq_iff
        map_eq_imp_length_eq map_injective nth_equalityI nth_map nth_mem)
qed

text \<open>How a sum over the entries moves under an update: the basis of every quota argument.\<close>

lemma sum_bm_insert:
  "bm_ok m \<Longrightarrow> bm_get m k = None \<Longrightarrow>
     sum_list (map f (bm_insert k v m)) = (f (k, v) :: nat) + sum_list (map f m)"
  by (induction k v m rule: bm_insert.induct) (auto split: if_splits)

lemma sum_bm_remove:
  "bm_get m k = Some v \<Longrightarrow>
     sum_list (map f m) = (f (k, v) :: nat) + sum_list (map f (bm_remove k m))"
  by (induction k m rule: bm_remove.induct) (auto split: if_splits)

lemma bm_insert_remove:
  "bm_ok m \<Longrightarrow> bm_insert k v (bm_remove k m) = bm_insert k v m"
  by (rule bm_eqI) auto

lemma bm_get_mem: "bm_ok m \<Longrightarrow> bm_get m k = Some v \<longleftrightarrow> (k, v) \<in> set m"
  by (simp add: bm_ok_distinct)

lemma bm_ok_map_values: "bm_ok (map (\<lambda>(k, v). (k, f k v)) m) \<longleftrightarrow> bm_ok m"
  by (simp add: bm_ok_def comp_def case_prod_unfold)

lemma bm_ok_filter: "bm_ok m \<Longrightarrow> bm_ok (filter P m)"
  by (induction m) auto

lemma bm_get_filter_key:
  "bm_get (filter (\<lambda>(k, v). P k) m) k = (if P k then bm_get m k else None)"
  by (induction m) auto

section \<open>Sets\<close>

fun bs_insert :: "'a::linorder \<Rightarrow> 'a btree_set \<Rightarrow> 'a btree_set" where
  "bs_insert x [] = [x]"
| "bs_insert x (y # s) =
     (if x < y then x # y # s else if x = y then y # s else y # bs_insert x s)"

fun bs_remove :: "'a::linorder \<Rightarrow> 'a btree_set \<Rightarrow> 'a btree_set" where
  "bs_remove x [] = []"
| "bs_remove x (y # s) = (if x = y then s else y # bs_remove x s)"

definition bs_ok :: "'a::linorder btree_set \<Rightarrow> bool" where
  "bs_ok s \<longleftrightarrow> sorted_wrt (<) s"

lemma bs_ok_Nil [simp]: "bs_ok []"
  by (simp add: bs_ok_def)

lemma bs_ok_Cons [simp]: "bs_ok (x # s) \<longleftrightarrow> (\<forall>y \<in> set s. x < y) \<and> bs_ok s"
  by (simp add: bs_ok_def)

lemma bs_ok_distinct: "bs_ok s \<Longrightarrow> distinct s"
  by (simp add: bs_ok_def strict_sorted_iff)

lemma set_bs_insert [simp]: "set (bs_insert x s) = insert x (set s)"
  by (induction x s rule: bs_insert.induct) auto

lemma bs_ok_insert [simp]: "bs_ok s \<Longrightarrow> bs_ok (bs_insert x s)"
  by (induction x s rule: bs_insert.induct) auto

lemma set_bs_remove [simp]: "bs_ok s \<Longrightarrow> set (bs_remove x s) = set s - {x}"
  by (induction x s rule: bs_remove.induct) auto

lemma set_bs_remove_subset: "set (bs_remove x s) \<subseteq> set s"
  by (induction x s rule: bs_remove.induct) auto

lemma bs_ok_remove [simp]: "bs_ok s \<Longrightarrow> bs_ok (bs_remove x s)"
  by (induction x s rule: bs_remove.induct) (use set_bs_remove_subset in fastforce)+

lemma bs_eqI: "bs_ok s \<Longrightarrow> bs_ok t \<Longrightarrow> set s = set t \<Longrightarrow> s = t"
  by (simp add: bs_ok_def strict_sorted_equal)

lemma bs_insert_nonempty [simp]: "bs_insert x s \<noteq> []"
  by (cases s) auto

lemma length_bs_insert:
  "bs_ok s \<Longrightarrow> length (bs_insert x s) = (if x \<in> set s then length s else Suc (length s))"
  by (induction x s rule: bs_insert.induct) auto

lemma length_bs_remove:
  "length (bs_remove x s) = (if x \<in> set s then length s - 1 else length s)"
  by (induction x s rule: bs_remove.induct) (auto, metis Suc_pred length_pos_if_in_set)

lemma bs_insert_member: "bs_ok s \<Longrightarrow> x \<in> set s \<Longrightarrow> bs_insert x s = s"
  by (rule bs_eqI) auto

lemma bs_remove_absent: "x \<notin> set s \<Longrightarrow> bs_remove x s = s"
  by (induction x s rule: bs_remove.induct) auto

lemma bs_ok_filter: "bs_ok s \<Longrightarrow> bs_ok (filter P s)"
  by (induction s) auto

definition bs_of_list :: "'a::linorder list \<Rightarrow> 'a btree_set" where
  "bs_of_list xs = fold bs_insert xs []"

lemma fold_bs_insert:
  "bs_ok s \<Longrightarrow> bs_ok (fold bs_insert xs s) \<and> set (fold bs_insert xs s) = set xs \<union> set s"
  by (induction xs arbitrary: s) auto

lemma bs_ok_of_list [simp]: "bs_ok (bs_of_list xs)"
  using fold_bs_insert [of "[]" xs] by (simp add: bs_of_list_def)

lemma set_bs_of_list [simp]: "set (bs_of_list xs) = set xs"
  using fold_bs_insert [of "[]" xs] by (simp add: bs_of_list_def)

section \<open>The contracts\<close>

text \<open>What a client of a map relies on: lookups after updates, and the
  representation invariant of every reachable map.\<close>

locale dictionary =
  fixes empty :: 'm
    and insert :: "'k \<Rightarrow> 'v \<Rightarrow> 'm \<Rightarrow> 'm"
    and remove :: "'k \<Rightarrow> 'm \<Rightarrow> 'm"
    and get :: "'m \<Rightarrow> 'k \<Rightarrow> 'v option"
    and ok :: "'m \<Rightarrow> bool"
  assumes get_empty: "get empty k = None"
    and get_insert: "ok m \<Longrightarrow> get (insert k v m) = (get m)(k \<mapsto> v)"
    and get_remove: "ok m \<Longrightarrow> get (remove k m) = (get m)(k := None)"
    and ok_empty: "ok empty"
    and ok_insert: "ok m \<Longrightarrow> ok (insert k v m)"
    and ok_remove: "ok m \<Longrightarrow> ok (remove k m)"
    and extensional: "ok m \<Longrightarrow> ok n \<Longrightarrow> get m = get n \<Longrightarrow> m = n"
begin

definition insert_all :: "('k \<times> 'v) list \<Rightarrow> 'm \<Rightarrow> 'm" where
  "insert_all es m = fold (\<lambda>(k, v). insert k v) es m"

lemma ok_insert_all: "ok m \<Longrightarrow> ok (insert_all es m)"
  by (induction es arbitrary: m) (auto simp: insert_all_def ok_insert)

lemma get_insert_all: "ok m \<Longrightarrow> get (insert_all es m) = get m ++ map_of (rev es)"
proof (induction es arbitrary: m)
  case Nil
  then show ?case by (simp add: insert_all_def)
next
  case (Cons e es)
  obtain k v where e: "e = (k, v)" by (cases e)
  have "get (insert_all (e # es) m) = get (insert_all es (insert k v m))"
    by (simp add: insert_all_def e)
  also have "\<dots> = (get m)(k \<mapsto> v) ++ map_of (rev es)"
    by (simp only: Cons.IH [OF ok_insert [OF Cons.prems]] get_insert [OF Cons.prems])
  finally show ?case by (simp add: e map_add_upd_left)
qed

lemma insert_commute:
  "ok m \<Longrightarrow> k \<noteq> l \<Longrightarrow> insert k v (insert l w m) = insert l w (insert k v m)"
  by (rule extensional) (auto simp: ok_insert get_insert fun_upd_twist)

lemma insert_overwrite: "ok m \<Longrightarrow> insert k v (insert k w m) = insert k v m"
  by (rule extensional) (auto simp: ok_insert get_insert)

lemma insert_all_permute:
  assumes "ok m" "distinct (map fst es)" "distinct (map fst fs)" "set es = set fs"
  shows "insert_all es m = insert_all fs m"
proof (rule extensional)
  have "map_of (rev es) = map_of (rev fs)"
    using assms by (intro map_of_inject_set [THEN iffD2]) (auto simp: rev_map [symmetric])
  with assms(1) show "get (insert_all es m) = get (insert_all fs m)"
    by (simp only: get_insert_all)
qed (use assms(1) in \<open>auto intro: ok_insert_all\<close>)

end

interpretation bm: dictionary "[]" bm_insert bm_remove map_of bm_ok
  by unfold_locales (auto intro: bm_eqI)

text \<open>What a client of an ordered set relies on.\<close>

locale key_set =
  fixes empty :: 's
    and insert :: "'a \<Rightarrow> 's \<Rightarrow> 's"
    and remove :: "'a \<Rightarrow> 's \<Rightarrow> 's"
    and members :: "'s \<Rightarrow> 'a set"
    and ok :: "'s \<Rightarrow> bool"
  assumes members_empty: "members empty = {}"
    and members_insert: "ok s \<Longrightarrow> members (insert x s) = {x} \<union> members s"
    and members_remove: "ok s \<Longrightarrow> members (remove x s) = members s - {x}"
    and ok_empty: "ok empty"
    and ok_insert: "ok s \<Longrightarrow> ok (insert x s)"
    and ok_remove: "ok s \<Longrightarrow> ok (remove x s)"
    and extensional: "ok s \<Longrightarrow> ok t \<Longrightarrow> members s = members t \<Longrightarrow> s = t"
begin

lemma remove_insert: "ok s \<Longrightarrow> x \<notin> members s \<Longrightarrow> remove x (insert x s) = s"
  by (rule extensional) (auto simp: ok_insert ok_remove members_insert members_remove)

lemma insert_remove: "ok s \<Longrightarrow> x \<in> members s \<Longrightarrow> insert x (remove x s) = s"
  by (rule extensional) (auto simp: ok_insert ok_remove members_insert members_remove)

lemma insert_left_commute: "ok s \<Longrightarrow> insert x (insert y s) = insert y (insert x s)"
  by (rule extensional) (auto simp: ok_insert members_insert)

end

interpretation bs: key_set "[]" bs_insert bs_remove set bs_ok
  by unfold_locales (auto intro: bs_eqI)

end
