(* ===== verification/Float64.thy ===== *)
theory Float64
  imports Float_Text
begin

unbundle bit_operations_syntax

text \<open>
  The part of IEEE-754 binary64 and binary32 the program computes with. A
  double is its 64 bits. Every finite double is an integral multiple of
  \<open>2 ^ (-1074)\<close>, so finite values are read as integers in that unit
  (\<open>f64_units\<close>), arithmetic is exact there, and \<open>f64_round\<close> rounds a quotient of
  naturals to the nearest double, ties to even.
\<close>

section \<open>Classification\<close>

definition f64_negative :: "u64 \<Rightarrow> bool" where
  "f64_negative w = bit w 63"

definition f64_exponent_bits :: "u64 \<Rightarrow> int" where
  "f64_exponent_bits w = (uint w div 4503599627370496) mod 2048"

definition f64_fraction_bits :: "u64 \<Rightarrow> int" where
  "f64_fraction_bits w = uint w mod 4503599627370496"

definition f64_is_nan :: "u64 \<Rightarrow> bool" where
  "f64_is_nan w \<longleftrightarrow> f64_exponent_bits w = 2047 \<and> f64_fraction_bits w \<noteq> 0"

definition f64_is_infinite :: "u64 \<Rightarrow> bool" where
  "f64_is_infinite w \<longleftrightarrow> f64_exponent_bits w = 2047 \<and> f64_fraction_bits w = 0"

definition f64_is_finite :: "u64 \<Rightarrow> bool" where
  "f64_is_finite w \<longleftrightarrow> f64_exponent_bits w \<noteq> 2047"

definition f64_is_zero :: "u64 \<Rightarrow> bool" where
  "f64_is_zero w \<longleftrightarrow> f64_exponent_bits w = 0 \<and> f64_fraction_bits w = 0"

definition F64_SIGN :: u64 where
  "F64_SIGN = 0x8000000000000000"

definition F64_INFINITY :: u64 where
  "F64_INFINITY = 0x7FF0000000000000"

definition f64_neg :: "u64 \<Rightarrow> u64" where
  "f64_neg w = w XOR F64_SIGN"

definition f64_abs :: "u64 \<Rightarrow> u64" where
  "f64_abs w = w AND (NOT F64_SIGN)"

section \<open>Values and rounding\<close>

text \<open>Magnitudes are non-negative integers in units of \<open>2 ^ (-1074)\<close>; \<open>F64_ONE\<close> is \<open>1.0\<close>.\<close>

definition F64_ONE :: int where
  "F64_ONE = push_bit 1074 1"

definition f64_magnitude :: "u64 \<Rightarrow> int" where
  "f64_magnitude w =
     (let e = f64_exponent_bits w; m = f64_fraction_bits w
      in if e = 0 then m else push_bit (nat (e - 1)) (4503599627370496 + m))"

definition f64_units :: "u64 \<Rightarrow> int" where
  "f64_units w = (if f64_negative w then - f64_magnitude w else f64_magnitude w)"

text \<open>The position of the highest set bit of a positive number.\<close>

function ilog2 :: "int \<Rightarrow> nat" where
  "ilog2 n = (if n < 2 then 0 else Suc (ilog2 (n div 2)))"
  by pat_completeness auto
termination
  by (relation "measure nat") auto

declare ilog2.simps [simp del]

definition round_div_even :: "int \<Rightarrow> int \<Rightarrow> int" where
  "round_div_even p q =
     (let n = p div q; r = p mod q
      in if 2 * r > q \<or> (2 * r = q \<and> odd n) then n + 1 else n)"

text \<open>The double of a magnitude that is representable, in units.\<close>

definition f64_of_magnitude :: "int \<Rightarrow> u64" where
  "f64_of_magnitude n =
     (if n < 4503599627370496 then of_int n
      else let e = ilog2 n - 52
           in if e + 1 \<ge> 2047 then F64_INFINITY
              else of_int (int e * 4503599627370496 + drop_bit e n))"

text \<open>The double nearest to \<open>p / q\<close> units.\<close>

definition f64_round :: "int \<Rightarrow> int \<Rightarrow> u64" where
  "f64_round p q =
     (let e = (if p div q < 9007199254740992 then 0 else ilog2 (p div q) - 52)
      in f64_of_magnitude (push_bit e (round_div_even p (push_bit e q))))"

definition f64_signed :: "bool \<Rightarrow> u64 \<Rightarrow> u64" where
  "f64_signed neg w = (if neg then f64_neg w else w)"

definition f64_of_units :: "int \<Rightarrow> u64" where
  "f64_of_units i = f64_signed (i < 0) (f64_round \<bar>i\<bar> 1)"

text \<open>Addition and multiplication of finite doubles. A sum that is exactly zero is
  \<open>+0\<close> unless both operands are negative; a product has the product of the signs.\<close>

definition f64_add :: "u64 \<Rightarrow> u64 \<Rightarrow> u64" where
  "f64_add a b =
     (let s = f64_units a + f64_units b
      in if s = 0 then f64_signed (f64_negative a \<and> f64_negative b) 0 else f64_of_units s)"

definition f64_sub :: "u64 \<Rightarrow> u64 \<Rightarrow> u64" where
  "f64_sub a b = f64_add a (f64_neg b)"

definition f64_mul :: "u64 \<Rightarrow> u64 \<Rightarrow> u64" where
  "f64_mul a b =
     f64_signed (f64_negative a \<noteq> f64_negative b)
       (f64_round (f64_magnitude a * f64_magnitude b) F64_ONE)"

text \<open>\<open>i64 as f64\<close> and the truncating \<open>f64 as i64\<close> on a finite value in range.\<close>

definition f64_of_int :: "int \<Rightarrow> u64" where
  "f64_of_int i = f64_signed (i < 0) (f64_round (\<bar>i\<bar> * F64_ONE) 1)"

definition f64_trunc :: "u64 \<Rightarrow> int" where
  "f64_trunc w = (let n = f64_magnitude w div F64_ONE in if f64_negative w then - n else n)"

definition f64_is_integral :: "u64 \<Rightarrow> bool" where
  "f64_is_integral w \<longleftrightarrow> f64_magnitude w mod F64_ONE = 0"

text \<open>\<open>str::parse::<f64>\<close>: the grammar of \<open>Float_Text\<close>, correctly rounded.\<close>

definition f64_of_text :: "f64_text \<Rightarrow> u64" where
  "f64_of_text t =
     (case t of
        Decimal_Text neg m e \<Rightarrow>
          f64_signed neg
            (if 0 \<le> e then f64_round (m * 10 ^ nat e * F64_ONE) 1
             else f64_round (m * F64_ONE) (10 ^ nat (- e)))
      | Inf_Text neg \<Rightarrow> f64_signed neg F64_INFINITY
      | Nan_Text \<Rightarrow> 0x7FF8000000000000)"

definition parse_f64 :: "bytes \<Rightarrow> u64 option" where
  "parse_f64 b = map_option f64_of_text (parse_f64_text b)"

section \<open>Total order\<close>

text \<open>\<open>f64::total_cmp\<close> compares the bits as signed integers after flipping the
  other bits of the negative ones.\<close>

definition f64_total_key :: "u64 \<Rightarrow> int" where
  "f64_total_key w = sint (if bit w 63 then w XOR 0x7FFFFFFFFFFFFFFF else w)"

lemma f64_total_key_inj: "f64_total_key v = f64_total_key w \<longleftrightarrow> v = w"
proof
  assume "f64_total_key v = f64_total_key w"
  then have e: "(if bit v 63 then v XOR 0x7FFFFFFFFFFFFFFF else v) =
      (if bit w 63 then w XOR 0x7FFFFFFFFFFFFFFF else w)"
    by (simp add: f64_total_key_def signed_word_eqI)
  have top: "bit (x XOR 0x7FFFFFFFFFFFFFFF) 63 = bit x 63" for x :: u64
    by (simp add: bit_xor_iff)
  have flip: "(x XOR m) XOR m = x" for x m :: u64
    by (simp add: xor.assoc)
  show "v = w"
    using e top [of v] top [of w] flip [of v] flip [of w] by (metis (no_types))
qed simp

section \<open>Binary32\<close>

definition u32_of_le_bytes :: "bytes \<Rightarrow> u32" where
  "u32_of_le_bytes b = of_int (foldr (\<lambda>c n. of_char c + 256 * n) b 0)"

definition f32_is_finite :: "u32 \<Rightarrow> bool" where
  "f32_is_finite w \<longleftrightarrow> w AND 0x7F800000 \<noteq> 0x7F800000"

text \<open>\<open>f64::from(f32)\<close> of a finite value is exact.\<close>

definition f64_of_f32 :: "u32 \<Rightarrow> u64" where
  "f64_of_f32 w =
     (let e = (uint w div 8388608) mod 256; m = uint w mod 8388608
      in f64_signed (bit w 31)
           (f64_of_magnitude
             (if e = 0 then push_bit 925 m else push_bit (nat e + 924) (8388608 + m))))"

definition f64_to_le_bytes :: "u64 \<Rightarrow> bytes" where
  "f64_to_le_bytes w = map (\<lambda>i. char_of (uint w div 256 ^ i mod 256)) [0..<8]"

text \<open>\<open>chunks_exact(n)\<close>: the remainder is dropped.\<close>

fun chunks_exact :: "nat \<Rightarrow> 'a list \<Rightarrow> 'a list list" where
  "chunks_exact n xs =
     (if n = 0 \<or> length xs < n then [] else take n xs # chunks_exact n (drop n xs))"

declare chunks_exact.simps [simp del]

end
