(* ===== verification/Command_Base.thy ===== *)
theory Command_Base
  imports Prelude
begin

text \<open>
  The option types and the integer parser that commands and memory operations
  share (\<open>src/src/command/mod.rs\<close>). A \<open>Duration\<close> is a
  non-negative number of nanoseconds.
\<close>

datatype set_condition = Always | Missing | Present

datatype set_expiry = Persistent | Keep | After int

record set_options =
  condition :: set_condition
  expiry :: set_expiry
  return_previous :: bool

definition default_options :: set_options where
  "default_options = \<lparr>condition = Always, expiry = Persistent, return_previous = False\<rparr>"

datatype expiry_unit = Seconds | Milliseconds

definition NANOS_PER_MILLI :: int where
  "NANOS_PER_MILLI = 1000000"

definition duration_from_millis :: "int \<Rightarrow> int" where
  "duration_from_millis ms = ms * NANOS_PER_MILLI"

definition duration_as_millis :: "int \<Rightarrow> int" where
  "duration_as_millis d = d div NANOS_PER_MILLI"

lemma as_millis_from_millis [simp]: "duration_as_millis (duration_from_millis ms) = ms"
  by (simp add: duration_as_millis_def duration_from_millis_def NANOS_PER_MILLI_def)

section \<open>Canonical decimals\<close>

text \<open>\<open>str::parse::<i64>\<close> on a text of digits with an optional minus sign.\<close>

definition decimal_value :: "bytes \<Rightarrow> int" where
  "decimal_value ds = foldl (\<lambda>n c. 10 * n + int (digit_value c)) 0 ds"

definition is_digit_1_9 :: "byte \<Rightarrow> bool" where
  "is_digit_1_9 c \<longleftrightarrow> 49 \<le> (of_char c :: nat) \<and> (of_char c :: nat) \<le> 57"

definition parse_decimal :: "bytes \<Rightarrow> int option" where
  "parse_decimal value =
     (if value = ''0'' then Some 0
      else
        let (negative, digits) =
              (case value of c # r \<Rightarrow> if c = CHR ''-'' then (True, r) else (False, value) | [] \<Rightarrow> (False, []))
        in if digits = [] \<or> \<not> is_digit_1_9 (hd digits) \<or> \<not> list_all is_ascii_digit digits then None
           else i64_checked (if negative then - decimal_value digits else decimal_value digits))"

lemma decimal_value_digits: "decimal_value ds = int (digits_value ds)"
proof -
  have "foldl (\<lambda>n c. 10 * n + int (digit_value c)) (int k) ds
      = int (foldl (\<lambda>n c. 10 * n + digit_value c) k ds)" for k
  proof (induction ds arbitrary: k)
    case (Cons c ds)
    from Cons [of "10 * k + digit_value c"] show ?case by simp
  qed simp
  from this [of 0] show ?thesis by (simp add: decimal_value_def digits_value_def)
qed

lemma is_digit_1_9_digit: "is_ascii_digit c \<Longrightarrow> c \<noteq> digit 0 \<Longrightarrow> is_digit_1_9 c"
  using digit_neq_iff [of 0 c] by (auto simp: is_digit_1_9_def is_ascii_digit_def)

lemma parse_decimal_dec_digits:
  assumes "0 < n"
  shows "list_all is_ascii_digit (dec_digits n)" "is_digit_1_9 (hd (dec_digits n))"
  using assms hd_dec_digits_nonzero [of n] dec_digits_are_digits [of "hd (dec_digits n)" n]
  by (auto simp: list_all_iff dec_digits_are_digits intro: is_digit_1_9_digit)

lemma dec_digits_0: "dec_digits 0 = ''0''"
  by code_simp

lemma parse_decimal_text:
  assumes "list_all is_ascii_digit ds" "ds \<noteq> []" "is_digit_1_9 (hd ds)"
  shows "parse_decimal ds = i64_checked (decimal_value ds)"
    "parse_decimal (CHR ''-'' # ds) = i64_checked (- decimal_value ds)"
proof -
  obtain c r where ds: "ds = c # r" using assms(2) by (cases ds) auto
  with assms(3) have "c \<noteq> CHR ''-''" "c \<noteq> CHR ''0''" by (auto simp: is_digit_1_9_def)
  with assms ds show "parse_decimal ds = i64_checked (decimal_value ds)"
    "parse_decimal (CHR ''-'' # ds) = i64_checked (- decimal_value ds)"
    by (auto simp: parse_decimal_def)
qed

text \<open>Printing an \<open>i64\<close> and parsing it back is the identity.\<close>

lemma parse_decimal_int_to_string:
  assumes "i64_ok i"
  shows "parse_decimal (int_to_string i) = Some i"
proof (cases "i = 0")
  case True
  then show ?thesis by (simp add: parse_decimal_def int_to_string_def dec_digits_0)
next
  case False
  then have "0 < nat \<bar>i\<bar>" by simp
  note d = parse_decimal_dec_digits [OF this]
  show ?thesis
    using parse_decimal_text [OF d(1) _ d(2)] assms
    by (auto simp: int_to_string_def decimal_value_digits i64_checked_def)
qed

end
