(* ===== verification/Memory.thy ===== *)
theory Memory
  imports Ordered Float64 Command_Base "HOL-Library.Multiset"
begin

text \<open>
  Memory collections (\<open>src/src/storage/memory.rs\<close>): descriptors, members, the
  validated images, guarded edits, and the bounded exact top-k search.
  Lengths of byte strings are naturals; \<open>u32\<close> and \<open>usize\<close> fields are naturals
  that validation bounds far below their widths.
\<close>

section \<open>Data\<close>

record descriptor =
  dimension :: nat
  provider :: bytes
  model :: bytes
  revision :: bytes
  transform :: bytes

datatype scalar = SBytes bytes | SInteger int | SBool bool

record member =
  mem_id :: bytes
  mem_namespace :: bytes
  mem_content :: bytes
  mem_vector :: bytes
  mem_deadline :: "int option"
  mem_metadata :: "(bytes, scalar) btree_map"
  mem_provenance :: "(bytes, bytes) btree_map"

datatype ttl = TtlPersistent | TtlKeep | TtlAfter int

datatype operation =
    OpCreate descriptor
  | OpInfo
  | OpPut descriptor member ttl set_condition
  | OpGet bytes
  | OpDelete bytes
  | OpPttl bytes
  | OpExpire bytes int
  | OpPersist bytes
  | OpSearch descriptor bytes nat bytes "(bytes, scalar) btree_map"

fun operation_writes_dataset :: "operation \<Rightarrow> bool" where
  "operation_writes_dataset OpInfo = False"
| "operation_writes_dataset (OpGet _) = False"
| "operation_writes_dataset (OpPttl _) = False"
| "operation_writes_dataset (OpSearch _ _ _ _ _) = False"
| "operation_writes_dataset _ = True"

fun operation_command_name :: "operation \<Rightarrow> string" where
  "operation_command_name (OpCreate _) = ''MEM.CREATE''"
| "operation_command_name OpInfo = ''MEM.INFO''"
| "operation_command_name (OpPut _ _ _ _) = ''MEM.PUT''"
| "operation_command_name (OpGet _) = ''MEM.GET''"
| "operation_command_name (OpDelete _) = ''MEM.DEL''"
| "operation_command_name (OpPttl _) = ''MEM.PTTL''"
| "operation_command_name (OpExpire _ _) = ''MEM.EXPIRE''"
| "operation_command_name (OpPersist _) = ''MEM.PERSIST''"
| "operation_command_name (OpSearch _ _ _ _ _) = ''MEM.SEARCH''"

definition MAX_DIMENSION :: nat where "MAX_DIMENSION = 4096"

definition MAX_MEMBERS :: nat where "MAX_MEMBERS = 1024"

definition MAX_COLLECTION_BYTES :: nat where "MAX_COLLECTION_BYTES = 8388608"

definition MAX_COMPONENTS :: nat where "MAX_COMPONENTS = 1048576"

definition MAX_SEARCH_K :: nat where "MAX_SEARCH_K = 128"

definition MAX_EDITS :: nat where "MAX_EDITS = 64"

datatype memory_error =
  MeArgument | MeDimension | MeNonFinite | MeIdentity | MeDeadline | MeQuota | MeEditOrder
  | MeMissingMember

section \<open>Validation and sizes\<close>

definition bounded :: "bytes \<Rightarrow> nat \<Rightarrow> nat \<Rightarrow> memory_error + unit" where
  "bounded value minimum maximum =
     ensure (minimum \<le> length value \<and> length value \<le> maximum) MeArgument"

fun res_all_ok :: "('a \<Rightarrow> 'e + unit) \<Rightarrow> 'a list \<Rightarrow> 'e + unit" where
  "res_all_ok f [] = Inr ()"
| "res_all_ok f (x # xs) = res_bind (f x) (\<lambda>_. res_all_ok f xs)"

definition validate_descriptor :: "descriptor \<Rightarrow> memory_error + unit" where
  "validate_descriptor d =
     res_bind (ensure (1 \<le> dimension d \<and> dimension d \<le> MAX_DIMENSION) MeDimension) (\<lambda>_.
       res_all_ok (\<lambda>value. bounded value 1 256) [provider d, model d, revision d, transform d])"

definition descriptor_logical_bytes :: "descriptor \<Rightarrow> nat" where
  "descriptor_logical_bytes d =
     256 + length (provider d) + length (model d) + length (revision d) + length (transform d)"

definition descriptor_encoded_bytes :: "descriptor \<Rightarrow> nat" where
  "descriptor_encoded_bytes d =
     26 + length (provider d) + length (model d) + length (revision d) + length (transform d)"

fun scalar_logical_bytes :: "scalar \<Rightarrow> nat" where
  "scalar_logical_bytes (SBytes v) = length v"
| "scalar_logical_bytes (SInteger _) = 8"
| "scalar_logical_bytes (SBool _) = 1"

fun scalar_canonical_bytes :: "scalar \<Rightarrow> nat" where
  "scalar_canonical_bytes (SBytes v) = length v"
| "scalar_canonical_bytes (SInteger i) = length (int_to_string i)"
| "scalar_canonical_bytes (SBool _) = 1"

fun scalar_encoded_bytes :: "scalar \<Rightarrow> nat" where
  "scalar_encoded_bytes (SBytes v) = 5 + length v"
| "scalar_encoded_bytes (SInteger _) = 9"
| "scalar_encoded_bytes (SBool _) = 2"

text \<open>Both tests for a finite coordinate the sources use: the exponent bits, and \<open>is_finite\<close>.\<close>

definition vector_finite :: "bytes \<Rightarrow> bool" where
  "vector_finite v \<longleftrightarrow> list_all (\<lambda>c. f32_is_finite (u32_of_le_bytes c)) (chunks_exact 4 v)"

fun metadata_bytes :: "(bytes, scalar) btree_map \<Rightarrow> nat \<Rightarrow> memory_error + nat" where
  "metadata_bytes [] aggregate = Inr aggregate"
| "metadata_bytes ((field, scalar) # rest) aggregate =
     res_bind (bounded field 1 64) (\<lambda>_.
       res_bind (case scalar of SBytes value \<Rightarrow> bounded value 0 4096 | _ \<Rightarrow> Inr ()) (\<lambda>_.
         res_bind (ok_or (Option.bind (checked_add aggregate (length field)) (\<lambda>n.
             checked_add n (scalar_canonical_bytes scalar))) MeArgument)
           (metadata_bytes rest)))"

fun provenance_bytes :: "(bytes, bytes) btree_map \<Rightarrow> nat \<Rightarrow> memory_error + nat" where
  "provenance_bytes [] aggregate = Inr aggregate"
| "provenance_bytes ((field, value) # rest) aggregate =
     res_bind (bounded field 1 64) (\<lambda>_.
       res_bind (bounded value 0 4096) (\<lambda>_.
         res_bind (ok_or (Option.bind (checked_add aggregate (length field)) (\<lambda>n.
             checked_add n (length value))) MeArgument)
           (provenance_bytes rest)))"

definition validate_member :: "member \<Rightarrow> descriptor \<Rightarrow> memory_error + unit" where
  "validate_member m d =
     res_bind (validate_descriptor d) (\<lambda>_.
     res_bind (bounded (mem_id m) 1 256) (\<lambda>_.
     res_bind (bounded (mem_namespace m) 0 256) (\<lambda>_.
     res_bind (bounded (mem_content m) 0 65536) (\<lambda>_.
     res_bind (ensure (length (mem_vector m) = dimension d * 4) MeDimension) (\<lambda>_.
     res_bind (ensure (vector_finite (mem_vector m)) MeNonFinite) (\<lambda>_.
     res_bind (ensure (case mem_deadline m of None \<Rightarrow> True | Some deadline \<Rightarrow> deadline > 0) MeDeadline) (\<lambda>_.
     res_bind (ensure (length (mem_metadata m) \<le> 32 \<and> length (mem_provenance m) \<le> 16) MeArgument) (\<lambda>_.
     res_bind (metadata_bytes (mem_metadata m) 0) (\<lambda>aggregate.
     res_bind (provenance_bytes (mem_provenance m) aggregate) (\<lambda>aggregate.
     ensure (aggregate \<le> 32768) MeArgument))))))))))"

definition member_logical_bytes :: "member \<Rightarrow> nat" where
  "member_logical_bytes m =
     256 + length (mem_id m) + length (mem_namespace m) + length (mem_content m) + length (mem_vector m)
     + sum_list (map (\<lambda>(field, value). 64 + length field + scalar_logical_bytes value) (mem_metadata m))
     + sum_list (map (\<lambda>(field, value). 64 + length field + length value) (mem_provenance m))"

definition member_encoded_bytes :: "member \<Rightarrow> nat" where
  "member_encoded_bytes m =
     33 + length (mem_id m) + length (mem_namespace m) + length (mem_content m) + length (mem_vector m)
     + sum_list (map (\<lambda>(field, value). 4 + length field + scalar_encoded_bytes value) (mem_metadata m))
     + sum_list (map (\<lambda>(field, value). 8 + length field + length value) (mem_provenance m))"

datatype edit = Upsert member | Remove bytes

fun edit_id :: "edit \<Rightarrow> bytes" where
  "edit_id (Upsert m) = mem_id m"
| "edit_id (Remove ident) = ident"

fun edit_encoded_bytes :: "edit \<Rightarrow> nat" where
  "edit_encoded_bytes (Upsert m) = 1 + member_encoded_bytes m"
| "edit_encoded_bytes (Remove ident) = 5 + length ident"

section \<open>Collections\<close>

record collection =
  coll_descriptor :: descriptor
  coll_members :: "(bytes, member) btree_map"
  coll_logical_bytes :: nat
  coll_encoded_bytes :: nat

definition collection_new :: "descriptor \<Rightarrow> memory_error + collection" where
  "collection_new d =
     res_bind (validate_descriptor d) (\<lambda>_.
       Inr \<lparr>coll_descriptor = d, coll_members = [],
            coll_logical_bytes = descriptor_logical_bytes d,
            coll_encoded_bytes = descriptor_encoded_bytes d + 4\<rparr>)"

definition too_many_components :: "collection \<Rightarrow> bool" where
  "too_many_components c \<longleftrightarrow>
     length (coll_members c) > MAX_MEMBERS
     \<or> (case checked_mul (length (coll_members c)) (dimension (coll_descriptor c)) of
          None \<Rightarrow> True | Some work \<Rightarrow> work > MAX_COMPONENTS)"

definition validate_key :: "collection \<Rightarrow> bytes \<Rightarrow> memory_error + unit" where
  "validate_key c key =
     res_bind (bounded key 1 256) (\<lambda>_.
       ensure (\<not> (too_many_components c
           \<or> (case Option.bind (checked_add (coll_logical_bytes c) 128) (\<lambda>n. checked_add n (length key)) of
                None \<Rightarrow> True | Some sz \<Rightarrow> sz > MAX_COLLECTION_BYTES))) MeQuota)"

text \<open>Inserting one member: both cached sums grow, or the quota error is returned.\<close>

definition add_member :: "member \<Rightarrow> collection \<Rightarrow> memory_error + collection" where
  "add_member m c =
     res_bind (ok_or (checked_add (coll_logical_bytes c) (member_logical_bytes m)) MeQuota) (\<lambda>logical.
       res_bind (ok_or (checked_add (coll_encoded_bytes c) (member_encoded_bytes m)) MeQuota) (\<lambda>encoded.
         Inr (c\<lparr>coll_logical_bytes := logical, coll_encoded_bytes := encoded,
                coll_members := bm_insert (mem_id m) m (coll_members c)\<rparr>)))"

fun add_members :: "member list \<Rightarrow> bytes option \<Rightarrow> collection \<Rightarrow> memory_error + collection" where
  "add_members [] previous c = Inr c"
| "add_members (m # ms) previous c =
     res_bind (validate_member m (coll_descriptor c)) (\<lambda>_.
       res_bind (ensure (\<not> (case previous of None \<Rightarrow> False | Some ident \<Rightarrow> ident \<ge> mem_id m)) MeEditOrder) (\<lambda>_.
         res_bind (add_member m c) (add_members ms (Some (mem_id m)))))"

definition from_members :: "descriptor \<Rightarrow> member list \<Rightarrow> bytes \<Rightarrow> memory_error + collection" where
  "from_members d ms key =
     res_bind (collection_new d) (\<lambda>c.
       res_bind (add_members ms None c) (\<lambda>c.
         res_bind (validate_key c key) (\<lambda>_. Inr c)))"

definition live_member :: "collection \<Rightarrow> bytes \<Rightarrow> int \<Rightarrow> member option" where
  "live_member c ident unix_ms =
     opt_filter (\<lambda>m. case mem_deadline m of None \<Rightarrow> True | Some deadline \<Rightarrow> deadline > unix_ms)
       (bm_get (coll_members c) ident)"

fun validate_edits_from :: "descriptor \<Rightarrow> bytes option \<Rightarrow> edit list \<Rightarrow> memory_error + unit" where
  "validate_edits_from d previous [] = Inr ()"
| "validate_edits_from d previous (e # es) =
     res_bind (bounded (edit_id e) 1 256) (\<lambda>_.
       res_bind (ensure (\<not> (case previous of None \<Rightarrow> False | Some ident \<Rightarrow> ident \<ge> edit_id e)) MeEditOrder) (\<lambda>_.
         res_bind (case e of Upsert m \<Rightarrow> validate_member m d | Remove _ \<Rightarrow> Inr ()) (\<lambda>_.
           validate_edits_from d (Some (edit_id e)) es)))"

definition validate_edits :: "descriptor \<Rightarrow> edit list \<Rightarrow> memory_error + unit" where
  "validate_edits d es = res_bind (validate_descriptor d) (\<lambda>_. validate_edits_from d None es)"

definition drop_member :: "bytes \<Rightarrow> member \<Rightarrow> collection \<Rightarrow> collection" where
  "drop_member ident previous c =
     c\<lparr>coll_members := bm_remove ident (coll_members c),
       coll_logical_bytes := wrapping_sub (coll_logical_bytes c) (member_logical_bytes previous),
       coll_encoded_bytes := wrapping_sub (coll_encoded_bytes c) (member_encoded_bytes previous)\<rparr>"

definition apply_edit :: "edit \<Rightarrow> collection \<Rightarrow> memory_error + collection" where
  "apply_edit e c =
     res_bind
       (case bm_get (coll_members c) (edit_id e) of
          Some previous \<Rightarrow> Inr (drop_member (edit_id e) previous c)
        | None \<Rightarrow> (case e of Remove _ \<Rightarrow> Inl MeMissingMember | Upsert _ \<Rightarrow> Inr c))
       (\<lambda>c. case e of Upsert m \<Rightarrow> add_member m c | Remove _ \<Rightarrow> Inr c)"

fun apply_edit_list :: "edit list \<Rightarrow> collection \<Rightarrow> memory_error + collection" where
  "apply_edit_list [] c = Inr c"
| "apply_edit_list (e # es) c = res_bind (apply_edit e c) (apply_edit_list es)"

definition apply_edits :: "collection \<Rightarrow> descriptor \<Rightarrow> edit list \<Rightarrow> bytes \<Rightarrow> memory_error + collection" where
  "apply_edits c d es key =
     res_bind (ensure (d = coll_descriptor c) MeIdentity) (\<lambda>_.
       res_bind (ensure (length es \<le> MAX_EDITS) MeArgument) (\<lambda>_.
         res_bind (validate_edits d es) (\<lambda>_.
           res_bind (apply_edit_list es c) (\<lambda>candidate.
             res_bind (validate_key candidate key) (\<lambda>_. Inr candidate)))))"

definition expired_edits :: "collection \<Rightarrow> int \<Rightarrow> nat \<Rightarrow> edit list" where
  "expired_edits c unix_ms budget =
     map (\<lambda>(ident, _). Remove ident)
       (take (min budget MAX_EDITS)
         (filter (\<lambda>(_, m). case mem_deadline m of None \<Rightarrow> False | Some deadline \<Rightarrow> deadline \<le> unix_ms)
           (coll_members c)))"

section \<open>Search\<close>

type_synonym search_hit = "u64 \<times> bytes"

text \<open>The order of hits: distance by \<open>total_cmp\<close>, then the identifier. A
  \<open>BinaryHeap\<close> is observed through \<open>push\<close>, \<open>peek\<close> and \<open>pop\<close> of its greatest element
  and \<open>into_sorted_vec\<close>; it is the ascending list of its elements.\<close>

definition hit_key :: "search_hit \<Rightarrow> int \<times> bytes" where
  "hit_key h = (f64_total_key (fst h), snd h)"

record search_stats =
  visits :: nat
  components :: nat

definition matches_member ::
  "bytes \<Rightarrow> (bytes, scalar) btree_map \<Rightarrow> int \<Rightarrow> (member \<Rightarrow> bool) \<Rightarrow> member \<Rightarrow> bool" where
  "matches_member namespace metadata unix_ms visible m \<longleftrightarrow>
     \<not> ((case mem_deadline m of None \<Rightarrow> False | Some deadline \<Rightarrow> deadline \<le> unix_ms)
        \<or> \<not> visible m \<or> mem_namespace m \<noteq> namespace
        \<or> \<not> list_all (\<lambda>(field, value). bm_get (mem_metadata m) field = Some value) metadata)"

definition coordinate :: "bytes \<Rightarrow> u64" where
  "coordinate c = f64_of_f32 (u32_of_le_bytes c)"

definition squared_distance :: "bytes \<Rightarrow> bytes \<Rightarrow> u64" where
  "squared_distance query stored =
     foldl (\<lambda>distance (q, s). let delta = f64_sub (coordinate q) (coordinate s)
                               in f64_add distance (f64_mul delta delta))
       0 (zip (chunks_exact 4 query) (chunks_exact 4 stored))"

definition offer_hit :: "nat \<Rightarrow> search_hit \<Rightarrow> search_hit list \<Rightarrow> search_hit list" where
  "offer_hit k candidate best =
     (if length best < k then insort_key hit_key candidate best
      else if best \<noteq> [] \<and> hit_key candidate < hit_key (last best)
      then insort_key hit_key candidate (butlast best)
      else best)"

fun search_members ::
  "member list \<Rightarrow> bytes \<Rightarrow> nat \<Rightarrow> (member \<Rightarrow> bool) \<Rightarrow> search_hit list \<Rightarrow> search_stats
    \<Rightarrow> search_hit list \<times> search_stats" where
  "search_members [] vector k matches best stats = (best, stats)"
| "search_members (m # ms) vector k matches best stats =
     (let stats = stats\<lparr>visits := visits stats + 1\<rparr>
      in if \<not> matches m then search_members ms vector k matches best stats
         else search_members ms vector k matches
                (offer_hit k (squared_distance vector (mem_vector m), mem_id m) best)
                (stats\<lparr>components := components stats
                   + length (zip (chunks_exact 4 vector) (chunks_exact 4 (mem_vector m)))\<rparr>))"

definition validate_filter :: "(bytes, scalar) btree_map \<Rightarrow> memory_error + unit" where
  "validate_filter metadata =
     res_all_ok (\<lambda>(field, value).
       res_bind (bounded field 1 64) (\<lambda>_.
         case value of SBytes v \<Rightarrow> bounded v 0 4096 | _ \<Rightarrow> Inr ())) metadata"

definition validate_search_vector :: "collection \<Rightarrow> bytes \<Rightarrow> memory_error + unit" where
  "validate_search_vector c vector =
     res_bind (ensure (length vector = dimension (coll_descriptor c) * 4) MeDimension) (\<lambda>_.
       ensure (vector_finite vector) MeNonFinite)"

definition search_with_visibility_stats ::
  "collection \<Rightarrow> bytes \<Rightarrow> nat \<Rightarrow> bytes \<Rightarrow> (bytes, scalar) btree_map \<Rightarrow> int \<Rightarrow> (member \<Rightarrow> bool)
    \<Rightarrow> memory_error + (bytes \<times> u64) list \<times> search_stats" where
  "search_with_visibility_stats c vector k namespace metadata unix_ms visible =
     res_bind (ensure (1 \<le> k \<and> k \<le> MAX_SEARCH_K) MeArgument) (\<lambda>_.
     res_bind (bounded namespace 0 256) (\<lambda>_.
     res_bind (ensure (length metadata \<le> 32) MeArgument) (\<lambda>_.
     res_bind (validate_filter metadata) (\<lambda>_.
     res_bind (validate_search_vector c vector) (\<lambda>_.
     res_bind (ensure (\<not> too_many_components c) MeQuota) (\<lambda>_.
       let (best, stats) = search_members (map snd (coll_members c)) vector k
             (matches_member namespace metadata unix_ms visible) [] \<lparr>visits = 0, components = 0\<rparr>
       in Inr (map (\<lambda>(distance, ident). (ident, distance)) best, stats)))))))"

definition search ::
  "collection \<Rightarrow> bytes \<Rightarrow> nat \<Rightarrow> bytes \<Rightarrow> (bytes, scalar) btree_map \<Rightarrow> int
    \<Rightarrow> memory_error + (bytes \<times> u64) list" where
  "search c vector k namespace metadata unix_ms =
     res_bind (search_with_visibility_stats c vector k namespace metadata unix_ms (\<lambda>_. True))
       (\<lambda>(hits, _). Inr hits)"


section \<open>The search is exact\<close>

lemma hit_key_inj: "hit_key a = hit_key b \<longleftrightarrow> a = b"
  by (auto simp: hit_key_def f64_total_key_inj prod_eq_iff)

lemma take_insort_key:
  assumes "sorted (map f xs)" "f h \<notin> f ` set xs"
  shows "take (Suc k) (insort_key f h xs) =
    (if length xs < Suc k then insort_key f h xs
     else if f h < f (xs ! k) then insort_key f h (take k xs) else take (Suc k) xs)"
  using assms
proof (induction xs arbitrary: k)
  case (Cons x xs)
  show ?case
  proof (cases k)
    case 0
    with Cons.prems show ?thesis by auto
  next
    case (Suc j)
    have "f h < f ((x # xs) ! k)" if "f h \<le> f x" "length xs \<ge> k" "0 < k"
    proof -
      have "xs ! (k - 1) \<in> set xs" using that by simp
      then have "f x \<le> f (xs ! (k - 1))" using Cons.prems(1) by simp
      moreover have "f h \<noteq> f x" using Cons.prems(2) by auto
      ultimately show ?thesis using that by (simp add: nth_Cons')
    qed
    with Cons.IH [of j] Cons.prems Suc show ?thesis by auto
  qed
qed simp

lemma offer_hit_take:
  assumes "sorted (map hit_key xs)" "h \<notin> set xs" "0 < k"
  shows "offer_hit k h (take k xs) = take k (insort_key hit_key h xs)"
proof -
  obtain j where j: "k = Suc j" using assms(3) by (cases k) auto
  have "hit_key h \<notin> hit_key ` set xs" using assms(2) by (auto simp: hit_key_inj)
  note t = take_insort_key [OF assms(1) this, of j]
  show ?thesis
  proof (cases "length xs < k")
    case True
    with t j show ?thesis by (simp add: offer_hit_def)
  next
    case False
    then have "last (take k xs) = xs ! j" "butlast (take k xs) = take j xs" "take k xs \<noteq> []"
      using j by (auto simp: take_Suc_conv_app_nth)
    with t j False show ?thesis by (simp add: offer_hit_def)
  qed
qed

lemma search_members_exact:
  assumes "distinct (map mem_id ms)" "0 < k" "sorted (map hit_key xs)"
    "\<forall>h \<in> set xs. snd h \<notin> mem_id ` set ms"
  shows "fst (search_members ms vector k matches (take k xs) stats) =
    take k (fold (insort_key hit_key)
      (map (\<lambda>m. (squared_distance vector (mem_vector m), mem_id m)) (filter matches ms)) xs)"
  using assms
proof (induction ms arbitrary: xs stats)
  case (Cons m ms)
  let ?h = "(squared_distance vector (mem_vector m), mem_id m)"
  show ?case
  proof (cases "matches m")
    case True
    have "?h \<notin> set xs" using Cons.prems(4) by fastforce
    with Cons.prems have o: "offer_hit k ?h (take k xs) = take k (insort_key hit_key ?h xs)"
      by (intro offer_hit_take) auto
    show ?thesis
      using True Cons.prems o
      by (simp add: Let_def, subst Cons.IH) (auto simp: sorted_insort_key set_insort_key)
  next
    case False
    with Cons show ?thesis by (simp add: Let_def)
  qed
qed simp

lemma sort_key_inj_perm:
  assumes "\<And>a b. f a = f b \<longleftrightarrow> a = b" "mset xs = mset ys"
  shows "sort_key f xs = sort_key f ys"
proof (rule properties_for_sort_key)
  show "mset (sort_key f ys) = mset xs" using assms(2) by simp
  show "filter (\<lambda>x. f k = f x) (sort_key f ys) = filter (\<lambda>x. f k = f x) xs"
    if "k \<in> set (sort_key f ys)" for k
  proof -
    have "filter (\<lambda>x. f k = f x) zs = replicate (count (mset zs) k) k" for zs
      by (induction zs) (auto simp: assms(1))
    with assms(2) show ?thesis by simp
  qed
qed simp

lemma fold_insort_key: "fold (insort_key f) xs [] = sort_key f (rev xs)"
  by (simp add: sort_key_def foldr_conv_fold)

lemma search_exact:
  assumes "distinct (map mem_id ms)" "0 < k"
  shows "fst (search_members ms vector k matches [] stats) =
    take k (sort_key hit_key
      (map (\<lambda>m. (squared_distance vector (mem_vector m), mem_id m)) (filter matches ms)))"
proof -
  let ?hs = "map (\<lambda>m. (squared_distance vector (mem_vector m), mem_id m)) (filter matches ms)"
  have "fst (search_members ms vector k matches [] stats) = take k (sort_key hit_key (rev ?hs))"
    using search_members_exact [OF assms, of "[]" vector matches stats] by (simp add: fold_insort_key)
  also have "sort_key hit_key (rev ?hs) = sort_key hit_key ?hs"
    by (rule sort_key_inj_perm) (auto simp: hit_key_inj)
  finally show ?thesis .
qed

section \<open>The collection invariant\<close>

definition members_ok :: "descriptor \<Rightarrow> (bytes, member) btree_map \<Rightarrow> bool" where
  "members_ok d ms \<longleftrightarrow> bm_ok ms \<and> (\<forall>(k, m) \<in> set ms. mem_id m = k \<and> validate_member m d = Inr ())"

definition collection_ok :: "collection \<Rightarrow> bool" where
  "collection_ok c \<longleftrightarrow>
     validate_descriptor (coll_descriptor c) = Inr ()
     \<and> members_ok (coll_descriptor c) (coll_members c)
     \<and> coll_logical_bytes c = descriptor_logical_bytes (coll_descriptor c)
         + sum_list (map (member_logical_bytes \<circ> snd) (coll_members c))
     \<and> coll_encoded_bytes c = descriptor_encoded_bytes (coll_descriptor c) + 4
         + sum_list (map (member_encoded_bytes \<circ> snd) (coll_members c))
     \<and> coll_logical_bytes c \<le> USIZE_MAX \<and> coll_encoded_bytes c \<le> USIZE_MAX"

lemma collection_new_ok:
  assumes "collection_new d = Inr c"
  shows "collection_ok c \<and> coll_descriptor c = d \<and> coll_members c = []"
proof -
  from assms have v: "validate_descriptor d = Inr ()" by (auto simp: collection_new_def result_simps)
  then have "length (provider d) \<le> 256" "length (model d) \<le> 256" "length (revision d) \<le> 256"
    "length (transform d) \<le> 256"
    by (auto simp: validate_descriptor_def bounded_def result_simps)
  then have "descriptor_logical_bytes d \<le> 2000" "descriptor_encoded_bytes d + 4 \<le> 2000"
    by (auto simp: descriptor_logical_bytes_def descriptor_encoded_bytes_def)
  with assms v show ?thesis
    by (auto simp: collection_new_def collection_ok_def members_ok_def USIZE_MAX_def result_simps)
qed

lemma members_ok_iff:
  "members_ok d ms \<longleftrightarrow> bm_ok ms
     \<and> (\<forall>k m. bm_get ms k = Some m \<longrightarrow> mem_id m = k \<and> validate_member m d = Inr ())"
  by (auto simp: members_ok_def bm_get_mem)

lemma members_ok_insert:
  "members_ok d ms \<Longrightarrow> validate_member m d = Inr () \<Longrightarrow> members_ok d (bm_insert (mem_id m) m ms)"
  by (auto simp: members_ok_iff)

lemma members_ok_remove: "members_ok d ms \<Longrightarrow> members_ok d (bm_remove k ms)"
  using set_bm_remove [of k ms] by (auto simp: members_ok_def)

lemma add_member_ok:
  assumes "collection_ok c" "validate_member m (coll_descriptor c) = Inr ()"
    "bm_get (coll_members c) (mem_id m) = None" "add_member m c = Inr c'"
  shows "collection_ok c' \<and> coll_descriptor c' = coll_descriptor c
    \<and> coll_members c' = bm_insert (mem_id m) m (coll_members c)"
proof -
  have ok: "bm_ok (coll_members c)" using assms(1) by (simp add: collection_ok_def members_ok_def)
  note sums = sum_bm_insert [OF ok assms(3), of "\<lambda>x. member_logical_bytes (snd x)" m]
    sum_bm_insert [OF ok assms(3), of "\<lambda>x. member_encoded_bytes (snd x)" m]
  show ?thesis
    using assms sums members_ok_insert [of "coll_descriptor c" "coll_members c" m]
    by (auto simp: add_member_def collection_ok_def result_simps checked_simps comp_def)
qed

lemma drop_member_ok:
  assumes "collection_ok c" "bm_get (coll_members c) k = Some m"
  shows "collection_ok (drop_member k m c)"
proof -
  note sums = sum_bm_remove [OF assms(2), of "\<lambda>x. member_logical_bytes (snd x)"]
    sum_bm_remove [OF assms(2), of "\<lambda>x. member_encoded_bytes (snd x)"]
  let ?l = "sum_list (map (\<lambda>x. member_logical_bytes (snd x)) (bm_remove k (coll_members c)))"
  let ?e = "sum_list (map (\<lambda>x. member_encoded_bytes (snd x)) (bm_remove k (coll_members c)))"
  have l: "coll_logical_bytes c = descriptor_logical_bytes (coll_descriptor c) + (member_logical_bytes m + ?l)"
    "coll_logical_bytes c \<le> USIZE_MAX"
    and e: "coll_encoded_bytes c = descriptor_encoded_bytes (coll_descriptor c) + 4 + (member_encoded_bytes m + ?e)"
    "coll_encoded_bytes c \<le> USIZE_MAX"
    using assms(1) sums by (simp_all add: collection_ok_def comp_def)
  have "wrapping_sub (coll_logical_bytes c) (member_logical_bytes m)
      = descriptor_logical_bytes (coll_descriptor c) + ?l"
    "wrapping_sub (coll_encoded_bytes c) (member_encoded_bytes m)
      = descriptor_encoded_bytes (coll_descriptor c) + 4 + ?e"
    using l e by (simp_all only: wrapping_sub_ok)
  then show ?thesis
    using assms(1) l e members_ok_remove [of "coll_descriptor c" "coll_members c" k]
    by (simp add: collection_ok_def drop_member_def comp_def)
qed


text \<open>The members an ordered list of edits leaves behind.\<close>

fun edit_effect :: "edit \<Rightarrow> (bytes \<rightharpoonup> member) \<Rightarrow> (bytes \<rightharpoonup> member)" where
  "edit_effect (Upsert m) f = f(mem_id m \<mapsto> m)"
| "edit_effect (Remove ident) f = f(ident := None)"

lemma apply_edit_ok:
  assumes "collection_ok c" "apply_edit e c = Inr c'"
    "\<And>m. e = Upsert m \<Longrightarrow> validate_member m (coll_descriptor c) = Inr ()"
  shows "collection_ok c' \<and> coll_descriptor c' = coll_descriptor c
    \<and> bm_get (coll_members c') = edit_effect e (bm_get (coll_members c))"
proof -
  have ok: "bm_ok (coll_members c)" using assms(1) by (simp add: collection_ok_def members_ok_def)
  define c1 where "c1 = (case bm_get (coll_members c) (edit_id e) of
      Some previous \<Rightarrow> drop_member (edit_id e) previous c | None \<Rightarrow> c)"
  have c1: "collection_ok c1" "coll_descriptor c1 = coll_descriptor c"
    "bm_get (coll_members c1) = (bm_get (coll_members c))(edit_id e := None)"
    using assms(1) drop_member_ok [OF assms(1)] ok
    by (auto simp: c1_def drop_member_def fun_upd_idem split: option.splits)
  show ?thesis
  proof (cases e)
    case (Upsert m)
    with assms(2) have "add_member m c1 = Inr c'"
      by (auto simp: apply_edit_def c1_def split: option.splits)
    with add_member_ok [of c1 m c'] c1 assms(3) Upsert show ?thesis by auto
  next
    case (Remove ident)
    with assms(2) have "c' = c1" by (auto simp: apply_edit_def c1_def split: option.splits)
    with c1 Remove show ?thesis by simp
  qed
qed

lemma apply_edit_list_ok:
  assumes "collection_ok c" "apply_edit_list es c = Inr c'"
    "\<And>m. Upsert m \<in> set es \<Longrightarrow> validate_member m (coll_descriptor c) = Inr ()"
  shows "collection_ok c' \<and> coll_descriptor c' = coll_descriptor c
    \<and> bm_get (coll_members c') = fold edit_effect es (bm_get (coll_members c))"
  using assms
proof (induction es arbitrary: c)
  case (Cons e es)
  then obtain c1 where c1: "apply_edit e c = Inr c1" "apply_edit_list es c1 = Inr c'"
    by (auto simp: result_simps)
  have "collection_ok c1 \<and> coll_descriptor c1 = coll_descriptor c
      \<and> bm_get (coll_members c1) = edit_effect e (bm_get (coll_members c))"
    using Cons.prems by (intro apply_edit_ok [OF _ c1(1)]) auto
  with Cons.IH [OF _ c1(2)] Cons.prems(3) show ?case by auto
qed simp

lemma validate_edits_from_members:
  "validate_edits_from d previous es = Inr () \<Longrightarrow> Upsert m \<in> set es \<Longrightarrow> validate_member m d = Inr ()"
  by (induction es arbitrary: previous) (auto simp: result_simps)

lemma apply_edits_ok:
  assumes "collection_ok c" "apply_edits c d es key = Inr c'"
  shows "collection_ok c' \<and> coll_descriptor c' = coll_descriptor c \<and> validate_key c' key = Inr ()
    \<and> bm_get (coll_members c') = fold edit_effect es (bm_get (coll_members c))"
proof -
  from assms(2) have "d = coll_descriptor c" "validate_edits_from d None es = Inr ()"
    "apply_edit_list es c = Inr c'" "validate_key c' key = Inr ()"
    by (auto simp: apply_edits_def validate_edits_def result_simps)
  with apply_edit_list_ok [OF assms(1)] validate_edits_from_members show ?thesis by blast
qed

lemma add_members_ok:
  assumes "collection_ok c" "add_members ms previous c = Inr c'"
    "\<And>k. k \<in> fst ` set (coll_members c) \<Longrightarrow> (\<exists>p. previous = Some p \<and> k \<le> p)"
  shows "collection_ok c' \<and> coll_descriptor c' = coll_descriptor c
    \<and> coll_members c' = fold (\<lambda>m. bm_insert (mem_id m) m) ms (coll_members c)"
  using assms
proof (induction ms arbitrary: previous c)
  case (Cons m ms)
  from Cons.prems(2) obtain c1 where v: "validate_member m (coll_descriptor c) = Inr ()"
    and p: "\<And>p. previous = Some p \<Longrightarrow> p < mem_id m"
    and c1: "add_member m c = Inr c1" "add_members ms (Some (mem_id m)) c1 = Inr c'"
    by (auto simp: result_simps not_le split: option.splits)
  have "mem_id m \<notin> fst ` set (coll_members c)"
    using Cons.prems(3) [of "mem_id m"] p leD by blast
  then have "bm_get (coll_members c) (mem_id m) = None" by (simp add: map_of_eq_None_iff)
  from add_member_ok [OF Cons.prems(1) v this c1(1)]
  have ok1: "collection_ok c1" "coll_descriptor c1 = coll_descriptor c"
    "coll_members c1 = bm_insert (mem_id m) m (coll_members c)" by auto
  have "\<exists>p. Some (mem_id m) = Some p \<and> k \<le> p" if "k \<in> fst ` set (coll_members c1)" for k
  proof -
    from that have "k = mem_id m \<or> k \<in> fst ` set (coll_members c)"
      by (simp only: ok1(3) keys_bm_insert insert_iff)
    then show ?thesis using Cons.prems(3) [of k] p by (metis order.trans less_imp_le order_refl)
  qed
  from Cons.IH [OF ok1(1) c1(2) this] ok1 show ?case by simp
qed simp

lemma from_members_ok:
  assumes "from_members d ms key = Inr c"
  shows "collection_ok c \<and> coll_descriptor c = d \<and> validate_key c key = Inr ()
    \<and> coll_members c = fold (\<lambda>m. bm_insert (mem_id m) m) ms []"
proof -
  from assms obtain c0 where c0: "collection_new d = Inr c0" "add_members ms None c0 = Inr c"
    and v: "validate_key c key = Inr ()"
    by (auto simp: from_members_def result_simps)
  from collection_new_ok [OF c0(1)] have "collection_ok c0" "coll_descriptor c0 = d" "coll_members c0 = []"
    by auto
  with add_members_ok [OF _ c0(2)] v show ?thesis by simp
qed

end
