(* ===== verification/Fpconv.thy ===== *)
theory Fpconv
  imports Float64
begin

text \<open>
  The Grisu2 digit generator of \<open>src/src/command/fpconv.rs\<close>. Unsigned 64-bit
  arithmetic is arithmetic of words. The index into the table of powers and the
  two open-ended loops are bounded by fuel; running out of it, or leaving the
  table, is \<open>None\<close>, as is a panic.
\<close>

record fp =
  fraction :: u64
  exponent :: int

definition leading_zeros :: "u64 \<Rightarrow> nat" where
  "leading_zeros w = (if w = 0 then 64 else 63 - ilog2 (uint w))"

definition normalize :: "fp \<Rightarrow> fp" where
  "normalize a =
     (let shift = leading_zeros (fraction a)
      in \<lparr>fraction = push_bit shift (fraction a), exponent = exponent a - int shift\<rparr>)"

definition multiply :: "fp \<Rightarrow> fp \<Rightarrow> fp" where
  "multiply a b =
     (let product = uint (fraction a) * uint (fraction b)
      in \<lparr>fraction = of_int ((product + 9223372036854775808) div 18446744073709551616),
          exponent = exponent a + exponent b + 64\<rparr>)"

text \<open>\<open>*digits.last_mut() -= 1\<close>\<close>

definition decrement_last :: "bytes \<Rightarrow> bytes option" where
  "decrement_last ds =
     (if ds = [] \<or> last ds = CHR 0x00 then None
      else Some (butlast ds @ [char_of (of_char (last ds) - 1 :: nat)]))"

fun round_digits :: "nat \<Rightarrow> bytes \<Rightarrow> u64 \<Rightarrow> u64 \<Rightarrow> u64 \<Rightarrow> u64 \<Rightarrow> bytes option" where
  "round_digits 0 ds delta remainder unit distance = None"
| "round_digits (Suc fuel) ds delta remainder unit distance =
     (if remainder < distance \<and> delta - remainder \<ge> unit
         \<and> (remainder + unit < distance \<or> distance - remainder > remainder + unit - distance)
      then Option.bind (decrement_last ds) (\<lambda>ds.
        round_digits fuel ds delta (remainder + unit) unit distance)
      else Some ds)"

definition push_digit :: "bytes \<Rightarrow> u64 \<Rightarrow> bytes" where
  "push_digit ds d = (if d \<noteq> 0 \<or> ds \<noteq> [] then ds @ [char_of (48 + unat d mod 256 :: nat)] else ds)"

definition POWERS :: "(u64 \<times> int) list" where
  "POWERS = [
     (18054884314459144840, - 1220), (13451937075301367670, - 1193), (10022474136428063862, - 1166),
     (14934650266808366570, - 1140), (11127181549972568877, - 1113), (16580792590934885855, - 1087),
     (12353653155963782858, - 1060), (18408377700990114895, - 1034), (13715310171984221708, - 1007),
     (10218702384817765436, - 980), (15227053142812498563, - 954), (11345038669416679861, - 927),
     (16905424996341287883, - 901), (12595523146049147757, - 874), (9384396036005875287, - 847),
     (13983839803942852151, - 821), (10418772551374772303, - 794), (15525180923007089351, - 768),
     (11567161174868858868, - 741), (17236413322193710309, - 715), (12842128665889583758, - 688),
     (9568131466127621947, - 661), (14257626930069360058, - 635), (10622759856335341974, - 608),
     (15829145694278690180, - 582), (11793632577567316726, - 555), (17573882009934360870, - 529),
     (13093562431584567480, - 502), (9755464219737475723, - 475), (14536774485912137811, - 449),
     (10830740992659433045, - 422), (16139061738043178685, - 396), (12024538023802026127, - 369),
     (17917957937422433684, - 343), (13349918974505688015, - 316), (9946464728195732843, - 289),
     (14821387422376473014, - 263), (11042794154864902060, - 236), (16455045573212060422, - 210),
     (12259964326927110867, - 183), (18268770466636286478, - 157), (13611294676837538539, - 130),
     (10141204801825835212, - 103), (15111572745182864684, - 77), (11258999068426240000, - 50),
     (16777216000000000000, - 24), (12500000000000000000, 3), (9313225746154785156, 30),
     (13877787807814456755, 56), (10339757656912845936, 83), (15407439555097886824, 109),
     (11479437019748901445, 136), (17105694144590052135, 162), (12744735289059618216, 189),
     (9495567745759798747, 216), (14149498560666738074, 242), (10542197943230523224, 269),
     (15709099088952724970, 295), (11704190886730495818, 322), (17440603504673385349, 348),
     (12994262207056124023, 375), (9681479787123295682, 402), (14426529090290212157, 428),
     (10748601772107342003, 455), (16016664761464807395, 481), (11933345169920330789, 508),
     (17782069995880619868, 534), (13248674568444952270, 561), (9871031767461413346, 588),
     (14708983551653345445, 614), (10959046745042015199, 641), (16330252207878254650, 667),
     (12166986024289022870, 694), (18130221999122236476, 720), (13508068024458167312, 747),
     (10064294952495520794, 774), (14996968138956309548, 800), (11173611982879273257, 827),
     (16649979327439178909, 853), (12405201291620119593, 880), (9242595204427927429, 907),
     (13772540099066387757, 933), (10261342003245940623, 960), (15290591125556738113, 986),
     (11392378155556871081, 1013), (16975966327722178521, 1039), (12648080533535911531, 1066)
     ]"

text \<open>\<open>0.301_029_995_663_981_14\<close>\<close>

definition LOG10_2 :: u64 where
  "LOG10_2 = 0x3FD34413509F79FE"

definition ROUND_FUEL :: nat where
  "ROUND_FUEL = 64"

fun select_power :: "nat \<Rightarrow> int \<Rightarrow> nat \<Rightarrow> nat option" where
  "select_power 0 upper index = None"
| "select_power (Suc fuel) upper index =
     (if index \<ge> length POWERS then None
      else let e = upper + snd (POWERS ! index) + 64
           in if e < - 60 then select_power fuel upper (index + 1)
              else if e > - 32 then (if index = 0 then None else select_power fuel upper (index - 1))
              else Some index)"

text \<open>The digits of the integral part; \<open>Inr\<close> carries on with the fractional part.\<close>

fun integral_digits ::
  "nat \<Rightarrow> u64 \<Rightarrow> nat \<Rightarrow> u64 \<Rightarrow> u64 \<Rightarrow> u64 \<Rightarrow> u64 \<Rightarrow> bytes \<Rightarrow> ((bytes \<times> int) option) + bytes" where
  "integral_digits 0 divisor shift integer fractional delta distance ds = Inr ds"
| "integral_digits (Suc remaining) divisor shift integer fractional delta distance ds =
     (let digit = integer div divisor;
          ds = push_digit ds digit;
          integer = integer mod divisor;
          remainder = push_bit shift integer + fractional
      in if remainder \<le> delta
         then Inl (map_option (\<lambda>ds. (ds, int remaining))
                (round_digits ROUND_FUEL ds delta remainder (push_bit shift divisor) distance))
         else integral_digits remaining (divisor div 10) shift integer fractional delta distance ds)"

fun fractional_digits ::
  "nat \<Rightarrow> int \<Rightarrow> nat \<Rightarrow> u64 \<Rightarrow> u64 \<Rightarrow> u64 \<Rightarrow> u64 \<Rightarrow> bytes \<Rightarrow> (bytes \<times> int) option" where
  "fractional_digits 0 remaining shift fractional delta distance unit ds = None"
| "fractional_digits (Suc fuel) remaining shift fractional delta distance unit ds =
     (let one = push_bit shift 1;
          fractional = fractional * 10;
          delta = delta * 10;
          remaining = remaining - 1;
          ds = push_digit ds (drop_bit shift fractional);
          fractional = fractional AND (one - 1)
      in if fractional < delta
         then map_option (\<lambda>ds. (ds, remaining))
                (round_digits ROUND_FUEL ds delta fractional one (distance * unit))
         else fractional_digits fuel remaining shift fractional delta distance (unit * 10) ds)"

definition fp_of_f64 :: "u64 \<Rightarrow> fp" where
  "fp_of_f64 bits =
     (let encoded = f64_exponent_bits bits; hidden = push_bit 52 1
      in \<lparr>fraction = (bits AND (hidden - 1)) OR (if encoded \<noteq> 0 then hidden else 0),
          exponent = (if encoded \<noteq> 0 then encoded - 1075 else - 1074)\<rparr>)"

definition fp_upper :: "fp \<Rightarrow> fp" where
  "fp_upper w = normalize \<lparr>fraction = push_bit 1 (fraction w) + 1, exponent = exponent w - 1\<rparr>"

definition fp_lower :: "fp \<Rightarrow> fp \<Rightarrow> fp" where
  "fp_lower w upper =
     (let shift = (if fraction w = push_bit 52 1 then 2 else 1)
      in \<lparr>fraction = push_bit (nat (exponent w - int shift - exponent upper)) (push_bit shift (fraction w) - 1),
          exponent = exponent upper\<rparr>)"

text \<open>Significant digits and power of ten of a positive, finite number.\<close>

definition fpconv_digits :: "u64 \<Rightarrow> (bytes \<times> int) option" where
  "fpconv_digits bits =
     (let w = fp_of_f64 bits;
          upper = fp_upper w;
          lower = fp_lower w upper;
          approximation = f64_trunc (f64_mul (f64_of_int (- (exponent upper + 87))) LOG10_2);
          start = nat ((approximation + 348) div 8)
      in Option.bind (select_power 87 (exponent upper) start) (\<lambda>index.
        let power = \<lparr>fraction = fst (POWERS ! index), exponent = snd (POWERS ! index)\<rparr>;
            w = multiply (normalize w) power;
            upper = multiply upper power;
            lower = multiply lower power;
            up = fraction upper - 1;
            low = fraction lower + 1;
            decimal_power = 348 - int index * 8;
            distance = up - fraction w;
            delta = up - low;
            shift = nat (- exponent upper);
            integer = drop_bit shift up;
            fractional = up AND (push_bit shift 1 - 1)
        in (case integral_digits 10 1000000000 shift integer fractional delta distance [] of
              Inl r \<Rightarrow> map_option (\<lambda>(ds, k). (ds, decimal_power + k)) r
            | Inr ds \<Rightarrow> map_option (\<lambda>(ds, k). (ds, decimal_power + k))
                (fractional_digits 64 0 shift fractional delta distance 10 ds))))"

end
