(* ===== verification/Score.thy ===== *)
theory Score
  imports Fpconv
begin

text \<open>
  Sorted-set scores (\<open>src/src/command/score.rs\<close>): doubles without NaN and with a
  single zero, their parsers, their printer and their total order.
\<close>

section \<open>Construction\<close>

datatype score = Score u64

primrec score_bits :: "score \<Rightarrow> u64" where
  "score_bits (Score w) = w"

definition score_new :: "u64 \<Rightarrow> score option" where
  "score_new value =
     (if f64_is_nan value then None else Some (Score (if f64_is_zero value then 0 else value)))"

text \<open>The invariant of every \<open>Score\<close>: the constructor is the only way to build one.\<close>

definition score_ok :: "score \<Rightarrow> bool" where
  "score_ok s \<longleftrightarrow> \<not> f64_is_nan (score_bits s) \<and> (f64_is_zero (score_bits s) \<longrightarrow> score_bits s = 0)"

section \<open>Order\<close>

definition score_le :: "score \<Rightarrow> score \<Rightarrow> bool" where
  "score_le a b \<longleftrightarrow> f64_total_key (score_bits a) \<le> f64_total_key (score_bits b)"

definition score_lt :: "score \<Rightarrow> score \<Rightarrow> bool" where
  "score_lt a b \<longleftrightarrow> f64_total_key (score_bits a) < f64_total_key (score_bits b)"

instantiation score :: linorder
begin

definition less_eq_score :: "score \<Rightarrow> score \<Rightarrow> bool" where
  "less_eq_score = score_le"

definition less_score :: "score \<Rightarrow> score \<Rightarrow> bool" where
  "less_score = score_lt"

instance
proof
  fix a b c :: score
  show "a < b \<longleftrightarrow> a \<le> b \<and> \<not> b \<le> a"
    by (auto simp: less_eq_score_def less_score_def score_le_def score_lt_def)
  show "a \<le> a" by (simp add: less_eq_score_def score_le_def)
  show "a \<le> b \<Longrightarrow> b \<le> c \<Longrightarrow> a \<le> c" by (simp add: less_eq_score_def score_le_def)
  show "a \<le> b \<Longrightarrow> b \<le> a \<Longrightarrow> a = b"
    by (cases a; cases b) (simp add: less_eq_score_def score_le_def f64_total_key_inj flip: order_eq_iff)
  show "a \<le> b \<or> b \<le> a" by (auto simp: less_eq_score_def score_le_def)
qed

end

section \<open>Hexadecimal text\<close>

definition i64_sat :: "int \<Rightarrow> int" where
  "i64_sat i = max I64_MIN (min I64_MAX i)"

definition hex_digit :: "byte \<Rightarrow> nat option" where
  "hex_digit c =
     (let n = of_char c :: nat
      in if 48 \<le> n \<and> n \<le> 57 then Some (n - 48)
         else if 97 \<le> n \<and> n \<le> 102 then Some (n - 97 + 10)
         else if 65 \<le> n \<and> n \<le> 70 then Some (n - 65 + 10)
         else None)"

record hex_state =
  hx_value :: u64
  hx_kept :: nat
  hx_discarded :: int
  hx_fractional :: int
  hx_point :: bool
  hx_any :: bool
  hx_sticky :: bool

definition hex_start :: hex_state where
  "hex_start = \<lparr>hx_value = 0, hx_kept = 0, hx_discarded = 0, hx_fractional = 0, hx_point = False,
     hx_any = False, hx_sticky = False\<rparr>"

definition hex_step :: "byte \<Rightarrow> hex_state \<Rightarrow> hex_state option" where
  "hex_step c st =
     (if c = CHR ''.'' then (if hx_point st then None else Some (st\<lparr>hx_point := True\<rparr>))
      else Option.bind (hex_digit c) (\<lambda>d.
        let st = st\<lparr>hx_any := True, hx_fractional := hx_fractional st + (if hx_point st then 1 else 0)\<rparr>
        in if hx_kept st = 0 \<and> d = 0 then Some st
           else if hx_kept st < 16
           then Some (st\<lparr>hx_value := push_bit 4 (hx_value st) OR of_nat d, hx_kept := hx_kept st + 1\<rparr>)
           else Some (st\<lparr>hx_discarded := hx_discarded st + 1, hx_sticky := hx_sticky st \<or> d \<noteq> 0\<rparr>)))"

fun hex_mantissa :: "bytes \<Rightarrow> hex_state \<Rightarrow> hex_state option" where
  "hex_mantissa [] st = Some st"
| "hex_mantissa (c # cs) st = Option.bind (hex_step c st) (hex_mantissa cs)"

text \<open>\<open>split_once(['p', 'P'])\<close>, with exponent \<open>"0"\<close> when there is none.\<close>

definition split_exponent :: "bytes \<Rightarrow> bytes \<times> bytes" where
  "split_exponent b =
     (let isp = (\<lambda>c. c = CHR ''p'' \<or> c = CHR ''P'')
      in case dropWhile (\<lambda>c. \<not> isp c) b of
           [] \<Rightarrow> (b, ''0'')
         | _ # e \<Rightarrow> (takeWhile (\<lambda>c. \<not> isp c) b, e))"

definition hex_power :: "bytes \<Rightarrow> int option" where
  "hex_power e =
     (let (neg, ds) = strip_sign e
      in if ds = [] \<or> \<not> list_all is_ascii_digit ds then None
         else let p = foldl (\<lambda>n c. i64_sat (i64_sat (n * 10) + int (digit_value c))) 0 ds
              in Some (if neg then - p else p))"

definition hex_rounded :: "u64 \<Rightarrow> bool \<Rightarrow> int \<Rightarrow> u64" where
  "hex_rounded value sticky shift =
     (if shift \<le> 0 then push_bit (nat (- shift)) value
      else if shift > 64 then 0
      else let half = push_bit (nat (shift - 1)) 1;
               low = value AND (half - 1);
               truncated = (if shift = 64 then 0 else drop_bit (nat shift) value)
           in truncated +
              (if value AND half \<noteq> 0 \<and> (low \<noteq> 0 \<or> sticky \<or> truncated AND 1 \<noteq> 0) then 1 else 0))"

definition parse_hex :: "bytes \<Rightarrow> u64 option" where
  "parse_hex text =
     (let (negative, unsigned) = strip_sign text;
          (mantissa, e) = split_exponent (drop 2 unsigned)
      in Option.bind (hex_power e) (\<lambda>power.
        Option.bind (hex_mantissa mantissa hex_start) (\<lambda>st.
          if \<not> hx_any st then None
          else if hx_value st = 0 then Some 0
          else
            let value = hx_value st;
                power = i64_sat (i64_sat (power - hx_fractional st * 4) + hx_discarded st * 4);
                highest = i64_sat (power + (63 - int (leading_zeros value)))
            in if highest > 1023 then None
               else
                 let grid = max (i64_sat (highest - 52)) (- 1074);
                     shift = i64_sat (grid - power);
                     rounded = hex_rounded value (hx_sticky st) shift
                 in if rounded = 0 then None
                    else
                      let scale = (if grid < - 1022 then push_bit (nat (grid + 1074)) 1
                                   else push_bit 52 (of_int (grid + 1023)));
                          result = f64_mul (f64_of_int (uint rounded)) scale
                      in if f64_is_finite result
                         then Some (if negative then f64_neg result else result) else None)))"

section \<open>Decimal text\<close>

definition is_nonzero_digit :: "byte \<Rightarrow> bool" where
  "is_nonzero_digit c \<longleftrightarrow> 49 \<le> (of_char c :: nat) \<and> (of_char c :: nat) \<le> 57"

text \<open>A text that is not ASCII is neither hexadecimal nor a number, so the
  \<open>from_utf8\<close> check never changes the outcome.\<close>

definition score_parse :: "bytes \<Rightarrow> score option" where
  "score_parse text =
     (let unsigned = snd (strip_sign text)
      in if take 2 unsigned = ''0x'' \<or> take 2 unsigned = ''0X''
         then Option.bind (parse_hex text) score_new
         else Option.bind (parse_f64 text) (\<lambda>number.
           if f64_is_infinite number \<and> \<not> eq_ignore_ascii_case unsigned ''inf''
              \<and> \<not> eq_ignore_ascii_case unsigned ''infinity'' then None
           else if f64_is_zero number
              \<and> list_ex is_nonzero_digit (takeWhile (\<lambda>c. c \<noteq> CHR ''e'' \<and> c \<noteq> CHR ''E'') unsigned)
           then None
           else score_new number))"

section \<open>Printing\<close>

text \<open>Layout of the digits of a number that is not a small integer.\<close>

definition format_digits :: "bytes \<Rightarrow> int \<Rightarrow> bytes" where
  "format_digits ds k =
     (let len = int (length ds); e = k + len - 1
      in if k \<ge> 0 \<and> \<bar>e\<bar> < len + 7 then ds @ replicate (nat k) CHR ''0''
         else if k < 0 \<and> (k > - 7 \<or> \<bar>e\<bar> < 4) then
           (let point = len + k
            in if point \<le> 0 then ''0.'' @ replicate (nat (- point)) CHR ''0'' @ ds
               else take (nat point) ds @ ''.'' @ drop (nat point) ds)
         else take 1 ds @ (if length ds > 1 then ''.'' @ drop 1 ds else []) @ ''e''
              @ (if e \<ge> 0 then ''+'' else []) @ int_to_string e)"

definition score_to_bytes :: "score \<Rightarrow> bytes option" where
  "score_to_bytes s =
     (let value = score_bits s
      in if f64_is_zero value then Some ''0''
         else if f64_is_infinite value then Some (if f64_negative value then ''-inf'' else ''inf'')
         else if f64_magnitude value \<le> 4611686018427387904 * F64_ONE \<and> f64_is_integral value
         then Some (int_to_string (f64_trunc value))
         else map_option (\<lambda>(ds, k). (if f64_negative value then ''-'' else []) @ format_digits ds k)
                (fpconv_digits (f64_abs value)))"

section \<open>Lemmas\<close>

lemma f64_fraction_bits_0 [simp]: "f64_fraction_bits 0 = 0"
  by (simp add: f64_fraction_bits_def)

lemma score_new_ok: "score_new w = Some s \<Longrightarrow> score_ok s"
  by (auto simp: score_new_def score_ok_def f64_is_zero_def f64_is_nan_def split: if_splits)

lemma score_parse_ok: "score_parse b = Some s \<Longrightarrow> score_ok s"
  by (auto simp: score_parse_def Let_def bind_eq_Some_conv split: if_splits intro: score_new_ok)

end
