(* ===== verification/Command.thy ===== *)
theory Command
  imports Memory Score Resp_Frame
begin

text \<open>
  Typed commands and replies (\<open>src/src/command/mod.rs\<close>, \<open>collections.rs\<close>,
  \<open>sorted_set.rs\<close>, \<open>info.rs\<close>, \<open>reply.rs\<close>): what a parsed request is, which keys it
  names, whether it writes, and how a reply becomes a RESP2 or RESP3 frame.
\<close>

section \<open>Commands\<close>

datatype hash_command =
    HSet "(bytes \<times> bytes) list"
  | HGet bytes
  | HDelete "bytes list"
  | HExists bytes
  | HLen
  | HGetAll

datatype list_command =
    LPush bool "bytes list"
  | LPop bool
  | LLen
  | LRange int int

datatype set_command =
    SAdd "bytes list"
  | SRemove "bytes list"
  | SIsMember bytes
  | SCard
  | SMembers

datatype sorted_set_command =
    ZAdd "(score \<times> bytes) list"
  | ZRemove "bytes list"
  | ZCard
  | ZScore bytes
  | ZRange int int bool

type_synonym info_sections = "8 word"

datatype command =
    CMemory bytes operation
  | CInfo info_sections
  | CSortedSet bytes sorted_set_command
  | CSetCollection bytes set_command
  | CHash bytes hash_command
  | CList bytes list_command
  | CPing "bytes option"
  | CEcho bytes
  | CGet bytes
  | CSet bytes bytes
  | CSetWithOptions bytes bytes set_options
  | CDel "bytes list"
  | CExists "bytes list"
  | CIncr bytes
  | CDecr bytes
  | CMGet "bytes list"
  | CMSet "(bytes \<times> bytes) list"
  | CExpire bytes int expiry_unit
  | CTtl bytes bool
  | CPersist bytes
  | CSubscribe "bytes list"
  | CUnsubscribe "bytes list"
  | CPublish bytes bytes
  | CMulti
  | CExec
  | CDiscard
  | CWatch "bytes list"
  | CUnwatch

fun hash_writes :: "hash_command \<Rightarrow> bool" where
  "hash_writes (HSet _) = True"
| "hash_writes (HDelete _) = True"
| "hash_writes _ = False"

fun list_writes :: "list_command \<Rightarrow> bool" where
  "list_writes (LPush _ _) = True"
| "list_writes (LPop _) = True"
| "list_writes _ = False"

fun set_writes :: "set_command \<Rightarrow> bool" where
  "set_writes (SAdd _) = True"
| "set_writes (SRemove _) = True"
| "set_writes _ = False"

fun sorted_set_writes :: "sorted_set_command \<Rightarrow> bool" where
  "sorted_set_writes (ZAdd _) = True"
| "sorted_set_writes (ZRemove _) = True"
| "sorted_set_writes _ = False"

fun writes_dataset :: "command \<Rightarrow> bool" where
  "writes_dataset (CMemory _ oper) = operation_writes_dataset oper"
| "writes_dataset (CSet _ _) = True"
| "writes_dataset (CSetWithOptions _ _ _) = True"
| "writes_dataset (CDel _) = True"
| "writes_dataset (CIncr _) = True"
| "writes_dataset (CDecr _) = True"
| "writes_dataset (CMSet _) = True"
| "writes_dataset (CExpire _ _ _) = True"
| "writes_dataset (CPersist _) = True"
| "writes_dataset (CHash _ oper) = hash_writes oper"
| "writes_dataset (CList _ oper) = list_writes oper"
| "writes_dataset (CSetCollection _ oper) = set_writes oper"
| "writes_dataset (CSortedSet _ oper) = sorted_set_writes oper"
| "writes_dataset _ = False"

text \<open>\<open>visit_keys\<close>: the keys in the order the visitor sees them.\<close>

fun visit_keys :: "command \<Rightarrow> bytes list" where
  "visit_keys (CPing _) = []"
| "visit_keys (CInfo _) = []"
| "visit_keys (CEcho _) = []"
| "visit_keys (CSubscribe _) = []"
| "visit_keys (CUnsubscribe _) = []"
| "visit_keys (CPublish _ _) = []"
| "visit_keys CMulti = []"
| "visit_keys CExec = []"
| "visit_keys CDiscard = []"
| "visit_keys CUnwatch = []"
| "visit_keys (CWatch keys) = keys"
| "visit_keys (CGet key) = [key]"
| "visit_keys (CMemory key _) = [key]"
| "visit_keys (CHash key _) = [key]"
| "visit_keys (CList key _) = [key]"
| "visit_keys (CSetCollection key _) = [key]"
| "visit_keys (CSortedSet key _) = [key]"
| "visit_keys (CSet key _) = [key]"
| "visit_keys (CSetWithOptions key _ _) = [key]"
| "visit_keys (CIncr key) = [key]"
| "visit_keys (CDecr key) = [key]"
| "visit_keys (CExpire key _ _) = [key]"
| "visit_keys (CTtl key _) = [key]"
| "visit_keys (CPersist key) = [key]"
| "visit_keys (CDel keys) = keys"
| "visit_keys (CExists keys) = keys"
| "visit_keys (CMGet keys) = keys"
| "visit_keys (CMSet entries) = map fst entries"

section \<open>INFO sections\<close>

definition INFO_ALL :: info_sections where
  "INFO_ALL = 127"

definition section_bit :: "bytes \<Rightarrow> info_sections" where
  "section_bit name =
     (if eq_ignore_ascii_case name ''server'' then 1
      else if eq_ignore_ascii_case name ''clients'' then 2
      else if eq_ignore_ascii_case name ''stats'' then 4
      else if eq_ignore_ascii_case name ''memory'' then 8
      else if eq_ignore_ascii_case name ''persistence'' then 16
      else if eq_ignore_ascii_case name ''config'' then 32
      else if eq_ignore_ascii_case name ''replication'' then 64
      else if eq_ignore_ascii_case name ''all'' \<or> eq_ignore_ascii_case name ''default''
        \<or> eq_ignore_ascii_case name ''everything'' then INFO_ALL
      else 0)"

definition from_names :: "bytes list \<Rightarrow> info_sections" where
  "from_names names =
     (if names = [] then INFO_ALL else fold (\<lambda>name selection. selection OR section_bit name) names 0)"

definition valid_name :: "bytes \<Rightarrow> bool" where
  "valid_name name \<longleftrightarrow> from_names [name] \<noteq> 0"

definition info_contains :: "info_sections \<Rightarrow> info_sections \<Rightarrow> bool" where
  "info_contains s section = (s AND section \<noteq> 0)"

section \<open>Replies\<close>

datatype execution_error =
    EReadOnly
  | ECrossShard
  | EWrongType
  | EInvalidInteger
  | EIntegerOverflow
  | EInvalidSetExpiry
  | EInvalidExpiry string
  | EOutOfMemory
  | EAofRecordLimit
  | EMemory string
  | EConnectionOnly

fun error_message :: "execution_error \<Rightarrow> bytes" where
  "error_message EReadOnly = ''READONLY You can't write against a read only replica.''"
| "error_message ECrossShard = ''CROSSSLOT Keys in request don't hash to the same slot''"
| "error_message EWrongType = ''WRONGTYPE Operation against a key holding the wrong kind of value''"
| "error_message EInvalidInteger = ''ERR value is not an integer or out of range''"
| "error_message EIntegerOverflow = ''ERR increment or decrement would overflow''"
| "error_message EInvalidSetExpiry = ''ERR invalid expire time in 'set' command''"
| "error_message (EInvalidExpiry name) = ''ERR invalid expire time in '' @ [CHR 0x27] @ name @ [CHR 0x27] @ '' command''"
| "error_message EOutOfMemory = ''OOM dataset memory quota exceeded''"
| "error_message EAofRecordLimit = ''ERR AOF record limit exceeded''"
| "error_message (EMemory text) = text"
| "error_message EConnectionOnly = ''ERR command requires connection context''"

datatype reply =
    RPong
  | ROk
  | RBulk "bytes option"
  | RInteger int
  | RArray "reply list"
  | RNullArray
  | RError execution_error

fun frame_of_reply :: "reply \<Rightarrow> frame" where
  "frame_of_reply RPong = FSimple ''PONG''"
| "frame_of_reply ROk = FSimple ''OK''"
| "frame_of_reply (RBulk v) = FBulk v"
| "frame_of_reply (RInteger i) = FInteger i"
| "frame_of_reply (RArray rs) = FArray (Some (map frame_of_reply rs))"
| "frame_of_reply RNullArray = FArray None"
| "frame_of_reply (RError e) = FError (error_message e)"

section \<open>RESP3\<close>

fun resp3 :: "frame \<Rightarrow> frame" where
  "resp3 (FBulk None) = FNull"
| "resp3 (FArray None) = FNull"
| "resp3 (FArray (Some fs)) = FArray (Some (map resp3 fs))"
| "resp3 f = f"

text \<open>\<open>typed_resp3\<close> is called with three literal names.\<close>

datatype typed_name = Hgetall | Smembers | Zscore

fun typed_resp3 :: "frame \<Rightarrow> typed_name \<Rightarrow> frame" where
  "typed_resp3 (FArray (Some fs)) Hgetall = FMap (map resp3 fs)"
| "typed_resp3 (FArray (Some fs)) Smembers = FSet (map resp3 fs)"
| "typed_resp3 (FBulk (Some v)) Zscore = FDouble v"
| "typed_resp3 f _ = resp3 f"

fun push :: "frame \<Rightarrow> nat \<Rightarrow> frame" where
  "push (FArray (Some fs)) protocol =
     (if protocol = 3 then FPush (map resp3 fs) else FArray (Some fs))"
| "push f protocol = f"

fun score_pairs :: "frame list \<Rightarrow> frame list" where
  "score_pairs (a # b # fs) =
     FArray (Some [a, case b of FBulk (Some score) \<Rightarrow> FDouble score | other \<Rightarrow> other]) # score_pairs fs"
| "score_pairs _ = []"

fun command_resp3 :: "frame \<Rightarrow> command \<Rightarrow> frame" where
  "command_resp3 f (CHash _ HGetAll) = typed_resp3 f Hgetall"
| "command_resp3 f (CSetCollection _ SMembers) = typed_resp3 f Smembers"
| "command_resp3 f (CSortedSet _ (ZScore _)) = typed_resp3 f Zscore"
| "command_resp3 f (CSortedSet _ (ZRange _ _ True)) =
     (case f of FArray (Some fs) \<Rightarrow> FArray (Some (score_pairs fs)) | _ \<Rightarrow> resp3 f)"
| "command_resp3 f _ = resp3 f"

end
