(* ===== verification/Parser.thy ===== *)
theory Parser
  imports Command
begin

text \<open>
  Request parsing (\<open>src/src/command/parser.rs\<close>, \<open>collections.rs\<close>, \<open>sorted_set.rs\<close>,
  \<open>memory.rs\<close>, \<open>hello.rs\<close>): from a frame to a validated command. An argument
  iterator is the list of the arguments left; where the source unwraps an
  argument its arity check guarantees, the missing case returns the arity error.
\<close>

section \<open>Errors\<close>

datatype request_error =
    InvalidFormat
  | UnsupportedHelloOptions
  | UnsupportedProtocolVersion
  | InvalidProtocolVersion
  | UnknownCommand
  | WrongArity string
  | Syntax
  | QInvalidInteger
  | QInvalidFloat
  | QInvalidSetExpiry
  | QInvalidExpiry string
  | QMemory string

fun is_fatal :: "request_error \<Rightarrow> bool" where
  "is_fatal InvalidFormat = True"
| "is_fatal _ = False"

fun request_error_message :: "request_error \<Rightarrow> bytes" where
  "request_error_message (QMemory text) = text"
| "request_error_message InvalidFormat = ''ERR invalid request format''"
| "request_error_message UnsupportedHelloOptions = ''ERR unsupported HELLO options''"
| "request_error_message UnsupportedProtocolVersion = ''NOPROTO unsupported protocol version''"
| "request_error_message InvalidProtocolVersion =
     ''ERR Protocol version is not an integer or out of range''"
| "request_error_message UnknownCommand = ''ERR unknown command''"
| "request_error_message (WrongArity name) =
     ''ERR wrong number of arguments for '' @ [CHR 0x27] @ name @ [CHR 0x27] @ '' command''"
| "request_error_message Syntax = ''ERR syntax error''"
| "request_error_message QInvalidInteger = ''ERR value is not an integer or out of range''"
| "request_error_message QInvalidFloat = ''ERR value is not a valid float''"
| "request_error_message QInvalidSetExpiry = ''ERR invalid expire time in 'set' command''"
| "request_error_message (QInvalidExpiry name) =
     ''ERR invalid expire time in '' @ [CHR 0x27] @ name @ [CHR 0x27] @ '' command''"

definition into_frame :: "request_error \<Rightarrow> frame" where
  "into_frame e = FError (request_error_message e)"

section \<open>Helpers\<close>

definition request_integer :: "bytes \<Rightarrow> request_error + int" where
  "request_integer value = ok_or (parse_decimal value) QInvalidInteger"

fun pairs :: "'e \<Rightarrow> 'a list \<Rightarrow> 'e + ('a \<times> 'a) list" where
  "pairs e [] = Inr []"
| "pairs e [x] = Inl e"
| "pairs e (x # y # xs) = res_bind (pairs e xs) (\<lambda>ps. Inr ((x, y) # ps))"

text \<open>The loop of \<open>parse_set_options\<close>: options so far, the last duration text and its unit.\<close>

fun set_option_loop ::
  "bytes list \<Rightarrow> set_options \<Rightarrow> bytes option \<Rightarrow> bool option
    \<Rightarrow> request_error + set_options \<times> bytes option \<times> bool option" where
  "set_option_loop [] options duration unit = Inr (options, duration, unit)"
| "set_option_loop (option # args) options duration unit =
     (if eq_ignore_ascii_case option ''NX'' \<and> condition options \<noteq> Present
      then set_option_loop args (options\<lparr>condition := Missing\<rparr>) duration unit
      else if eq_ignore_ascii_case option ''XX'' \<and> condition options \<noteq> Missing
      then set_option_loop args (options\<lparr>condition := Present\<rparr>) duration unit
      else if eq_ignore_ascii_case option ''GET''
      then set_option_loop args (options\<lparr>return_previous := True\<rparr>) duration unit
      else if eq_ignore_ascii_case option ''KEEPTTL'' \<and> duration = None
      then set_option_loop args (options\<lparr>expiry := Keep\<rparr>) duration unit
      else if (eq_ignore_ascii_case option ''EX'' \<or> eq_ignore_ascii_case option ''PX'')
        \<and> expiry options \<noteq> Keep then
        (let seconds = eq_ignore_ascii_case option ''EX''
         in if (case unit of None \<Rightarrow> False | Some previous \<Rightarrow> previous \<noteq> seconds) then Inl Syntax
            else (case args of
                [] \<Rightarrow> Inl Syntax
              | value # rest \<Rightarrow> set_option_loop rest options (Some value) (Some seconds)))
      else Inl Syntax)"

definition parse_set_options :: "bytes list \<Rightarrow> request_error + set_options" where
  "parse_set_options args =
     res_bind (set_option_loop args default_options None None) (\<lambda>(options, duration, unit).
       case duration of
         None \<Rightarrow> Inr options
       | Some text \<Rightarrow>
           res_bind (request_integer text) (\<lambda>value.
             res_bind (if unit = Some True then ok_or (i64_checked (value * 1000)) QInvalidSetExpiry
                       else Inr value) (\<lambda>millis.
               if millis \<le> 0 then Inl QInvalidSetExpiry
               else Inr (options\<lparr>expiry := After (duration_from_millis millis)\<rparr>))))"

section \<open>Sorted sets\<close>

fun score_entries :: "bytes list \<Rightarrow> request_error + (score \<times> bytes) list" where
  "score_entries [] = Inr []"
| "score_entries (text # args) =
     res_bind (ok_or (score_parse text) QInvalidFloat) (\<lambda>score.
       case args of
         [] \<Rightarrow> Inl Syntax
       | member # rest \<Rightarrow> res_bind (score_entries rest) (\<lambda>es. Inr ((score, member) # es)))"

definition range_bounds :: "string \<Rightarrow> bytes list \<Rightarrow> request_error + int \<times> int \<times> bytes list" where
  "range_bounds canonical args =
     (case args of
        [] \<Rightarrow> Inl (WrongArity canonical)
      | a # args \<Rightarrow> res_bind (request_integer a) (\<lambda>start.
          case args of
            [] \<Rightarrow> Inl (WrongArity canonical)
          | b # rest \<Rightarrow> res_bind (request_integer b) (\<lambda>stop. Inr (start, stop, rest))))"

definition parse_sorted_set :: "bytes \<Rightarrow> bytes list \<Rightarrow> request_error + command" where
  "parse_sorted_set name0 args =
     (let name = to_ascii_uppercase name0; n = length args
      in res_bind
        (if name = ''ZADD'' then Inr (''zadd'', n \<ge> 3)
         else if name = ''ZREM'' then Inr (''zrem'', n \<ge> 2)
         else if name = ''ZCARD'' then Inr (''zcard'', n = 1)
         else if name = ''ZSCORE'' then Inr (''zscore'', n = 2)
         else if name = ''ZRANGE'' then Inr (''zrange'', n \<ge> 3)
         else Inl UnknownCommand) (\<lambda>(canonical, valid).
        if \<not> valid then Inl (WrongArity canonical)
        else (case args of
            [] \<Rightarrow> Inl (WrongArity canonical)
          | key # args \<Rightarrow>
              res_bind
                (if name = ''ZADD'' then
                   (if odd (length args) then Inl Syntax
                    else res_bind (score_entries args) (\<lambda>entries. Inr (ZAdd entries)))
                 else if name = ''ZREM'' then Inr (ZRemove args)
                 else if name = ''ZCARD'' then Inr ZCard
                 else if name = ''ZSCORE'' then
                   (case args of [] \<Rightarrow> Inl (WrongArity canonical) | member # _ \<Rightarrow> Inr (ZScore member))
                 else res_bind (range_bounds canonical args) (\<lambda>(start, stop, rest).
                   case rest of
                     [] \<Rightarrow> Inr (ZRange start stop False)
                   | [option] \<Rightarrow> if eq_ignore_ascii_case option ''WITHSCORES''
                                then Inr (ZRange start stop True) else Inl Syntax
                   | _ \<Rightarrow> Inl Syntax))
                (\<lambda>oper. Inr (CSortedSet key oper)))))"

section \<open>Collections\<close>

definition collection_arity :: "bytes \<Rightarrow> nat \<Rightarrow> (string \<times> bool) option" where
  "collection_arity name n =
     (if name = ''HSET'' then Some (''hset'', n \<ge> 3 \<and> n mod 2 = 1)
      else if name = ''HGET'' then Some (''hget'', n = 2)
      else if name = ''HDEL'' then Some (''hdel'', n \<ge> 2)
      else if name = ''HEXISTS'' then Some (''hexists'', n = 2)
      else if name = ''HLEN'' then Some (''hlen'', n = 1)
      else if name = ''HGETALL'' then Some (''hgetall'', n = 1)
      else if name = ''LPUSH'' then Some (''lpush'', n \<ge> 2)
      else if name = ''RPUSH'' then Some (''rpush'', n \<ge> 2)
      else if name = ''LPOP'' then Some (''lpop'', n = 1)
      else if name = ''RPOP'' then Some (''rpop'', n = 1)
      else if name = ''LLEN'' then Some (''llen'', n = 1)
      else if name = ''LRANGE'' then Some (''lrange'', n = 3)
      else if name = ''SADD'' then Some (''sadd'', n \<ge> 2)
      else if name = ''SREM'' then Some (''srem'', n \<ge> 2)
      else if name = ''SISMEMBER'' then Some (''sismember'', n = 2)
      else if name = ''SCARD'' then Some (''scard'', n = 1)
      else if name = ''SMEMBERS'' then Some (''smembers'', n = 1)
      else None)"

definition single_argument :: "string \<Rightarrow> bytes list \<Rightarrow> (bytes \<Rightarrow> 'a) \<Rightarrow> request_error + 'a" where
  "single_argument canonical args f =
     (case args of [] \<Rightarrow> Inl (WrongArity canonical) | a # _ \<Rightarrow> Inr (f a))"

definition parse_set_operation :: "bytes \<Rightarrow> string \<Rightarrow> bytes list \<Rightarrow> request_error + set_command" where
  "parse_set_operation name canonical args =
     (if name = ''SADD'' then Inr (SAdd args)
      else if name = ''SREM'' then Inr (SRemove args)
      else if name = ''SISMEMBER'' then single_argument canonical args SIsMember
      else if name = ''SCARD'' then Inr SCard
      else Inr SMembers)"

definition parse_list_operation :: "bytes \<Rightarrow> string \<Rightarrow> bytes list \<Rightarrow> request_error + list_command" where
  "parse_list_operation name canonical args =
     (if name = ''LPUSH'' \<or> name = ''RPUSH'' then Inr (LPush (hd name = CHR ''L'') args)
      else if name = ''LPOP'' \<or> name = ''RPOP'' then Inr (LPop (hd name = CHR ''L''))
      else if name = ''LLEN'' then Inr LLen
      else res_bind (range_bounds canonical args) (\<lambda>(start, stop, _). Inr (LRange start stop)))"

definition parse_hash_operation :: "bytes \<Rightarrow> string \<Rightarrow> bytes list \<Rightarrow> request_error + hash_command" where
  "parse_hash_operation name canonical args =
     (if name = ''HSET'' then
        res_bind (pairs (WrongArity canonical) args) (\<lambda>entries. Inr (HSet entries))
      else if name = ''HGET'' then single_argument canonical args HGet
      else if name = ''HDEL'' then Inr (HDelete args)
      else if name = ''HEXISTS'' then single_argument canonical args HExists
      else if name = ''HLEN'' then Inr HLen
      else Inr HGetAll)"

definition parse_collection :: "bytes \<Rightarrow> bytes list \<Rightarrow> request_error + command" where
  "parse_collection name0 args =
     (if name0 \<noteq> [] \<and> to_ascii_uppercase1 (hd name0) = CHR ''Z'' then parse_sorted_set name0 args
      else
        let name = to_ascii_uppercase name0
        in case collection_arity name (length args) of
             None \<Rightarrow> Inl UnknownCommand
           | Some (canonical, valid) \<Rightarrow>
               if \<not> valid then Inl (WrongArity canonical)
               else (case args of
                   [] \<Rightarrow> Inl (WrongArity canonical)
                 | key # args \<Rightarrow>
                     if hd name = CHR ''S'' then
                       res_bind (parse_set_operation name canonical args) (\<lambda>oper. Inr (CSetCollection key oper))
                     else if hd name = CHR ''L'' \<or> hd name = CHR ''R'' then
                       res_bind (parse_list_operation name canonical args) (\<lambda>oper. Inr (CList key oper))
                     else
                       res_bind (parse_hash_operation name canonical args) (\<lambda>oper. Inr (CHash key oper))))"


section \<open>Memory commands (\<open>memory.rs\<close>)\<close>

definition MAX_REQUEST_BYTES :: nat where "MAX_REQUEST_BYTES = 262144"

definition ARGUMENT :: request_error where "ARGUMENT = QMemory ''ERR invalid memory argument''"

definition LIMIT :: request_error where "LIMIT = QMemory ''ERR memory limit exceeded''"

definition VECTOR :: request_error where "VECTOR = QMemory ''ERR memory vector length mismatch''"

definition TTL :: request_error where "TTL = QMemory ''ERR invalid memory ttl''"

definition memory_names :: "string list" where
  "memory_names =
     [''mem.create'', ''mem.info'', ''mem.put'', ''mem.get'', ''mem.del'', ''mem.pttl'', ''mem.expire'',
      ''mem.persist'', ''mem.search'']"

definition memory_name :: "bytes \<Rightarrow> string option" where
  "memory_name raw = List.find (eq_ignore_ascii_case raw) memory_names"

definition arg_bounded :: "bytes \<Rightarrow> nat \<Rightarrow> nat \<Rightarrow> request_error + unit" where
  "arg_bounded value minimum maximum =
     ensure (minimum \<le> length value \<and> length value \<le> maximum) LIMIT"

definition unsigned_text :: "bytes \<Rightarrow> request_error + unit" where
  "unsigned_text raw =
     ensure (raw = ''0'' \<or> (raw \<noteq> [] \<and> is_digit_1_9 (hd raw) \<and> list_all is_ascii_digit raw)) ARGUMENT"

fun count_fold :: "nat \<Rightarrow> bytes \<Rightarrow> nat \<Rightarrow> request_error + nat" where
  "count_fold maximum [] value = Inr value"
| "count_fold maximum (d # ds) value =
     res_bind (ok_or (opt_filter (\<lambda>v. v \<le> maximum)
         (Option.bind (checked_mul value 10) (\<lambda>v. checked_add v (digit_value d)))) LIMIT)
       (count_fold maximum ds)"

definition count_arg :: "bytes \<Rightarrow> nat \<Rightarrow> request_error + nat" where
  "count_arg raw maximum = res_bind (unsigned_text raw) (\<lambda>_. count_fold maximum raw 0)"

definition saturating_add :: "nat \<Rightarrow> nat \<Rightarrow> nat" where
  "saturating_add a b = min USIZE_MAX (a + b)"

text \<open>\<open>checked_ilog10().unwrap_or(0)\<close>: one less than the number of decimal digits.\<close>

definition ilog10 :: "nat \<Rightarrow> nat" where
  "ilog10 n = length (dec_digits n) - 1"

definition arg_bulk_size :: "nat \<Rightarrow> nat" where
  "arg_bulk_size n = saturating_add n (ilog10 n + 6)"

definition request_size :: "bytes \<Rightarrow> bytes list \<Rightarrow> nat" where
  "request_size raw args =
     foldl (\<lambda>sz arg. saturating_add sz (arg_bulk_size (length arg)))
       (saturating_add (arg_bulk_size (length raw)) (ilog10 (length args + 1) + 4)) args"

definition memory_arity_ok :: "string \<Rightarrow> nat \<Rightarrow> bool" where
  "memory_arity_ok kind n =
     (if kind = ''mem.put'' then n \<ge> 13
      else if kind = ''mem.search'' then n \<ge> 9
      else if kind = ''mem.create'' then n = 8
      else if kind = ''mem.info'' then n = 1
      else if kind = ''mem.expire'' then n = 3
      else n = 2)"

definition identity ::
  "bytes \<Rightarrow> bytes \<Rightarrow> bytes \<Rightarrow> bytes \<Rightarrow> nat \<Rightarrow> request_error + descriptor" where
  "identity provider' model' revision' transform' dim =
     res_bind (arg_bounded provider' 1 256) (\<lambda>_.
     res_bind (arg_bounded model' 1 256) (\<lambda>_.
     res_bind (arg_bounded revision' 1 256) (\<lambda>_.
     res_bind (arg_bounded transform' 1 256) (\<lambda>_.
       Inr \<lparr>dimension = dim, provider = provider', model = model', revision = revision',
            transform = transform'\<rparr>))))"

definition parse_vector :: "bytes \<Rightarrow> request_error + nat" where
  "parse_vector vector =
     res_bind (ensure (vector \<noteq> [] \<and> length vector mod 4 = 0) VECTOR) (\<lambda>_.
     res_bind (arg_bounded vector 4 (4096 * 4)) (\<lambda>_.
     res_bind (ensure (vector_finite vector) (QMemory ''ERR memory vector contains non-finite value'')) (\<lambda>_.
       Inr (length vector div 4))))"

definition parse_scalar :: "request_error \<Rightarrow> bytes \<Rightarrow> bytes \<Rightarrow> request_error + scalar" where
  "parse_scalar unknown kind value =
     (if eq_ignore_ascii_case kind ''BYTES'' then
        res_bind (arg_bounded value 0 4096) (\<lambda>_. Inr (SBytes value))
      else if eq_ignore_ascii_case kind ''I64'' then
        res_bind (ok_or (parse_decimal value) ARGUMENT) (\<lambda>i. Inr (SInteger i))
      else if eq_ignore_ascii_case kind ''BOOL'' then
        (if value = ''0'' then Inr (SBool False) else if value = ''1'' then Inr (SBool True) else Inl ARGUMENT)
      else Inl unknown)"

text \<open>\<open>n\<close> groups of field, type and value; the arguments left are returned.\<close>

fun parse_metadata ::
  "string \<Rightarrow> request_error \<Rightarrow> nat \<Rightarrow> bytes list \<Rightarrow> (bytes, scalar) btree_map
    \<Rightarrow> request_error + (bytes, scalar) btree_map \<times> bytes list" where
  "parse_metadata kind unknown 0 args acc = Inr (acc, args)"
| "parse_metadata kind unknown (Suc n) (field # scalar_type # value # args) acc =
     res_bind (arg_bounded field 1 64) (\<lambda>_.
     res_bind (parse_scalar unknown scalar_type value) (\<lambda>scalar.
     res_bind (ensure (bm_get acc field = None) ARGUMENT) (\<lambda>_.
       parse_metadata kind unknown n args (bm_insert field scalar acc))))"
| "parse_metadata kind unknown (Suc n) args acc = Inl (WrongArity kind)"

fun parse_provenance ::
  "string \<Rightarrow> nat \<Rightarrow> bytes list \<Rightarrow> (bytes, bytes) btree_map \<Rightarrow> request_error + (bytes, bytes) btree_map" where
  "parse_provenance kind 0 args acc = Inr acc"
| "parse_provenance kind (Suc n) (field # value # args) acc =
     res_bind (arg_bounded field 1 64) (\<lambda>_.
     res_bind (arg_bounded value 0 4096) (\<lambda>_.
     res_bind (ensure (bm_get acc field = None) ARGUMENT) (\<lambda>_.
       parse_provenance kind n args (bm_insert field value acc))))"
| "parse_provenance kind (Suc n) args acc = Inl (WrongArity kind)"

definition parse_ttl :: "bytes \<Rightarrow> request_error + ttl" where
  "parse_ttl raw =
     (if eq_ignore_ascii_case raw ''KEEP'' then Inr TtlKeep
      else (case parse_decimal raw of
          None \<Rightarrow> Inl TTL
        | Some value \<Rightarrow> if value = - 1 then Inr TtlPersistent
                       else if value > 0 then Inr (TtlAfter value) else Inl TTL))"

definition parse_condition :: "bytes \<Rightarrow> request_error + set_condition" where
  "parse_condition value =
     (if eq_ignore_ascii_case value ''UPSERT'' then Inr Always
      else if eq_ignore_ascii_case value ''NX'' then Inr Missing
      else if eq_ignore_ascii_case value ''XX'' then Inr Present
      else Inl ARGUMENT)"

fun parse_create :: "bytes list \<Rightarrow> request_error + operation" where
  "parse_create [version, dim, metric, p, m, r, t] =
     res_bind (unsigned_text version) (\<lambda>_.
     res_bind (ensure (version = ''1'') (QMemory ''ERR unsupported memory schema version'')) (\<lambda>_.
     res_bind (count_arg dim 4096) (\<lambda>n.
     res_bind (ensure (n \<noteq> 0) LIMIT) (\<lambda>_.
     res_bind (ensure (eq_ignore_ascii_case metric ''L2SQ'') (QMemory ''ERR unsupported memory metric'')) (\<lambda>_.
     res_bind (identity p m r t n) (\<lambda>d. Inr (OpCreate d)))))))"
| "parse_create _ = Inl (WrongArity ''mem.create'')"

fun parse_put :: "bytes list \<Rightarrow> request_error + operation" where
  "parse_put (ident # namespace # content # p # m # r # t # vector # raw_ttl # cond # mcount # args) =
     res_bind (arg_bounded ident 1 256) (\<lambda>_.
     res_bind (arg_bounded namespace 0 256) (\<lambda>_.
     res_bind (arg_bounded content 0 65536) (\<lambda>_.
     res_bind (identity p m r t 1) (\<lambda>descriptor.
     res_bind (parse_vector vector) (\<lambda>dim.
     res_bind (parse_ttl raw_ttl) (\<lambda>ttl.
     res_bind (parse_condition cond) (\<lambda>condition'.
     res_bind (count_arg mcount 32) (\<lambda>metadata_count.
     res_bind (ensure (length args \<ge> metadata_count * 3 + 1) (WrongArity ''mem.put'')) (\<lambda>_.
     res_bind (parse_metadata ''mem.put'' ARGUMENT metadata_count args []) (\<lambda>(metadata, args).
       case args of
         [] \<Rightarrow> Inl (WrongArity ''mem.put'')
       | pcount # args \<Rightarrow>
           res_bind (count_arg pcount 16) (\<lambda>provenance_count.
           res_bind (ensure (length args = provenance_count * 2) (WrongArity ''mem.put'')) (\<lambda>_.
           res_bind (parse_provenance ''mem.put'' provenance_count args []) (\<lambda>provenance.
             let descriptor = descriptor\<lparr>dimension := dim\<rparr>;
                 m = \<lparr>mem_id = ident, mem_namespace = namespace, mem_content = content, mem_vector = vector,
                      mem_deadline = None, mem_metadata = metadata, mem_provenance = provenance\<rparr>
             in res_bind (map_err (\<lambda>_. LIMIT) (validate_member m descriptor)) (\<lambda>_.
                  Inr (OpPut descriptor m ttl condition')))))))))))))))"
| "parse_put _ = Inl (WrongArity ''mem.put'')"

fun parse_search :: "bytes list \<Rightarrow> request_error + operation" where
  "parse_search (p # m # r # t # vector # raw_k # namespace # mcount # args) =
     res_bind (identity p m r t 1) (\<lambda>descriptor.
     res_bind (parse_vector vector) (\<lambda>dim.
     res_bind (count_arg raw_k USIZE_MAX) (\<lambda>k.
     res_bind (ensure (1 \<le> k \<and> k \<le> MAX_SEARCH_K) (QMemory ''ERR memory k is out of range'')) (\<lambda>_.
     res_bind (arg_bounded namespace 0 256) (\<lambda>_.
     res_bind (count_arg mcount 32) (\<lambda>metadata_count.
     res_bind (ensure (length args = metadata_count * 3) (WrongArity ''mem.search'')) (\<lambda>_.
     res_bind (parse_metadata ''mem.search'' (QMemory ''ERR unsupported memory filter'') metadata_count args [])
       (\<lambda>(metadata, _). Inr (OpSearch (descriptor\<lparr>dimension := dim\<rparr>) vector k namespace metadata)))))))))"
| "parse_search _ = Inl (WrongArity ''mem.search'')"

definition parse_member_operation :: "string \<Rightarrow> bytes list \<Rightarrow> request_error + operation" where
  "parse_member_operation kind args =
     (case args of
        [] \<Rightarrow> Inl (WrongArity kind)
      | ident # rest \<Rightarrow>
          res_bind (arg_bounded ident 1 256) (\<lambda>_.
            if kind = ''mem.get'' then Inr (OpGet ident)
            else if kind = ''mem.del'' then Inr (OpDelete ident)
            else if kind = ''mem.pttl'' then Inr (OpPttl ident)
            else if kind = ''mem.persist'' then Inr (OpPersist ident)
            else (case rest of
                [] \<Rightarrow> Inl (WrongArity kind)
              | ms # _ \<Rightarrow> res_bind (ok_or (parse_decimal ms) TTL) (\<lambda>ms. Inr (OpExpire ident ms)))))"

definition parse_memory :: "bytes \<Rightarrow> string \<Rightarrow> bytes list \<Rightarrow> request_error + command" where
  "parse_memory raw kind args =
     res_bind (ensure (request_size raw args \<le> MAX_REQUEST_BYTES) LIMIT) (\<lambda>_.
     res_bind (ensure (memory_arity_ok kind (length args)) (WrongArity kind)) (\<lambda>_.
       case args of
         [] \<Rightarrow> Inl (WrongArity kind)
       | key # args \<Rightarrow>
           res_bind (arg_bounded key 1 256) (\<lambda>_.
           res_bind
             (if kind = ''mem.create'' then parse_create args
              else if kind = ''mem.info'' then Inr OpInfo
              else if kind = ''mem.put'' then parse_put args
              else if kind = ''mem.search'' then parse_search args
              else parse_member_operation kind args)
             (\<lambda>oper. Inr (CMemory key oper)))))"

section \<open>Requests (\<open>parser.rs\<close>)\<close>

fun bulk_argument :: "frame \<Rightarrow> bytes option" where
  "bulk_argument (FBulk (Some v)) = Some v"
| "bulk_argument _ = None"

definition parse_exact1 :: "string \<Rightarrow> bytes list \<Rightarrow> (bytes \<Rightarrow> command) \<Rightarrow> request_error + command" where
  "parse_exact1 canonical args f =
     (case args of [a] \<Rightarrow> Inr (f a) | _ \<Rightarrow> Inl (WrongArity canonical))"

definition parse_many :: "string \<Rightarrow> bytes list \<Rightarrow> (bytes list \<Rightarrow> command) \<Rightarrow> request_error + command" where
  "parse_many canonical args f = (if args = [] then Inl (WrongArity canonical) else Inr (f args))"

definition parse_none :: "string \<Rightarrow> bytes list \<Rightarrow> command \<Rightarrow> request_error + command" where
  "parse_none canonical args c = (if args = [] then Inr c else Inl (WrongArity canonical))"

definition parse_set :: "bytes list \<Rightarrow> request_error + command" where
  "parse_set args =
     (case args of
        key # value # rest \<Rightarrow>
          if rest = [] then Inr (CSet key value)
          else res_bind (parse_set_options rest) (\<lambda>options. Inr (CSetWithOptions key value options))
      | _ \<Rightarrow> Inl (WrongArity ''set''))"

definition parse_expire :: "bool \<Rightarrow> bytes list \<Rightarrow> request_error + command" where
  "parse_expire seconds args =
     (let canonical = (if seconds then ''expire'' else ''pexpire'')
      in case args of
           [key, argument] \<Rightarrow>
             res_bind (request_integer argument) (\<lambda>value.
               res_bind (if seconds then ok_or (i64_checked (value * 1000)) (QInvalidExpiry canonical)
                         else Inr value) (\<lambda>_.
                 Inr (CExpire key value (if seconds then Seconds else Milliseconds))))
         | _ \<Rightarrow> Inl (WrongArity canonical))"

definition parse_named :: "bytes \<Rightarrow> bytes list \<Rightarrow> request_error + command" where
  "parse_named name args =
     (let is = eq_ignore_ascii_case name; n = length args
      in case memory_name name of
        Some kind \<Rightarrow> parse_memory name kind args
      | None \<Rightarrow>
        if is ''INFO'' then Inr (CInfo (from_names args))
        else if is ''PING'' then
          (case args of [] \<Rightarrow> Inr (CPing None) | [m] \<Rightarrow> Inr (CPing (Some m)) | _ \<Rightarrow> Inl (WrongArity ''ping''))
        else if is ''ECHO'' then parse_exact1 ''echo'' args CEcho
        else if is ''GET'' then parse_exact1 ''get'' args CGet
        else if is ''SET'' then parse_set args
        else if is ''DEL'' then parse_many ''del'' args CDel
        else if is ''EXISTS'' then parse_many ''exists'' args CExists
        else if is ''MGET'' then parse_many ''mget'' args CMGet
        else if is ''INCR'' then parse_exact1 ''incr'' args CIncr
        else if is ''DECR'' then parse_exact1 ''decr'' args CDecr
        else if is ''MSET'' then
          (if n = 0 \<or> odd n then Inl (WrongArity ''mset'')
           else res_bind (pairs (WrongArity ''mset'') args) (\<lambda>entries. Inr (CMSet entries)))
        else if is ''EXPIRE'' then parse_expire True args
        else if is ''PEXPIRE'' then parse_expire False args
        else if is ''PERSIST'' then parse_exact1 ''persist'' args CPersist
        else if is ''PTTL'' then parse_exact1 ''pttl'' args (\<lambda>key. CTtl key True)
        else if is ''TTL'' then parse_exact1 ''ttl'' args (\<lambda>key. CTtl key False)
        else if is ''MULTI'' then parse_none ''multi'' args CMulti
        else if is ''EXEC'' then parse_none ''exec'' args CExec
        else if is ''DISCARD'' then parse_none ''discard'' args CDiscard
        else if is ''UNWATCH'' then parse_none ''unwatch'' args CUnwatch
        else if is ''WATCH'' then parse_many ''watch'' args CWatch
        else if is ''SUBSCRIBE'' then parse_many ''subscribe'' args CSubscribe
        else if is ''UNSUBSCRIBE'' then Inr (CUnsubscribe args)
        else if is ''PUBLISH'' then
          (case args of [channel, message] \<Rightarrow> Inr (CPublish channel message)
           | _ \<Rightarrow> Inl (WrongArity ''publish''))
        else parse_collection name args)"

definition parse :: "frame \<Rightarrow> request_error + command" where
  "parse f =
     (case f of
        FArray (Some frames) \<Rightarrow>
          res_bind (ok_or (opt_mapM bulk_argument frames) InvalidFormat) (\<lambda>arguments.
            case arguments of
              [] \<Rightarrow> Inl InvalidFormat
            | name # args \<Rightarrow> parse_named name args)
      | _ \<Rightarrow> Inl InvalidFormat)"

section \<open>HELLO and AUTH (\<open>hello.rs\<close>)\<close>

definition bulk_arguments :: "frame \<Rightarrow> request_error + bytes list" where
  "bulk_arguments f =
     (case f of
        FArray (Some frames) \<Rightarrow>
          if frames = [] then Inl InvalidFormat
          else ok_or (opt_mapM bulk_argument frames) InvalidFormat
      | _ \<Rightarrow> Inl InvalidFormat)"

definition parse_auth :: "frame \<Rightarrow> request_error + bytes \<times> bytes" where
  "parse_auth f =
     res_bind (bulk_arguments f) (\<lambda>parts.
       case parts of [_, username, password] \<Rightarrow> Inr (username, password) | _ \<Rightarrow> Inl (WrongArity ''auth''))"

definition hello_version :: "bytes \<Rightarrow> request_error + nat" where
  "hello_version version =
     (if version = ''2'' then Inr 2
      else if version = ''3'' then Inr 3
      else if parse_decimal version \<noteq> None then Inl UnsupportedProtocolVersion
      else Inl InvalidProtocolVersion)"

record hello_authentication =
  hello_protocol :: "nat option"
  hello_credentials :: "(bytes \<times> bytes) option"

definition optional_version :: "bytes list \<Rightarrow> request_error + nat option" where
  "optional_version parts =
     (case parts of _ # version # _ \<Rightarrow> res_bind (hello_version version) (\<lambda>v. Inr (Some v)) | _ \<Rightarrow> Inr None)"

definition parse_hello_auth :: "frame \<Rightarrow> request_error + hello_authentication" where
  "parse_hello_auth f =
     res_bind (bulk_arguments f) (\<lambda>parts.
     res_bind (optional_version parts) (\<lambda>version.
     res_bind
       (case drop 2 parts of
          [] \<Rightarrow> Inr None
        | option # rest \<Rightarrow>
            if \<not> eq_ignore_ascii_case option ''AUTH'' then Inl UnsupportedHelloOptions
            else (case rest of
                [username, password] \<Rightarrow> Inr (Some (username, password))
              | _ \<Rightarrow> Inl Syntax))
       (\<lambda>credentials. Inr \<lparr>hello_protocol = version, hello_credentials = credentials\<rparr>)))"

definition parse_hello :: "frame \<Rightarrow> request_error + nat option" where
  "parse_hello f =
     res_bind (bulk_arguments f) (\<lambda>parts.
       if \<not> eq_ignore_ascii_case (hd parts) ''HELLO'' then Inl UnknownCommand
       else if length parts > 2 then Inl UnsupportedHelloOptions
       else optional_version parts)"

end
