(* ===== verification/Parser_Correct.thy ===== *)
theory Parser_Correct
  imports Parser
begin

text \<open>
  Correctness of request parsing: command names are matched without regard to
  ASCII case, the format of the whole request is checked first and is the only
  fatal error, and every parsed command satisfies \<open>command_ok\<close>, the conditions the
  storage engine relies on.
\<close>

section \<open>Names\<close>

lemma same_name:
  assumes "eq_ignore_ascii_case a b"
  shows "eq_ignore_ascii_case a = eq_ignore_ascii_case b"
    "to_ascii_uppercase a = to_ascii_uppercase b" "length a = length b"
proof -
  show u: "to_ascii_uppercase a = to_ascii_uppercase b" using assms by (simp add: eq_ignore_ascii_case_def)
  then show "eq_ignore_ascii_case a = eq_ignore_ascii_case b" by (auto simp: eq_ignore_ascii_case_def)
  from u show "length a = length b" unfolding to_ascii_uppercase_def by (rule map_eq_imp_length_eq)
qed

lemma hd_to_ascii_uppercase: "a \<noteq> [] \<Longrightarrow> to_ascii_uppercase1 (hd a) = hd (to_ascii_uppercase a)"
  by (cases a) (simp_all add: to_ascii_uppercase_def)

lemma parse_collection_name:
  assumes "eq_ignore_ascii_case a b"
  shows "parse_collection a args = parse_collection b args"
proof -
  note s = same_name [OF assms]
  have z: "a \<noteq> [] \<and> to_ascii_uppercase1 (hd a) = CHR ''Z'' \<longleftrightarrow> b \<noteq> [] \<and> to_ascii_uppercase1 (hd b) = CHR ''Z''"
    using s(2,3) hd_to_ascii_uppercase [of a] hd_to_ascii_uppercase [of b] by fastforce
  have "parse_sorted_set a args = parse_sorted_set b args" by (simp only: parse_sorted_set_def s(2))
  then show ?thesis by (simp only: parse_collection_def z s(2))
qed

lemma parse_memory_name:
  assumes "eq_ignore_ascii_case a b"
  shows "parse_memory a kind args = parse_memory b kind args"
  by (simp only: parse_memory_def request_size_def same_name(3) [OF assms])

lemma parse_named_name:
  assumes "eq_ignore_ascii_case a b"
  shows "parse_named a args = parse_named b args"
  by (simp only: parse_named_def memory_name_def same_name(1) [OF assms]
      parse_memory_name [OF assms] parse_collection_name [OF assms])

section \<open>What every parsed command satisfies\<close>

fun set_options_ok :: "set_options \<Rightarrow> bool" where
  "set_options_ok options =
     (case expiry options of After d \<Rightarrow> 0 < d \<and> d \<le> I64_MAX * NANOS_PER_MILLI | _ \<Rightarrow> True)"

definition operation_ok :: "operation \<Rightarrow> bool" where
  "operation_ok oper \<longleftrightarrow>
     (case oper of
        OpCreate d \<Rightarrow> validate_descriptor d = Inr ()
      | OpPut d m t _ \<Rightarrow> validate_member m d = Inr () \<and> mem_deadline m = None
          \<and> bm_ok (mem_metadata m) \<and> bm_ok (mem_provenance m)
          \<and> (case t of TtlAfter ms \<Rightarrow> 0 < ms \<and> i64_ok ms | _ \<Rightarrow> True)
      | OpSearch d v k ns md \<Rightarrow> 1 \<le> k \<and> k \<le> MAX_SEARCH_K \<and> length v = dimension d * 4 \<and> vector_finite v
          \<and> length ns \<le> 256 \<and> length md \<le> 32 \<and> bm_ok md
      | OpExpire _ ms \<Rightarrow> i64_ok ms
      | _ \<Rightarrow> True)"

definition sorted_set_command_ok :: "sorted_set_command \<Rightarrow> bool" where
  "sorted_set_command_ok oper \<longleftrightarrow>
     (case oper of
        ZAdd es \<Rightarrow> es \<noteq> [] \<and> list_all (score_ok \<circ> fst) es
      | ZRemove ms \<Rightarrow> ms \<noteq> []
      | ZRange a b _ \<Rightarrow> i64_ok a \<and> i64_ok b
      | _ \<Rightarrow> True)"

definition set_command_ok :: "set_command \<Rightarrow> bool" where
  "set_command_ok oper \<longleftrightarrow> (case oper of SAdd ms \<Rightarrow> ms \<noteq> [] | SRemove ms \<Rightarrow> ms \<noteq> [] | _ \<Rightarrow> True)"

definition hash_command_ok :: "hash_command \<Rightarrow> bool" where
  "hash_command_ok oper \<longleftrightarrow> (case oper of HSet es \<Rightarrow> es \<noteq> [] | HDelete fs \<Rightarrow> fs \<noteq> [] | _ \<Rightarrow> True)"

definition list_command_ok :: "list_command \<Rightarrow> bool" where
  "list_command_ok oper \<longleftrightarrow>
     (case oper of LPush _ vs \<Rightarrow> vs \<noteq> [] | LRange a b \<Rightarrow> i64_ok a \<and> i64_ok b | _ \<Rightarrow> True)"

definition command_ok :: "command \<Rightarrow> bool" where
  "command_ok c \<longleftrightarrow>
     (case c of
        CMemory key oper \<Rightarrow> 1 \<le> length key \<and> length key \<le> 256 \<and> operation_ok oper
      | CSortedSet _ oper \<Rightarrow> sorted_set_command_ok oper
      | CSetCollection _ oper \<Rightarrow> set_command_ok oper
      | CHash _ oper \<Rightarrow> hash_command_ok oper
      | CList _ oper \<Rightarrow> list_command_ok oper
      | CSetWithOptions _ _ options \<Rightarrow> set_options_ok options
      | CDel keys \<Rightarrow> keys \<noteq> []
      | CExists keys \<Rightarrow> keys \<noteq> []
      | CMGet keys \<Rightarrow> keys \<noteq> []
      | CMSet entries \<Rightarrow> entries \<noteq> []
      | CExpire _ v u \<Rightarrow> i64_ok v \<and> (u = Seconds \<longrightarrow> i64_ok (v * 1000))
      | CSubscribe channels \<Rightarrow> channels \<noteq> []
      | CWatch keys \<Rightarrow> keys \<noteq> []
      | _ \<Rightarrow> True)"

lemma res_all_list [res_all_intros]:
  "(xs = [] \<Longrightarrow> res_all P r) \<Longrightarrow> (\<And>y ys. xs = y # ys \<Longrightarrow> res_all P (s y ys)) \<Longrightarrow>
     res_all P (case xs of [] \<Rightarrow> r | y # ys \<Rightarrow> s y ys)"
  by (cases xs) simp_all

lemma res_all_prod [res_all_intros]:
  "(\<And>a b. p = (a, b) \<Longrightarrow> res_all P (f a b)) \<Longrightarrow> res_all P (case p of (a, b) \<Rightarrow> f a b)"
  by (cases p) simp

lemma res_all_True: "res_all (\<lambda>_. True) r"
  by (simp add: res_all_def)

lemma parse_decimal_ok: "parse_decimal b = Some i \<Longrightarrow> i64_ok i"
  by (auto simp: parse_decimal_def checked_simps Let_def i64_ok_def I64_MIN_def I64_MAX_def
      split: if_splits prod.splits)

lemma request_integer_ok: "request_integer b = Inr i \<Longrightarrow> i64_ok i"
  by (auto simp: request_integer_def result_simps parse_decimal_ok)

lemma set_option_loop_ok:
  "(\<And>d. expiry options \<noteq> After d) \<Longrightarrow>
     res_all (\<lambda>(o', _). \<forall>d. expiry o' \<noteq> After d) (set_option_loop args options duration unit)"
proof (induction args options duration unit rule: set_option_loop.induct)
  case (2 option args options duration unit)
  show ?case
    unfolding set_option_loop.simps Let_def
    by (intro res_all_intros "2.IH") (use "2.prems" in simp_all)
qed (simp add: res_all_def)

lemma millis_bounds: "0 < i \<Longrightarrow> i64_ok i \<Longrightarrow> 0 < duration_from_millis i
    \<and> duration_from_millis i \<le> I64_MAX * NANOS_PER_MILLI"
  by (auto simp: duration_from_millis_def NANOS_PER_MILLI_def i64_ok_def)

lemma parse_set_options_ok: "res_all set_options_ok (parse_set_options args)"
  unfolding parse_set_options_def
proof (intro res_all_intros)
  fix x options du duration unit
  assume "set_option_loop args default_options None None = Inr x" "x = (options, du)" "du = (duration, unit)"
  then have e: "expiry options \<noteq> After d" for d
    using res_allD [OF set_option_loop_ok [of default_options args None None]]
    by (auto simp: default_options_def)
  then show "set_options_ok options" by (auto split: set_expiry.splits)
  fix raw v millis
  assume "request_integer raw = Inr v"
    and m: "(if unit = Some True then ok_or (i64_checked (v * 1000)) QInvalidSetExpiry else Inr v) = Inr millis"
    and pos: "\<not> millis \<le> 0"
  then have "i64_ok millis"
    using request_integer_ok by (auto simp: result_simps checked_simps split: if_splits)
  with pos show "set_options_ok (options\<lparr>expiry := After (duration_from_millis millis)\<rparr>)"
    using millis_bounds [of millis] by simp
qed


lemma score_entries_ok:
  "res_all (\<lambda>es. list_all (score_ok \<circ> fst) es \<and> (args \<noteq> [] \<longrightarrow> es \<noteq> [])) (score_entries args)"
proof (induction args rule: score_entries.induct)
  case (2 t args)
  show ?case
    unfolding score_entries.simps
  proof (intro res_all_intros)
    fix sc m rest es
    assume "ok_or (score_parse t) QInvalidFloat = Inr sc" "args = m # rest" "score_entries rest = Inr es"
    with "2.IH" [of sc m rest] show "list_all (score_ok \<circ> fst) ((sc, m) # es) \<and> (t # args \<noteq> [] \<longrightarrow> (sc, m) # es \<noteq> [])"
      by (auto simp: result_simps score_parse_ok res_all_def comp_def)
  qed
qed (simp add: res_all_def)

lemma range_bounds_ok: "res_all (\<lambda>(a, b, _). i64_ok a \<and> i64_ok b) (range_bounds canonical args)"
  unfolding range_bounds_def
  by (intro res_all_intros) (auto dest: request_integer_ok)

lemma pairs_nonempty: "pairs e xs = Inr ps \<Longrightarrow> xs \<noteq> [] \<Longrightarrow> ps \<noteq> []"
  by (induction e xs rule: pairs.induct) (auto simp: result_simps)

lemma parse_sorted_set_ok: "res_all command_ok (parse_sorted_set name args)"
proof -
  have z: "score_entries args' = Inr es \<Longrightarrow> list_all (score_ok \<circ> fst) es \<and> (args' \<noteq> [] \<longrightarrow> es \<noteq> [])" for args' es
    by (rule res_allD [OF score_entries_ok])
  have r: "range_bounds c args' = Inr (a, b, rest) \<Longrightarrow> i64_ok a \<and> i64_ok b" for c args' a b rest
    using res_allD [OF range_bounds_ok, of c args' "(a, b, rest)"] by simp
  show ?thesis
    unfolding parse_sorted_set_def Let_def
    by (intro res_all_intros)
      (auto simp: command_ok_def sorted_set_command_ok_def result_simps dest!: z r
        split: if_splits list.splits)
qed

definition many_names :: "string list" where
  "many_names = [''HSET'', ''HDEL'', ''LPUSH'', ''RPUSH'', ''SADD'', ''SREM'']"

lemma collection_arity_many:
  "collection_arity name n = Some (c, True) \<Longrightarrow> name \<in> set many_names \<Longrightarrow> 2 \<le> n"
  by (auto simp: collection_arity_def many_names_def)

lemma parse_set_operation_ok:
  "parse_set_operation name c args = Inr oper \<Longrightarrow> (name \<in> set many_names \<Longrightarrow> args \<noteq> []) \<Longrightarrow> set_command_ok oper"
  by (auto simp: parse_set_operation_def set_command_ok_def single_argument_def many_names_def
      split: if_splits list.splits)

lemma parse_list_operation_ok:
  "parse_list_operation name c args = Inr oper \<Longrightarrow> (name \<in> set many_names \<Longrightarrow> args \<noteq> []) \<Longrightarrow> list_command_ok oper"
  using res_allD [OF range_bounds_ok, of c args]
  by (auto simp: parse_list_operation_def list_command_ok_def many_names_def result_simps split: if_splits)

lemma parse_hash_operation_ok:
  "parse_hash_operation name c args = Inr oper \<Longrightarrow> (name \<in> set many_names \<Longrightarrow> args \<noteq> []) \<Longrightarrow> hash_command_ok oper"
  by (auto simp: parse_hash_operation_def hash_command_ok_def single_argument_def many_names_def result_simps
      dest: pairs_nonempty split: if_splits list.splits)

lemma parse_collection_ok: "res_all command_ok (parse_collection name args)"
  unfolding parse_collection_def Let_def
proof (intro res_all_intros parse_sorted_set_ok)
  fix r canonical valid key args' oper
  assume "collection_arity (to_ascii_uppercase name) (length args) = Some r" "r = (canonical, valid)"
    "\<not> \<not> valid" and args: "args = key # args'"
  then have many: "to_ascii_uppercase name \<in> set many_names \<Longrightarrow> args' \<noteq> []"
    using collection_arity_many [of "to_ascii_uppercase name" "length args" canonical] by auto
  show "command_ok (CSetCollection key oper)"
    if "parse_set_operation (to_ascii_uppercase name) canonical args' = Inr oper" for oper
    using parse_set_operation_ok [OF that many] by (simp add: command_ok_def)
  show "command_ok (CList key oper)"
    if "parse_list_operation (to_ascii_uppercase name) canonical args' = Inr oper" for oper
    using parse_list_operation_ok [OF that many] by (simp add: command_ok_def)
  show "command_ok (CHash key oper)"
    if "parse_hash_operation (to_ascii_uppercase name) canonical args' = Inr oper" for oper
    using parse_hash_operation_ok [OF that many] by (simp add: command_ok_def)
qed

section \<open>Memory requests\<close>

lemma arg_bounded_Inr_iff [result_simps]:
  "arg_bounded v a b = Inr u \<longleftrightarrow> a \<le> length v \<and> length v \<le> b"
  by (simp add: arg_bounded_def result_simps)

lemma bounded_Inr_iff [result_simps]: "bounded v a b = Inr u \<longleftrightarrow> a \<le> length v \<and> length v \<le> b"
  by (simp add: bounded_def result_simps)

lemma count_arg_le: "count_arg raw maximum = Inr n \<Longrightarrow> n \<le> maximum"
proof -
  have "count_fold maximum ds v = Inr n \<Longrightarrow> v \<le> maximum \<Longrightarrow> n \<le> maximum" for ds v
    by (induction ds arbitrary: v) (auto simp: result_simps)
  then show "count_arg raw maximum = Inr n \<Longrightarrow> n \<le> maximum" by (auto simp: count_arg_def result_simps)
qed

lemma identity_ok:
  "identity p m r t n = Inr d \<Longrightarrow> 1 \<le> k \<Longrightarrow> k \<le> MAX_DIMENSION \<Longrightarrow> validate_descriptor (d\<lparr>dimension := k\<rparr>) = Inr ()"
  by (auto simp: identity_def validate_descriptor_def result_simps)

lemma identity_dimension: "identity p m r t n = Inr d \<Longrightarrow> d\<lparr>dimension := n\<rparr> = d"
  by (auto simp: identity_def result_simps)

lemma parse_metadata_ok:
  "res_all (\<lambda>(md, _). bm_ok md \<and> length md = length acc + n) (parse_metadata kind unknown n args acc)"
  if "bm_ok acc"
  using that
proof (induction kind unknown n args acc rule: parse_metadata.induct)
  case (2 kind unknown n field t v args acc)
  show ?case
    unfolding parse_metadata.simps
  proof (intro res_all_intros)
    fix x sc y
    assume a: "arg_bounded field 1 64 = Inr x" "parse_scalar unknown t v = Inr sc"
      "ensure (bm_get acc field = None) ARGUMENT = Inr y"
    then have "length (bm_insert field sc acc) = Suc (length acc)"
      by (simp add: length_bm_insert [OF "2.prems"] result_simps)
    with "2.IH" [OF a] "2.prems"
    show "res_all (\<lambda>(md, _). bm_ok md \<and> length md = length acc + Suc n)
        (parse_metadata kind unknown n args (bm_insert field sc acc))" by simp
  qed
qed (auto simp: res_all_def)

lemma parse_provenance_ok:
  "res_all bm_ok (parse_provenance kind n args acc)" if "bm_ok acc"
  using that
proof (induction kind n args acc rule: parse_provenance.induct)
  case (2 kind n field v args acc)
  then show ?case unfolding parse_provenance.simps by (intro res_all_intros "2.IH") auto
qed (auto simp: res_all_def)

lemma parse_create_ok: "res_all operation_ok (parse_create args)"
proof (cases args rule: parse_create.cases)
  case (1 version dim metric p m r t)
  show ?thesis
    unfolding 1 parse_create.simps
  proof (intro res_all_intros)
    fix n d x assume "count_arg dim 4096 = Inr n" "ensure (n \<noteq> 0) LIMIT = Inr x" "identity p m r t n = Inr d"
    then show "operation_ok (OpCreate d)"
      using count_arg_le [of dim 4096 n] identity_ok [of p m r t n d n] identity_dimension [of p m r t n d]
      by (auto simp: operation_ok_def MAX_DIMENSION_def result_simps)
  qed
qed (auto simp: res_all_def)

lemma parse_ttl_ok: "parse_ttl raw = Inr (TtlAfter ms) \<Longrightarrow> 0 < ms \<and> i64_ok ms"
  by (auto simp: parse_ttl_def parse_decimal_ok split: if_splits option.splits)


lemma parse_vector_ok:
  "parse_vector v = Inr n \<Longrightarrow> length v = n * 4 \<and> 1 \<le> n \<and> n \<le> MAX_DIMENSION \<and> vector_finite v"
  by (auto simp: parse_vector_def MAX_DIMENSION_def result_simps)

lemma parse_put_ok: "res_all operation_ok (parse_put args)"
proof (cases args rule: parse_put.cases)
  case (1 ident ns content p m r t vector raw_ttl cond mcount args')
  show ?thesis
    unfolding 1 parse_put.simps Let_def
  proof (intro res_all_intros)
    fix descriptor dim ttl cond' n mp metadata rest pc rest' pn provenance u
    assume a: "parse_ttl raw_ttl = Inr ttl" "parse_metadata ''mem.put'' ARGUMENT n args' [] = Inr mp"
      "mp = (metadata, rest)" "parse_provenance ''mem.put'' pn rest' [] = Inr provenance"
      "map_err (\<lambda>_. LIMIT) (validate_member
         \<lparr>mem_id = ident, mem_namespace = ns, mem_content = content, mem_vector = vector,
          mem_deadline = None, mem_metadata = metadata, mem_provenance = provenance\<rparr>
         (descriptor\<lparr>dimension := dim\<rparr>)) = Inr u"
    have "bm_ok metadata" "bm_ok provenance"
      using res_allD [OF parse_metadata_ok [OF bm_ok_Nil] a(2)] a(3) res_allD [OF parse_provenance_ok [OF bm_ok_Nil] a(4)]
      by auto
    then show "operation_ok (OpPut (descriptor\<lparr>dimension := dim\<rparr>)
        \<lparr>mem_id = ident, mem_namespace = ns, mem_content = content, mem_vector = vector,
         mem_deadline = None, mem_metadata = metadata, mem_provenance = provenance\<rparr> ttl cond')"
      using a(1,5) parse_ttl_ok [of raw_ttl] by (auto simp: operation_ok_def result_simps split: ttl.split)
  qed
qed (auto simp: res_all_def)

lemma parse_search_ok: "res_all operation_ok (parse_search args)"
proof (cases args rule: parse_search.cases)
  case (1 p m r t vector raw_k ns mcount args')
  show ?thesis
    unfolding 1 parse_search.simps
  proof (intro res_all_intros)
    fix d dim k x y n mp md rest
    assume a: "parse_vector vector = Inr dim" "ensure (1 \<le> k \<and> k \<le> MAX_SEARCH_K) (QMemory ''ERR memory k is out of range'') = Inr x"
      "arg_bounded ns 0 256 = Inr y" "count_arg mcount 32 = Inr n"
      "parse_metadata ''mem.search'' (QMemory ''ERR unsupported memory filter'') n args' [] = Inr mp" "mp = (md, rest)"
    then have "bm_ok md" "length md \<le> 32"
      using res_allD [OF parse_metadata_ok [OF bm_ok_Nil] a(5)] count_arg_le [OF a(4)] by auto
    then show "operation_ok (OpSearch (d\<lparr>dimension := dim\<rparr>) vector k ns md)"
      using a(2,3) parse_vector_ok [OF a(1)] by (simp add: operation_ok_def result_simps)
  qed
qed (auto simp: res_all_def)

lemma parse_member_operation_ok: "res_all operation_ok (parse_member_operation kind args)"
  unfolding parse_member_operation_def
  by (intro res_all_intros) (auto simp: operation_ok_def result_simps parse_decimal_ok)

lemma parse_memory_ok: "res_all command_ok (parse_memory raw kind args)"
  unfolding parse_memory_def
proof (intro res_all_intros)
  fix key args' x oper
  assume "arg_bounded key 1 256 = Inr x"
    and "(if kind = ''mem.create'' then parse_create args'
      else if kind = ''mem.info'' then Inr OpInfo
      else if kind = ''mem.put'' then parse_put args'
      else if kind = ''mem.search'' then parse_search args'
      else parse_member_operation kind args') = Inr oper"
  moreover from this(2) have "operation_ok oper"
    using res_allD [OF parse_create_ok] res_allD [OF parse_put_ok] res_allD [OF parse_search_ok]
      res_allD [OF parse_member_operation_ok]
    by (auto simp: operation_ok_def [of OpInfo] split: if_splits)
  ultimately show "command_ok (CMemory key oper)" by (simp add: command_ok_def result_simps)
qed

section \<open>The whole request\<close>

lemma parse_set_ok: "res_all command_ok (parse_set args)"
  unfolding parse_set_def
  by (intro res_all_intros)
    (auto simp: command_ok_def simp del: set_options_ok.simps dest: res_allD [OF parse_set_options_ok])

lemma parse_expire_ok: "res_all command_ok (parse_expire seconds args)"
  unfolding parse_expire_def Let_def
  by (intro res_all_intros) (auto simp: command_ok_def result_simps checked_simps dest!: request_integer_ok split: if_splits)

lemma parse_simple_ok:
  "(\<And>a. command_ok (f a)) \<Longrightarrow> res_all command_ok (parse_exact1 canonical args f)"
  "(\<And>as. as \<noteq> [] \<Longrightarrow> command_ok (g as)) \<Longrightarrow> res_all command_ok (parse_many canonical args g)"
  "command_ok c \<Longrightarrow> res_all command_ok (parse_none canonical args c)"
  by (auto simp: parse_exact1_def parse_many_def parse_none_def res_all_def split: list.split)

lemma parse_named_ok: "res_all command_ok (parse_named name args)"
  unfolding parse_named_def Let_def
  by (intro res_all_intros parse_memory_ok parse_collection_ok parse_set_ok parse_expire_ok parse_simple_ok)
    (auto simp: command_ok_def dest: pairs_nonempty)

text \<open>
  C21. A parsed request is a valid command: every command the parser returns has the
  argument lists, integer ranges, expiry durations, scores and memory images
  that the storage engine assumes of it.
\<close>

theorem parse_ok:
  assumes "parse f = Inr c"
  shows "command_ok c"
proof -
  have "res_all command_ok (parse f)"
    unfolding parse_def
    by (cases f) (auto intro!: res_all_intros parse_named_ok simp: res_all_Inl split: option.split)
  then show ?thesis using assms by (rule res_allD)
qed

definition request_frame :: "bytes list \<Rightarrow> frame" where
  "request_frame args = FArray (Some (map (FBulk \<circ> Some) args))"

lemma opt_mapM_bulk: "opt_mapM bulk_argument (map (FBulk \<circ> Some) args) = Some args"
  by (induction args) simp_all

lemma parse_request_frame: "parse (request_frame (name # args)) = parse_named name args"
  using opt_mapM_bulk [of "name # args"] by (simp add: parse_def request_frame_def)

theorem parse_ok_witness:
  "command_ok (CSetWithOptions ''k'' ''v'' \<lparr>condition = Missing, expiry = Keep, return_previous = True\<rparr>)"
proof (rule parse_ok)
  show "parse (request_frame [''set'', ''k'', ''v'', ''nx'', ''get'', ''keepttl''])
      = Inr (CSetWithOptions ''k'' ''v'' \<lparr>condition = Missing, expiry = Keep, return_previous = True\<rparr>)"
    by code_simp
qed

text \<open>
  C32. Command names are case-insensitive: two requests whose names agree up to ASCII
  case, with the same arguments, parse to the same result, error or command.
\<close>

theorem parse_ignores_case:
  assumes "eq_ignore_ascii_case a b"
  shows "parse (request_frame (a # args)) = parse (request_frame (b # args))"
  by (simp only: parse_request_frame parse_named_name [OF assms])

theorem parse_ignores_case_witness:
  "parse (request_frame [''sEt'', ''k'', ''v'']) = parse (request_frame [''SET'', ''k'', ''v''])"
  by (rule parse_ignores_case) code_simp

section \<open>Fatal errors\<close>

text \<open>\<open>mild r\<close>: the result is not a fatal error.\<close>

definition mild :: "request_error + 'a \<Rightarrow> bool" where
  "mild r \<longleftrightarrow> (\<forall>e. r = Inl e \<longrightarrow> \<not> is_fatal e)"

named_theorems mild_intros

lemma mild_basic [mild_intros]:
  "mild (Inr x)"
  "\<not> is_fatal e \<Longrightarrow> mild (Inl e)"
  "\<not> is_fatal e \<Longrightarrow> mild (ok_or m e)"
  "\<not> is_fatal e \<Longrightarrow> mild (ensure b e)"
  "(\<And>e. \<not> is_fatal (f e)) \<Longrightarrow> mild (map_err f m')"
  by (cases m; cases m'; auto simp: mild_def ensure_def)+

lemma mild_bind [mild_intros]: "mild m \<Longrightarrow> (\<And>x. m = Inr x \<Longrightarrow> mild (f x)) \<Longrightarrow> mild (res_bind m f)"
  by (cases m) (auto simp: mild_def)

lemma mild_if [mild_intros]: "(b \<Longrightarrow> mild r) \<Longrightarrow> (\<not> b \<Longrightarrow> mild s) \<Longrightarrow> mild (if b then r else s)"
  by simp

lemma mild_case [mild_intros]:
  "(x = None \<Longrightarrow> mild r) \<Longrightarrow> (\<And>y. x = Some y \<Longrightarrow> mild (s y)) \<Longrightarrow> mild (case x of None \<Rightarrow> r | Some y \<Rightarrow> s y)"
  "(xs = [] \<Longrightarrow> mild r) \<Longrightarrow> (\<And>y ys. xs = y # ys \<Longrightarrow> mild (s' y ys)) \<Longrightarrow> mild (case xs of [] \<Rightarrow> r | y # ys \<Rightarrow> s' y ys)"
  "(\<And>a b. p = (a, b) \<Longrightarrow> mild (g a b)) \<Longrightarrow> mild (case p of (a, b) \<Rightarrow> g a b)"
  by (cases x; cases xs; cases p; simp)+

lemma mild_constants [simp]: "\<not> is_fatal ARGUMENT" "\<not> is_fatal LIMIT" "\<not> is_fatal VECTOR" "\<not> is_fatal TTL"
  by (simp_all add: ARGUMENT_def LIMIT_def VECTOR_def TTL_def)

lemma mild_request_integer [mild_intros]: "mild (request_integer b)"
  unfolding request_integer_def by (intro mild_intros) simp

lemma mild_pairs [mild_intros]: "\<not> is_fatal e \<Longrightarrow> mild (pairs e xs)"
  by (induction e xs rule: pairs.induct) (auto intro!: mild_intros)

lemma mild_set_option_loop [mild_intros]: "mild (set_option_loop args options duration unit)"
proof (induction args options duration unit rule: set_option_loop.induct)
  case (2 option args options duration unit)
  show ?case unfolding set_option_loop.simps Let_def by (intro mild_intros "2.IH") simp_all
qed (simp add: mild_intros)

lemma mild_parse_set [mild_intros]: "mild (parse_set args)"
  unfolding parse_set_def parse_set_options_def by (intro mild_intros) simp_all

lemma mild_score_entries [mild_intros]: "mild (score_entries args)"
proof (induction args rule: score_entries.induct)
  case (2 t args)
  show ?case unfolding score_entries.simps by (intro mild_intros "2.IH") auto
qed (simp add: mild_intros)

lemma mild_range_bounds [mild_intros]: "mild (range_bounds canonical args)"
  unfolding range_bounds_def by (intro mild_intros) simp_all

lemma mild_collection [mild_intros]: "mild (parse_collection name args)"
  unfolding parse_collection_def parse_sorted_set_def parse_set_operation_def parse_list_operation_def
    parse_hash_operation_def single_argument_def Let_def
  by (intro mild_intros) simp_all

lemma mild_memory_arguments [mild_intros]:
  "mild (arg_bounded v a b)" "mild (unsigned_text v)" "mild (identity p m r t n)" "mild (parse_vector v)"
  "mild (parse_ttl v)" "mild (parse_condition v)"
  unfolding arg_bounded_def unsigned_text_def identity_def parse_vector_def parse_ttl_def parse_condition_def
  by (intro mild_intros; simp)+

lemma mild_count_arg [mild_intros]: "mild (count_arg v n)"
proof -
  have "mild (count_fold n ds k)" for ds k
    by (induction ds arbitrary: k) (auto intro!: mild_intros)
  then show ?thesis unfolding count_arg_def by (intro mild_intros)
qed

lemma mild_parse_metadata [mild_intros]: "\<not> is_fatal unknown \<Longrightarrow> mild (parse_metadata kind unknown n args acc)"
proof (induction kind unknown n args acc rule: parse_metadata.induct)
  case (2 kind unknown n field t v args acc)
  have "mild (parse_scalar unknown t v)"
    unfolding parse_scalar_def by (intro mild_intros) (use "2.prems" in simp_all)
  with "2.prems" show ?case unfolding parse_metadata.simps by (intro mild_intros "2.IH") simp_all
qed (auto intro!: mild_intros)

lemma mild_parse_provenance [mild_intros]: "mild (parse_provenance kind n args acc)"
proof (induction kind n args acc rule: parse_provenance.induct)
  case (2 kind n field v args acc)
  then show ?case unfolding parse_provenance.simps by (intro mild_intros "2.IH") auto
qed (auto intro!: mild_intros)

lemma mild_operations [mild_intros]:
  "mild (parse_create args)" "mild (parse_put args)" "mild (parse_search args)"
  "mild (parse_member_operation kind args)"
  subgoal by (cases args rule: parse_create.cases) (simp_all only: parse_create.simps, (intro mild_intros; simp)+)
  subgoal by (cases args rule: parse_put.cases) (simp_all only: parse_put.simps Let_def, (intro mild_intros; simp)+)
  subgoal by (cases args rule: parse_search.cases) (simp_all only: parse_search.simps, (intro mild_intros; simp)+)
  subgoal unfolding parse_member_operation_def by (intro mild_intros; simp)
  done

lemma mild_parse_named: "mild (parse_named name args)"
  unfolding parse_named_def parse_memory_def parse_exact1_def parse_many_def parse_none_def parse_expire_def Let_def
  by (intro mild_intros) simp_all

lemma bulk_argument_Some_iff: "bulk_argument f = Some b \<longleftrightarrow> f = FBulk (Some b)"
  by (cases f rule: bulk_argument.cases) auto

lemma request_frame_iff: "opt_mapM bulk_argument fs = Some args \<longleftrightarrow> fs = map (FBulk \<circ> Some) args"
  by (induction fs arbitrary: args) (auto simp: bind_eq_Some_conv bulk_argument_Some_iff map_eq_Cons_conv)

text \<open>
  C31. The format of the whole request is validated before its name or arity, and only
  that failure closes the connection: parsing fails fatally exactly when the
  frame is not a non-empty array of non-null bulk strings.
\<close>

theorem parse_fatal_iff:
  "(\<exists>e. parse f = Inl e \<and> is_fatal e) \<longleftrightarrow> (\<nexists>name args. f = request_frame (name # args))"
proof
  assume "\<exists>e. parse f = Inl e \<and> is_fatal e"
  then show "\<nexists>name args. f = request_frame (name # args)"
    using mild_parse_named by (auto simp: parse_request_frame mild_def)
next
  assume n: "\<nexists>name args. f = request_frame (name # args)"
  have "parse f = Inl InvalidFormat"
  proof (cases "\<exists>fs args. f = FArray (Some fs) \<and> opt_mapM bulk_argument fs = Some args")
    case True
    then obtain args where "f = request_frame args" by (auto simp: request_frame_iff request_frame_def)
    with n show ?thesis by (cases args) (auto simp: request_frame_def parse_def)
  next
    case False
    then show ?thesis by (cases f) (auto simp: parse_def split: option.split)
  qed
  then show "\<exists>e. parse f = Inl e \<and> is_fatal e" by simp
qed

end
