(* ===== verification/Memory_Correct.thy ===== *)
theory Memory_Correct
  imports Memory
begin

text \<open>
  Correctness of memory collections: the bounded heap search returns exactly the
  \<open>k\<close> nearest live members, and a guarded list of edits keeps the collection
  invariant and has the effect of its edits in order.
\<close>

definition search_candidates ::
  "collection \<Rightarrow> bytes \<Rightarrow> bytes \<Rightarrow> (bytes, scalar) btree_map \<Rightarrow> int \<Rightarrow> search_hit list" where
  "search_candidates c vector namespace metadata unix_ms =
     map (\<lambda>m. (squared_distance vector (mem_vector m), mem_id m))
       (filter (matches_member namespace metadata unix_ms (\<lambda>_. True)) (map snd (coll_members c)))"

lemma members_distinct: "members_ok d ms \<Longrightarrow> distinct (map mem_id (map snd ms))"
proof -
  assume ok: "members_ok d ms"
  then have "map mem_id (map snd ms) = map fst ms" by (auto simp: members_ok_def)
  with ok show ?thesis using bm_ok_distinct by (metis members_ok_def)
qed

text \<open>
  C17. Search is exact: whenever a search of a valid collection succeeds, the hits are
  the first \<open>k\<close> of all live members of the namespace that match the filter, ordered
  by squared distance and then by identifier.
\<close>

theorem search_is_exact:
  assumes "collection_ok c" "search c vector k namespace metadata unix_ms = Inr hits"
  shows "hits = map (\<lambda>(distance, ident). (ident, distance))
    (take k (sort_key hit_key (search_candidates c vector namespace metadata unix_ms)))"
proof -
  from assms(2) have "0 < k"
    by (auto simp: search_def search_with_visibility_stats_def result_simps)
  moreover have "distinct (map mem_id (map snd (coll_members c)))"
    using assms(1) members_distinct by (auto simp: collection_ok_def)
  ultimately show ?thesis
    using assms(2) search_exact
    by (auto simp: search_def search_with_visibility_stats_def search_candidates_def result_simps Let_def
        case_prod_unfold)
qed

definition sample_descriptor :: descriptor where
  "sample_descriptor = \<lparr>dimension = 1, provider = ''p'', model = ''m'', revision = ''r'', transform = ''t''\<rparr>"

definition sample_member :: "bytes \<Rightarrow> bytes \<Rightarrow> member" where
  "sample_member ident vector = \<lparr>mem_id = ident, mem_namespace = [], mem_content = [], mem_vector = vector,
     mem_deadline = None, mem_metadata = [], mem_provenance = []\<rparr>"

definition sample_edits :: "edit list" where
  "sample_edits =
     [Upsert (sample_member ''a'' [CHR 0x00, CHR 0x00, CHR 0x00, CHR 0x40]),
      Upsert (sample_member ''b'' [CHR 0x00, CHR 0x00, CHR 0x80, CHR 0x3F])]"

definition sample_collection :: collection where
  "sample_collection = \<lparr>coll_descriptor = sample_descriptor, coll_members = [],
     coll_logical_bytes = 260, coll_encoded_bytes = 34\<rparr>"

lemmas memory_eval =
  sample_descriptor_def sample_member_def sample_edits_def sample_collection_def
  collection_new_def validate_descriptor_def bounded_def MAX_DIMENSION_def MAX_EDITS_def MAX_MEMBERS_def
  MAX_COMPONENTS_def MAX_COLLECTION_BYTES_def MAX_SEARCH_K_def descriptor_logical_bytes_def
  descriptor_encoded_bytes_def apply_edits_def validate_edits_def validate_member_def vector_finite_def
  chunks_exact.simps f32_is_finite_def u32_of_le_bytes_def apply_edit_def add_member_def
  member_logical_bytes_def member_encoded_bytes_def checked_add_def checked_mul_def USIZE_MAX_def
  validate_key_def too_many_components_def

lemma sample_collection_new: "collection_new sample_descriptor = Inr sample_collection"
  by (simp add: memory_eval)

lemma sample_collection_ok: "collection_ok sample_collection"
  using collection_new_ok [OF sample_collection_new] by simp

definition sample_members :: collection where
  "sample_members = \<lparr>coll_descriptor = sample_descriptor,
     coll_members = [(''a'', sample_member ''a'' [CHR 0x00, CHR 0x00, CHR 0x00, CHR 0x40]),
                     (''b'', sample_member ''b'' [CHR 0x00, CHR 0x00, CHR 0x80, CHR 0x3F])],
     coll_logical_bytes = 782, coll_encoded_bytes = 110\<rparr>"

lemma sample_apply: "apply_edits sample_collection sample_descriptor sample_edits ''k'' = Inr sample_members"
  by (simp add: memory_eval sample_members_def)

theorem search_is_exact_witness:
  "\<exists>hits. search sample_members [CHR 0x00, CHR 0x00, CHR 0x00, CHR 0x00] 1 [] [] 0 = Inr hits
     \<and> hits = map (\<lambda>(distance, ident). (ident, distance))
         (take 1 (sort_key hit_key (search_candidates sample_members [CHR 0x00, CHR 0x00, CHR 0x00, CHR 0x00] [] [] 0)))"
proof -
  have ok: "collection_ok sample_members"
    using apply_edits_ok [OF sample_collection_ok sample_apply] by simp
  have "\<exists>hits. search sample_members [CHR 0x00, CHR 0x00, CHR 0x00, CHR 0x00] 1 [] [] 0 = Inr hits"
    by (simp add: search_def search_with_visibility_stats_def validate_filter_def validate_search_vector_def
        sample_members_def case_prod_unfold Let_def memory_eval del: search_members.simps)
  then show ?thesis using search_is_exact [OF ok] by blast
qed

text \<open>
  C24. Guarded edits are safe: applying a list of edits to a valid collection gives a
  valid collection under the same descriptor, within the quota of its key, whose
  members are the old ones changed by the edits in order.
\<close>

theorem apply_edits_preserves:
  assumes "collection_ok c" "apply_edits c d es key = Inr c'"
  shows "collection_ok c' \<and> coll_descriptor c' = coll_descriptor c \<and> validate_key c' key = Inr ()
    \<and> bm_get (coll_members c') = fold edit_effect es (bm_get (coll_members c))"
  using assms by (rule apply_edits_ok)

theorem apply_edits_preserves_witness: "collection_ok sample_members"
  using apply_edits_preserves [OF sample_collection_ok sample_apply] by simp

end
