(* ===== verification/Score_Correct.thy ===== *)
theory Score_Correct
  imports Score
begin

unbundle bit_operations_syntax

text \<open>
  The order of scores, \<open>total_cmp\<close> on the bits, is the numeric order of the doubles
  they hold. Infinities take part: their magnitude in units exceeds every finite one.
\<close>

definition magnitude_of_bits :: "int \<Rightarrow> int" where
  "magnitude_of_bits n =
     (if n div 4503599627370496 = 0 then n mod 4503599627370496
      else 2 ^ nat (n div 4503599627370496 - 1) * (4503599627370496 + n mod 4503599627370496))"

lemma magnitude_of_bits_upper:
  assumes "0 \<le> n"
  shows "magnitude_of_bits n < 2 ^ nat (n div 4503599627370496) * 4503599627370496"
proof (cases "n div 4503599627370496 = 0")
  case False
  then have "0 < n div 4503599627370496" using assms by (simp add: pos_imp_zdiv_nonneg_iff less_le)
  define k where "k = nat (n div 4503599627370496 - 1)"
  with \<open>0 < n div 4503599627370496\<close> have k: "n div 4503599627370496 = int k + 1" by simp
  have "2 ^ k * (4503599627370496 + n mod 4503599627370496) < (2 ^ k * (2 * 4503599627370496) :: int)"
    by (rule mult_strict_left_mono) auto
  then show ?thesis using False k by (simp add: magnitude_of_bits_def nat_add_distrib)
qed (simp add: magnitude_of_bits_def)

lemma magnitude_of_bits_lower:
  assumes "0 < n div 4503599627370496"
  shows "2 ^ nat (n div 4503599627370496 - 1) * 4503599627370496 \<le> magnitude_of_bits n"
  using assms by (simp add: magnitude_of_bits_def)

lemma magnitude_of_bits_less:
  assumes "0 \<le> a" "a < b"
  shows "magnitude_of_bits a < magnitude_of_bits b"
proof (cases "a div 4503599627370496 = b div 4503599627370496")
  case True
  then have "a mod 4503599627370496 < b mod 4503599627370496"
    using assms(2) by (metis add_less_cancel_left mult_div_mod_eq)
  with True show ?thesis by (simp only: magnitude_of_bits_def) auto
next
  case False
  let ?x = "a div 4503599627370496" and ?y = "b div 4503599627370496"
  have less: "?x < ?y" using False assms(2) zdiv_mono1 [of a b 4503599627370496] by linarith
  have "0 \<le> ?x" using assms(1) by simp
  then have "nat ?x \<le> nat (?y - 1)" using less by simp
  then have "(2::int) ^ nat ?x * 4503599627370496 \<le> 2 ^ nat (?y - 1) * 4503599627370496"
    by (intro mult_right_mono power_increasing) auto
  with magnitude_of_bits_upper [OF assms(1)] magnitude_of_bits_lower [of b] \<open>0 \<le> ?x\<close> less
  show ?thesis by linarith
qed

lemma take_bit_uint: "take_bit 64 (uint w) = uint w" for w :: u64
  using uint_lt2p [of w] by (simp add: take_bit_int_eq_self)

lemma uint_split: "uint w = 9223372036854775808 * of_bool (bit w 63) + take_bit 63 (uint w)" for w :: u64
proof -
  have "uint w = take_bit (Suc 63) (uint w)" by (simp add: take_bit_uint)
  also have "\<dots> = 9223372036854775808 * of_bool (bit w 63) + take_bit 63 (uint w)"
    by (subst take_bit_Suc_from_most) (simp add: bit_uint_iff)
  finally show ?thesis .
qed

lemma sint_split: "sint w = take_bit 63 (uint w) - 9223372036854775808 * of_bool (bit w 63)" for w :: u64
proof -
  have "sint w = signed_take_bit 63 (uint w)" by (simp add: sint_uint)
  also have "\<dots> = uint w - 18446744073709551616 * of_bool (bit w 63)"
    by (simp add: signed_take_bit_eq_take_bit_minus bit_uint_iff take_bit_uint)
  finally show ?thesis using uint_split [of w] by (cases "bit w 63") simp_all
qed

lemma total_key_eq:
  "f64_total_key w = (if bit w 63 then - 1 - take_bit 63 (uint w) else take_bit 63 (uint w))"
proof (cases "bit w 63")
  case True
  have m: "(0x7FFFFFFFFFFFFFFF :: u64) = mask 63" by (simp add: mask_eq_exp_minus_1)
  have "take_bit 63 (uint (w XOR mask 63)) = take_bit 63 (NOT (uint w))"
    by (rule bit_eqI) (auto simp: bit_take_bit_iff bit_uint_iff bit_xor_iff bit_not_iff bit_mask_iff)
  then have "take_bit 63 (uint (w XOR mask 63)) = 9223372036854775807 - take_bit 63 (uint w)"
    by (simp only: take_bit_not_eq_mask_diff) (simp add: mask_eq_exp_minus_1)
  moreover have "bit (w XOR mask 63) 63" using True by (simp add: bit_xor_iff bit_mask_iff)
  ultimately show ?thesis using True sint_split [of "w XOR mask 63"]
    by (simp only: f64_total_key_def m) simp
next
  case False
  then show ?thesis by (simp add: f64_total_key_def sint_split)
qed

lemma f64_magnitude_eq: "f64_magnitude w = magnitude_of_bits (take_bit 63 (uint w))"
proof -
  let ?q = "uint w div 4503599627370496 mod 2048" and ?r = "uint w mod 4503599627370496"
  have "take_bit 63 (uint w) = uint w mod (4503599627370496 * 2048)" by (simp add: take_bit_eq_mod)
  also have "\<dots> = 4503599627370496 * ?q + ?r" by (subst zmod_zmult2_eq) auto
  finally have t: "take_bit 63 (uint w) = 4503599627370496 * ?q + ?r" .
  have "take_bit 63 (uint w) div 4503599627370496 = ?q" "take_bit 63 (uint w) mod 4503599627370496 = ?r"
    unfolding t by simp_all
  then show ?thesis
    by (simp only: f64_magnitude_def f64_exponent_bits_def f64_fraction_bits_def magnitude_of_bits_def
        Let_def push_bit_eq_mult mult.commute)
qed

lemma magnitude_of_bits_nonneg: "0 \<le> magnitude_of_bits n"
  using pos_mod_sign [of 4503599627370496 n] by (simp only: magnitude_of_bits_def) auto

lemma magnitude_of_bits_0: "0 \<le> n \<Longrightarrow> magnitude_of_bits n = 0 \<longleftrightarrow> n = 0"
  using magnitude_of_bits_less [of 0 n] by (auto simp: magnitude_of_bits_def)

lemma magnitude_of_bits_less_iff:
  "0 \<le> a \<Longrightarrow> 0 \<le> b \<Longrightarrow> magnitude_of_bits a < magnitude_of_bits b \<longleftrightarrow> a < b"
  using magnitude_of_bits_less [of a b] magnitude_of_bits_less [of b a] by (cases a b rule: linorder_cases) auto

lemma score_ok_zero:
  assumes "score_ok s" "take_bit 63 (uint (score_bits s)) = 0"
  shows "\<not> bit (score_bits s) 63"
proof -
  have "f64_magnitude (score_bits s) = 0" by (simp add: f64_magnitude_eq assms(2) magnitude_of_bits_def)
  then have "f64_is_zero (score_bits s)"
    by (auto simp: f64_magnitude_def f64_is_zero_def Let_def push_bit_eq_mult f64_fraction_bits_def
        split: if_splits)
  with assms(1) show ?thesis by (simp add: score_ok_def)
qed

text \<open>
  C25. Scores are ordered by value: of two scores, neither of them NaN, the order used by
  the sorted-set index (\<open>total_cmp\<close> on the bits, with a single zero) is the order of
  the numbers the doubles represent.
\<close>

theorem score_less_iff:
  assumes "score_ok a" "score_ok b"
  shows "a < b \<longleftrightarrow> f64_units (score_bits a) < f64_units (score_bits b)"
proof -
  define x y where "x = take_bit 63 (uint (score_bits a))" and "y = take_bit 63 (uint (score_bits b))"
  have n: "0 \<le> x" "0 \<le> y" by (simp_all add: x_def y_def)
  have z: "bit (score_bits a) 63 \<Longrightarrow> x \<noteq> 0" "bit (score_bits b) 63 \<Longrightarrow> y \<noteq> 0"
    using score_ok_zero [OF assms(1)] score_ok_zero [OF assms(2)] by (auto simp: x_def y_def)
  note m = magnitude_of_bits_less_iff [OF n] magnitude_of_bits_less_iff [OF n(2,1)]
    magnitude_of_bits_nonneg [of x] magnitude_of_bits_nonneg [of y]
    magnitude_of_bits_0 [OF n(1)] magnitude_of_bits_0 [OF n(2)]
  have "a < b \<longleftrightarrow> (if bit (score_bits a) 63 then - 1 - x else x) < (if bit (score_bits b) 63 then - 1 - y else y)"
    by (simp add: less_score_def score_lt_def total_key_eq x_def y_def)
  moreover have "f64_units (score_bits a) < f64_units (score_bits b) \<longleftrightarrow>
      (if bit (score_bits a) 63 then - magnitude_of_bits x else magnitude_of_bits x)
      < (if bit (score_bits b) 63 then - magnitude_of_bits y else magnitude_of_bits y)"
    by (simp add: f64_units_def f64_negative_def f64_magnitude_eq x_def y_def)
  ultimately show ?thesis
    using n z m by (cases "bit (score_bits a) 63"; cases "bit (score_bits b) 63") auto
qed

theorem score_less_iff_witness:
  "Score 0xBFF0000000000000 < Score 0x3FF0000000000000
     \<longleftrightarrow> f64_units 0xBFF0000000000000 < f64_units 0x3FF0000000000000"
  using score_less_iff [of "Score 0xBFF0000000000000" "Score 0x3FF0000000000000"]
  by (simp add: score_ok_def f64_is_nan_def f64_is_zero_def f64_exponent_bits_def f64_fraction_bits_def)

end
