(* ===== verification/Value.thy ===== *)
theory Value
  imports Command
begin

text \<open>
  Typed values (\<open>src/src/storage/value.rs\<close>), the sorted set with its two indexes
  (\<open>src/src/storage/sorted_set.rs\<close>) and the index arithmetic of ranges
  (\<open>src/src/storage/collections.rs\<close>). An \<open>Arc\<close> is the value it points to: the code
  only ever changes a copy (\<open>Arc::make_mut\<close>).
\<close>

section \<open>Sorted sets\<close>

record sorted_set =
  zs_members :: "(bytes, score) btree_map"
  zs_ordered :: "(score \<times> bytes) btree_set"

definition zs_empty :: sorted_set where
  "zs_empty = \<lparr>zs_members = [], zs_ordered = []\<rparr>"

text \<open>Whether the member was created, whether the state changed, and the new state.\<close>

definition zs_insert :: "bytes \<Rightarrow> score \<Rightarrow> sorted_set \<Rightarrow> (bool \<times> bool) \<times> sorted_set" where
  "zs_insert member score z =
     (let previous = bm_get (zs_members z) member
      in if previous = Some score then ((False, False), z)
         else
           let ordered = (case previous of Some s \<Rightarrow> bs_remove (s, member) (zs_ordered z) | None \<Rightarrow> zs_ordered z)
           in ((previous = None, True),
               \<lparr>zs_members = bm_insert member score (zs_members z), zs_ordered = bs_insert (score, member) ordered\<rparr>))"

definition zs_remove :: "bytes \<Rightarrow> sorted_set \<Rightarrow> bool \<times> sorted_set" where
  "zs_remove member z =
     (case bm_get (zs_members z) member of
        None \<Rightarrow> (False, z)
      | Some score \<Rightarrow>
          (True, \<lparr>zs_members = bm_remove member (zs_members z),
                  zs_ordered = bs_remove (score, member) (zs_ordered z)\<rparr>))"

text \<open>The two indexes hold the same pairs.\<close>

definition zs_ok :: "sorted_set \<Rightarrow> bool" where
  "zs_ok z \<longleftrightarrow> bm_ok (zs_members z) \<and> bs_ok (zs_ordered z)
     \<and> set (zs_ordered z) = {(s, m). bm_get (zs_members z) m = Some s}"

lemma zs_ok_empty [simp]: "zs_ok zs_empty"
  by (simp add: zs_ok_def zs_empty_def)

lemma zs_insert_ok:
  assumes "zs_ok z"
  shows "zs_ok (snd (zs_insert m s z))"
    "bm_get (zs_members (snd (zs_insert m s z))) = (bm_get (zs_members z))(m \<mapsto> s)"
    "fst (zs_insert m s z) = (bm_get (zs_members z) m = None, bm_get (zs_members z) m \<noteq> Some s)"
proof -
  show "zs_ok (snd (zs_insert m s z))"
  proof (cases "bm_get (zs_members z) m")
    case None
    with assms show ?thesis by (auto simp: zs_insert_def zs_ok_def Let_def)
  next
    case (Some s0)
    with assms show ?thesis by (auto simp: zs_insert_def zs_ok_def Let_def)
  qed
  show "bm_get (zs_members (snd (zs_insert m s z))) = (bm_get (zs_members z))(m \<mapsto> s)"
    "fst (zs_insert m s z) = (bm_get (zs_members z) m = None, bm_get (zs_members z) m \<noteq> Some s)"
    by (auto simp: zs_insert_def Let_def fun_upd_idem)
qed

lemma zs_remove_ok:
  assumes "zs_ok z"
  shows "zs_ok (snd (zs_remove m z))"
    "bm_get (zs_members (snd (zs_remove m z))) = (bm_get (zs_members z))(m := None)"
    "fst (zs_remove m z) \<longleftrightarrow> bm_get (zs_members z) m \<noteq> None"
  using assms by (auto simp: zs_remove_def zs_ok_def fun_upd_idem split: option.split)

lemma zs_members_ordered: "zs_ok z \<Longrightarrow> zs_ordered z = [] \<longleftrightarrow> zs_members z = []"
proof
  assume ok: "zs_ok z" and "zs_ordered z = []"
  then have "bm_get (zs_members z) = (\<lambda>_. None)" 
    by (simp add: zs_ok_def fun_eq_iff) (metis not_Some_eq)
  then show "zs_members z = []" by (cases "zs_members z") (auto simp: fun_eq_iff split: if_splits)
next
  assume "zs_ok z" "zs_members z = []"
  then have "set (zs_ordered z) = {}" by (simp add: zs_ok_def)
  then show "zs_ordered z = []" by simp
qed

section \<open>Values\<close>

datatype "value" =
    VString bytes
  | VHash "(bytes, bytes) btree_map"
  | VList "bytes list"
  | VSet "bytes btree_set"
  | VSortedSet sorted_set
  | VMemory collection

lemmas value_split = "value.split"

lemmas value_splits = "value.splits"

fun as_string :: "value \<Rightarrow> bytes option" where
  "as_string (VString v) = Some v"
| "as_string _ = None"

fun checked_sum :: "nat \<Rightarrow> nat list \<Rightarrow> nat option" where
  "checked_sum acc [] = Some acc"
| "checked_sum acc (n # ns) = Option.bind (checked_add acc n) (\<lambda>t. checked_sum t ns)"

fun value_sizes :: "value \<Rightarrow> nat list" where
  "value_sizes (VMemory c) = [coll_logical_bytes c]"
| "value_sizes (VString v) = [length v]"
| "value_sizes (VHash fs) = concat (map (\<lambda>(field, v). [length field, length v, 64]) fs)"
| "value_sizes (VList vs) = concat (map (\<lambda>v. [length v, 32]) vs)"
| "value_sizes (VSet ms) = concat (map (\<lambda>m. [length m, 64]) ms)"
| "value_sizes (VSortedSet z) = concat (map (\<lambda>(_, m). [length m, 96]) (zs_ordered z))"

text \<open>Logical payload bytes; an empty collection is never stored and has no size.\<close>

fun value_empty :: "value \<Rightarrow> bool" where
  "value_empty (VHash fs) = (fs = [])"
| "value_empty (VList vs) = (vs = [])"
| "value_empty (VSet ms) = (ms = [])"
| "value_empty (VSortedSet z) = (zs_members z = [])"
| "value_empty _ = False"

fun logical_bytes :: "value \<Rightarrow> nat option" where
  "logical_bytes (VMemory c) = Some (coll_logical_bytes c)"
| "logical_bytes (VString v) = Some (length v)"
| "logical_bytes v = (if value_empty v then None else checked_sum 0 (value_sizes v))"

fun value_ok :: "value \<Rightarrow> bool" where
  "value_ok (VString v) = True"
| "value_ok (VHash fs) = (bm_ok fs \<and> fs \<noteq> [])"
| "value_ok (VList vs) = (vs \<noteq> [])"
| "value_ok (VSet ms) = (bs_ok ms \<and> ms \<noteq> [])"
| "value_ok (VSortedSet z) = (zs_ok z \<and> zs_members z \<noteq> [])"
| "value_ok (VMemory c) = collection_ok c"

lemma checked_sum_Some_iff:
  "t \<le> USIZE_MAX \<Longrightarrow> checked_sum t ns = Some s \<longleftrightarrow> s = t + sum_list ns \<and> s \<le> USIZE_MAX"
  by (induction ns arbitrary: t) (auto simp: bind_eq_Some_conv checked_simps)

lemma logical_bytes_Some:
  "logical_bytes v = Some n \<Longrightarrow> n = sum_list (value_sizes v)"
  by (cases v) (auto simp: checked_sum_Some_iff split: if_splits)

section \<open>Ranges\<close>

text \<open>Inclusive signed indexes to a half-open range; the arithmetic is on \<open>i128\<close>.\<close>

definition range_of :: "nat \<Rightarrow> int \<Rightarrow> int \<Rightarrow> (nat \<times> nat) option" where
  "range_of len start stop =
     (let n = int len;
          start = (if start < 0 then start + n else start);
          stop = (if stop < 0 then stop + n else stop);
          start = max start 0;
          stop = min stop (n - 1)
      in if start > stop \<or> start \<ge> n then None else Some (nat start, nat (stop + 1)))"

text \<open>The position a signed index denotes, counting from the end when it is negative.\<close>

definition position :: "nat \<Rightarrow> int \<Rightarrow> int" where
  "position len i = (if i < 0 then i + int len else i)"

lemma range_of_bounds: "range_of len a b = Some (s, e) \<Longrightarrow> s < e \<and> e \<le> len"
  by (auto simp: range_of_def Let_def split: if_splits)

lemma range_of_selects:
  "(case range_of len a b of None \<Rightarrow> {} | Some (s, e) \<Rightarrow> {s..<e})
     = {i. i < len \<and> position len a \<le> int i \<and> int i \<le> position len b}"
  by (auto simp: range_of_def position_def Let_def)

end
