(* ===== verification/Watch.thy ===== *)
theory Watch
  imports Ordered
begin

text \<open>
  Observations of keys (\<open>src/src/storage/watch.rs\<close>). A \<open>Registry\<close> is shared by the
  store and its tokens behind a mutex, so each critical section is one step here. Its
  \<open>Arc<AtomicBool>\<close> cells are kept in a heap of live cells with their strong
  count; a \<open>Weak\<close> reference is an address, and upgrading it succeeds while the
  cell is live. Dropping a token has two parts in Rust, the \<open>Drop\<close>
  implementation under the lock and the release of its fields after it; they are
  two steps, between which other threads may run.
\<close>

section \<open>Operations\<close>

record cell =
  cell_flag :: bool
  cell_strong :: nat

record registry =
  reg_id :: nat
  reg_entries :: "(bytes, nat) btree_map"
  reg_cells :: "(nat, cell) btree_map"
  reg_next :: nat

record watch_token =
  token_key :: bytes
  token_cell :: nat
  token_deadline :: "int option"
  token_registry :: nat

definition registry_default :: "nat \<Rightarrow> registry" where
  "registry_default rid = \<lparr>reg_id = rid, reg_entries = [], reg_cells = [], reg_next = 0\<rparr>"

text \<open>\<open>Weak::upgrade\<close>: the cell, if it is live, with one more strong reference.\<close>

definition upgrade :: "nat \<Rightarrow> registry \<Rightarrow> registry option" where
  "upgrade a reg =
     map_option (\<lambda>c. reg\<lparr>reg_cells := bm_insert a (c\<lparr>cell_strong := cell_strong c + 1\<rparr>) (reg_cells reg)\<rparr>)
       (bm_get (reg_cells reg) a)"

text \<open>\<open>Arc::new(AtomicBool::new(false))\<close> and the weak reference stored under the key.\<close>

definition new_cell :: "bytes \<Rightarrow> registry \<Rightarrow> registry" where
  "new_cell key reg =
     reg\<lparr>reg_cells := bm_insert (reg_next reg) \<lparr>cell_flag = False, cell_strong = 1\<rparr> (reg_cells reg),
         reg_entries := bm_insert key (reg_next reg) (reg_entries reg),
         reg_next := reg_next reg + 1\<rparr>"

definition registry_token :: "bytes \<Rightarrow> int option \<Rightarrow> registry \<Rightarrow> watch_token \<times> registry" where
  "registry_token key deadline reg =
     (case Option.bind (bm_get (reg_entries reg) key) (\<lambda>a. map_option (Pair a) (upgrade a reg)) of
        Some (a, reg') \<Rightarrow>
          (\<lparr>token_key = key, token_cell = a, token_deadline = deadline, token_registry = reg_id reg\<rparr>, reg')
      | None \<Rightarrow>
          (\<lparr>token_key = key, token_cell = reg_next reg, token_deadline = deadline, token_registry = reg_id reg\<rparr>,
           new_cell key reg))"

definition registry_invalidate :: "bytes \<Rightarrow> registry \<Rightarrow> registry" where
  "registry_invalidate key reg =
     (case bm_get (reg_entries reg) key of
        None \<Rightarrow> reg
      | Some a \<Rightarrow>
          let reg = reg\<lparr>reg_entries := bm_remove key (reg_entries reg)\<rparr>
          in (case bm_get (reg_cells reg) a of
                None \<Rightarrow> reg
              | Some c \<Rightarrow> reg\<lparr>reg_cells := bm_insert a (c\<lparr>cell_flag := True\<rparr>) (reg_cells reg)\<rparr>))"

definition token_invalidated :: "registry \<Rightarrow> watch_token \<Rightarrow> bool" where
  "token_invalidated reg tok =
     (case bm_get (reg_cells reg) (token_cell tok) of None \<Rightarrow> False | Some c \<Rightarrow> cell_flag c)"

definition token_changed :: "registry \<Rightarrow> int \<Rightarrow> watch_token \<Rightarrow> bool" where
  "token_changed reg now tok \<longleftrightarrow>
     token_invalidated reg tok \<or> (case token_deadline tok of None \<Rightarrow> False | Some d \<Rightarrow> d \<le> now)"

text \<open>\<open>Drop::drop\<close>, under the lock.\<close>

definition token_drop :: "watch_token \<Rightarrow> registry \<Rightarrow> registry" where
  "token_drop tok reg =
     (if (case bm_get (reg_cells reg) (token_cell tok) of None \<Rightarrow> False | Some c \<Rightarrow> cell_strong c = 1)
         \<and> bm_get (reg_entries reg) (token_key tok) = Some (token_cell tok)
      then reg\<lparr>reg_entries := bm_remove (token_key tok) (reg_entries reg)\<rparr>
      else reg)"

text \<open>The release of the token's \<open>Arc\<close>, after the lock is given back.\<close>

definition token_release :: "watch_token \<Rightarrow> registry \<Rightarrow> registry" where
  "token_release tok reg =
     (case bm_get (reg_cells reg) (token_cell tok) of
        None \<Rightarrow> reg
      | Some c \<Rightarrow>
          if cell_strong c \<le> 1 then reg\<lparr>reg_cells := bm_remove (token_cell tok) (reg_cells reg)\<rparr>
          else reg\<lparr>reg_cells := bm_insert (token_cell tok) (c\<lparr>cell_strong := cell_strong c - 1\<rparr>) (reg_cells reg)\<rparr>)"

section \<open>Interleavings\<close>

text \<open>The registry, the tokens in use (by a number that identifies each), and the
  tokens whose \<open>drop\<close> has run but whose cell is not released yet.\<close>

record watch_state =
  ws_registry :: registry
  ws_held :: "nat \<rightharpoonup> watch_token"
  ws_dropping :: "nat \<rightharpoonup> watch_token"

datatype watch_event =
    Acquire nat bytes "int option"
  | Invalidate bytes
  | Drop_Locked nat
  | Release nat

definition watch_init :: "nat \<Rightarrow> watch_state" where
  "watch_init rid = \<lparr>ws_registry = registry_default rid, ws_held = Map.empty, ws_dropping = Map.empty\<rparr>"

inductive watch_step :: "watch_state \<Rightarrow> watch_event \<Rightarrow> watch_state \<Rightarrow> bool" where
  acquire: "ws_held s n = None \<Longrightarrow> ws_dropping s n = None \<Longrightarrow>
     registry_token key deadline (ws_registry s) = (tok, reg) \<Longrightarrow>
     watch_step s (Acquire n key deadline) (s\<lparr>ws_registry := reg, ws_held := (ws_held s)(n \<mapsto> tok)\<rparr>)"
| invalidate:
    "watch_step s (Invalidate key) (s\<lparr>ws_registry := registry_invalidate key (ws_registry s)\<rparr>)"
| drop_locked: "ws_held s n = Some tok \<Longrightarrow>
     watch_step s (Drop_Locked n)
       (s\<lparr>ws_registry := token_drop tok (ws_registry s), ws_held := (ws_held s)(n := None),
          ws_dropping := (ws_dropping s)(n \<mapsto> tok)\<rparr>)"
| release: "ws_dropping s n = Some tok \<Longrightarrow>
     watch_step s (Release n)
       (s\<lparr>ws_registry := token_release tok (ws_registry s), ws_dropping := (ws_dropping s)(n := None)\<rparr>)"

inductive watch_run :: "watch_state \<Rightarrow> watch_event list \<Rightarrow> watch_state \<Rightarrow> bool" where
  run_nil: "watch_run s [] s"
| run_snoc: "watch_run s es s1 \<Longrightarrow> watch_step s1 e s2 \<Longrightarrow> watch_run s (es @ [e]) s2"

inductive_cases watch_run_snocE: "watch_run s (es @ [e]) s'"


section \<open>The invariant of every interleaving\<close>

abbreviation ws_tokens :: "watch_state \<Rightarrow> nat \<rightharpoonup> watch_token" where
  "ws_tokens s \<equiv> ws_dropping s ++ ws_held s"

definition users :: "watch_state \<Rightarrow> nat \<Rightarrow> nat set" where
  "users s a = {n. \<exists>tok. ws_tokens s n = Some tok \<and> token_cell tok = a}"

definition cells_ok :: "watch_state \<Rightarrow> bool" where
  "cells_ok s \<longleftrightarrow>
     bm_ok (reg_entries (ws_registry s)) \<and> bm_ok (reg_cells (ws_registry s))
     \<and> finite (dom (ws_tokens s)) \<and> dom (ws_held s) \<inter> dom (ws_dropping s) = {}
     \<and> (\<forall>a. bm_get (reg_cells (ws_registry s)) a = None \<longleftrightarrow> users s a = {})
     \<and> (\<forall>a c. bm_get (reg_cells (ws_registry s)) a = Some c \<longrightarrow> cell_strong c = card (users s a))
     \<and> (\<forall>a. bm_get (reg_cells (ws_registry s)) a \<noteq> None \<longrightarrow> a < reg_next (ws_registry s))
     \<and> (\<forall>k a. bm_get (reg_entries (ws_registry s)) k = Some a \<longrightarrow> a < reg_next (ws_registry s))"

text \<open>A registered live cell is not flagged and belongs to tokens of its key; a token
  in use that is not flagged is registered.\<close>

definition registered_ok :: "watch_state \<Rightarrow> bool" where
  "registered_ok s \<longleftrightarrow>
     (\<forall>k a c. bm_get (reg_entries (ws_registry s)) k = Some a \<longrightarrow> bm_get (reg_cells (ws_registry s)) a = Some c
        \<longrightarrow> \<not> cell_flag c)
     \<and> (\<forall>k n tok. ws_tokens s n = Some tok \<longrightarrow>
          bm_get (reg_entries (ws_registry s)) k = Some (token_cell tok) \<longrightarrow> token_key tok = k)
     \<and> (\<forall>n tok. ws_held s n = Some tok \<longrightarrow> \<not> token_invalidated (ws_registry s) tok \<longrightarrow>
          bm_get (reg_entries (ws_registry s)) (token_key tok) = Some (token_cell tok))"

definition watch_inv :: "watch_state \<Rightarrow> bool" where
  "watch_inv s \<longleftrightarrow> cells_ok s \<and> registered_ok s"

lemma users_nonempty: "users s a \<noteq> {} \<longleftrightarrow> (\<exists>n tok. ws_tokens s n = Some tok \<and> token_cell tok = a)"
  by (simp only: users_def Collect_empty_eq not_all not_not)

lemma finite_users: "finite (dom (ws_tokens s)) \<Longrightarrow> finite (users s a)"
  by (rule finite_subset [of _ "dom (ws_tokens s)"]) (auto simp: users_def)

lemma watch_inv_init: "watch_inv (watch_init rid)"
  by (simp add: watch_inv_def cells_ok_def registered_ok_def watch_init_def registry_default_def users_def)

lemma users_acquire:
  assumes "ws_tokens s n = None"
  shows "users (s\<lparr>ws_registry := reg, ws_held := (ws_held s)(n \<mapsto> tok)\<rparr>) a
     = (if a = token_cell tok then insert n (users s a) else users s a)"
  using assms by (auto simp: users_def map_add_Some_iff)

lemma users_invalidate: "users (s\<lparr>ws_registry := reg\<rparr>) a = users s a"
  by (simp add: users_def)

lemma tokens_drop_locked:
  assumes "ws_held s n = Some tok" "dom (ws_held s) \<inter> dom (ws_dropping s) = {}"
  shows "((ws_dropping s)(n \<mapsto> tok)) ++ ((ws_held s)(n := None)) = ws_tokens s"
  using assms by (auto simp: fun_eq_iff map_add_def split: option.splits)

lemma tokens_release:
  assumes "ws_dropping s n = Some tok" "dom (ws_held s) \<inter> dom (ws_dropping s) = {}"
  shows "((ws_dropping s)(n := None)) ++ ws_held s = (ws_tokens s)(n := None)" "ws_tokens s n = Some tok"
  using assms by (auto simp: fun_eq_iff map_add_def dom_def split: option.splits)

lemma registry_token_cases:
  assumes "registry_token key deadline reg = (tok, reg')"
  shows "token_key tok = key \<and> token_registry tok = reg_id reg \<and> token_deadline tok = deadline"
    and "(\<exists>c. bm_get (reg_entries reg) key = Some (token_cell tok)
            \<and> bm_get (reg_cells reg) (token_cell tok) = Some c
            \<and> reg' = reg\<lparr>reg_cells := bm_insert (token_cell tok) (c\<lparr>cell_strong := cell_strong c + 1\<rparr>) (reg_cells reg)\<rparr>)
       \<or> (token_cell tok = reg_next reg \<and> reg' = new_cell key reg
            \<and> (\<forall>a. bm_get (reg_entries reg) key = Some a \<longrightarrow> bm_get (reg_cells reg) a = None))"
  using assms by (auto simp: registry_token_def upgrade_def split: option.splits prod.splits
      Option.bind_splits)

lemma cells_ok_next: "cells_ok s \<Longrightarrow> users s (reg_next (ws_registry s)) = {}"
  unfolding cells_ok_def by blast

lemma cells_ok_live:
  assumes "cells_ok s" "ws_tokens s m = Some tok"
  obtains c where "bm_get (reg_cells (ws_registry s)) (token_cell tok) = Some c"
    "token_cell tok < reg_next (ws_registry s)" "m \<in> users s (token_cell tok)"
proof -
  have u: "m \<in> users s (token_cell tok)" using assms(2) by (auto simp: users_def)
  with assms(1) obtain c where c: "bm_get (reg_cells (ws_registry s)) (token_cell tok) = Some c"
    unfolding cells_ok_def by (metis empty_iff not_Some_eq)
  moreover have "token_cell tok < reg_next (ws_registry s)"
    using assms(1) c unfolding cells_ok_def by (metis option.distinct(1))
  ultimately show ?thesis using u that by blast
qed

lemma held_token: "ws_held s m = Some tok \<Longrightarrow> ws_tokens s m = Some tok"
  by simp

lemma cells_okD:
  assumes "cells_ok s"
  shows "bm_ok (reg_entries (ws_registry s))" "bm_ok (reg_cells (ws_registry s))"
    "finite (dom (ws_tokens s))" "dom (ws_held s) \<inter> dom (ws_dropping s) = {}"
    "bm_get (reg_cells (ws_registry s)) a = None \<longleftrightarrow> users s a = {}"
    "bm_get (reg_cells (ws_registry s)) a = Some c \<Longrightarrow> cell_strong c = card (users s a)"
    "bm_get (reg_cells (ws_registry s)) a \<noteq> None \<Longrightarrow> a < reg_next (ws_registry s)"
    "bm_get (reg_entries (ws_registry s)) k = Some a \<Longrightarrow> a < reg_next (ws_registry s)"
  using assms unfolding cells_ok_def by blast+

lemma registered_okD:
  assumes "registered_ok s"
  shows "bm_get (reg_entries (ws_registry s)) k = Some a \<Longrightarrow> bm_get (reg_cells (ws_registry s)) a = Some c
      \<Longrightarrow> \<not> cell_flag c"
    "ws_tokens s n = Some tok \<Longrightarrow> bm_get (reg_entries (ws_registry s)) k = Some (token_cell tok)
      \<Longrightarrow> token_key tok = k"
    "ws_held s n = Some tok \<Longrightarrow> \<not> token_invalidated (ws_registry s) tok
      \<Longrightarrow> bm_get (reg_entries (ws_registry s)) (token_key tok) = Some (token_cell tok)"
proof -
  note r = assms [unfolded registered_ok_def]
  note r1 = r [THEN conjunct1] and r2 = r [THEN conjunct2, THEN conjunct1] and r3 = r [THEN conjunct2, THEN conjunct2]
  show "bm_get (reg_entries (ws_registry s)) k = Some a \<Longrightarrow> bm_get (reg_cells (ws_registry s)) a = Some c
      \<Longrightarrow> \<not> cell_flag c"
    using r1 by (elim allE impE)
  show "ws_tokens s n = Some tok \<Longrightarrow> bm_get (reg_entries (ws_registry s)) k = Some (token_cell tok)
      \<Longrightarrow> token_key tok = k"
    using r2 by (elim allE impE)
  show "ws_held s n = Some tok \<Longrightarrow> \<not> token_invalidated (ws_registry s) tok
      \<Longrightarrow> bm_get (reg_entries (ws_registry s)) (token_key tok) = Some (token_cell tok)"
    using r3 by (elim allE impE)
qed

lemma acquire_shared_ok:
  assumes inv: "cells_ok s" "registered_ok s" and n: "ws_tokens s n = None"
    and e: "bm_get (reg_entries (ws_registry s)) (token_key tok) = Some (token_cell tok)"
    and c: "bm_get (reg_cells (ws_registry s)) (token_cell tok) = Some c"
  defines "reg \<equiv> ws_registry s\<lparr>reg_cells :=
      bm_insert (token_cell tok) (c\<lparr>cell_strong := cell_strong c + 1\<rparr>) (reg_cells (ws_registry s))\<rparr>"
  shows "watch_inv (s\<lparr>ws_registry := reg, ws_held := (ws_held s)(n \<mapsto> tok)\<rparr>)"
proof -
  let ?s = "s\<lparr>ws_registry := reg, ws_held := (ws_held s)(n \<mapsto> tok)\<rparr>"
  note D = cells_okD [OF inv(1)] and R = registered_okD [OF inv(2)]
  have "n \<notin> users s (token_cell tok)" using n by (auto simp: users_def)
  moreover have "finite (users s (token_cell tok))" by (rule finite_users [OF D(3)])
  ultimately have card: "card (insert n (users s (token_cell tok))) = cell_strong c + 1" using D(6) [OF c] by simp
  have i: "token_invalidated reg t = token_invalidated (ws_registry s) t" for t
    using c by (simp add: token_invalidated_def reg_def)
  have "ws_held s n = None" "ws_dropping s n = None" using n by auto
  then have dis: "dom ((ws_held s)(n \<mapsto> tok)) \<inter> dom (ws_dropping s) = {}" using D(4) by auto
  have "cells_ok ?s"
    unfolding cells_ok_def users_acquire [OF n]
  proof (intro conjI allI impI)
    show "finite (dom (ws_tokens ?s))" using D(3) by simp
    show "bm_get (reg_cells (ws_registry ?s)) a = None
        \<longleftrightarrow> (if a = token_cell tok then insert n (users s a) else users s a) = {}" for a
      using D(5) [of a] by (simp add: reg_def)
    show "cell_strong c' = card (if a = token_cell tok then insert n (users s a) else users s a)"
      if "bm_get (reg_cells (ws_registry ?s)) a = Some c'" for a c'
      using that card D(6) [of a c'] by (auto simp: reg_def split: if_splits)
    show "a < reg_next (ws_registry ?s)" if "bm_get (reg_cells (ws_registry ?s)) a \<noteq> None" for a
      using that D(7) [of a] D(7) [of "token_cell tok"] c by (auto simp: reg_def split: if_splits)
    show "a < reg_next (ws_registry ?s)" if "bm_get (reg_entries (ws_registry ?s)) k = Some a" for k a
      using that D(8) [of k a] by (simp add: reg_def)
  qed (use D(1,2) dis in \<open>simp_all add: reg_def\<close>)
  moreover have "registered_ok ?s"
    unfolding registered_ok_def
  proof (intro conjI allI impI)
    show "\<not> cell_flag c'" if "bm_get (reg_entries (ws_registry ?s)) k = Some a"
      "bm_get (reg_cells (ws_registry ?s)) a = Some c'" for k a c'
      using that R(1) [of k a] c by (auto simp: reg_def split: if_splits)
    show "token_key t = k" if "ws_tokens ?s m = Some t"
      "bm_get (reg_entries (ws_registry ?s)) k = Some (token_cell t)" for k m t
    proof (cases "m = n")
      case True
      have "users s (token_cell tok) \<noteq> {}" using D(5) [of "token_cell tok"] c by simp
      then obtain m' t' where "ws_tokens s m' = Some t'" "token_cell t' = token_cell tok"
        using users_nonempty by metis
      with that True R(2) [of m' t' k] R(2) [of m' t' "token_key tok"] e show ?thesis by (simp add: reg_def)
    next
      case False
      with that R(2) show ?thesis by (simp add: reg_def map_add_def)
    qed
    show "bm_get (reg_entries (ws_registry ?s)) (token_key t) = Some (token_cell t)"
      if "ws_held ?s m = Some t" "\<not> token_invalidated (ws_registry ?s) t" for m t
      using that R(3) [of m t] e i by (auto simp: reg_def split: if_splits)
  qed
  ultimately show ?thesis by (simp add: watch_inv_def)
qed

lemma acquire_new_ok:
  assumes inv: "cells_ok s" "registered_ok s" and n: "ws_tokens s n = None"
    and a: "token_cell tok = reg_next (ws_registry s)"
    and d: "\<And>a. bm_get (reg_entries (ws_registry s)) (token_key tok) = Some a \<Longrightarrow> bm_get (reg_cells (ws_registry s)) a = None"
  defines "reg \<equiv> new_cell (token_key tok) (ws_registry s)"
  shows "watch_inv (s\<lparr>ws_registry := reg, ws_held := (ws_held s)(n \<mapsto> tok)\<rparr>)"
proof -
  let ?s = "s\<lparr>ws_registry := reg, ws_held := (ws_held s)(n \<mapsto> tok)\<rparr>"
  note D = cells_okD [OF inv(1)] and R = registered_okD [OF inv(2)]
  have cells: "bm_get (reg_cells reg) = (bm_get (reg_cells (ws_registry s)))(token_cell tok \<mapsto> \<lparr>cell_flag = False, cell_strong = 1\<rparr>)"
    and entries: "bm_get (reg_entries reg) = (bm_get (reg_entries (ws_registry s)))(token_key tok \<mapsto> token_cell tok)"
    and nxt: "reg_next reg = Suc (token_cell tok)"
    using a by (simp_all add: reg_def new_cell_def)
  have u: "users s (token_cell tok) = {}" using cells_ok_next [OF inv(1)] a by simp
  have old: "token_cell t \<noteq> token_cell tok" if "ws_tokens s m = Some t" for m t
    using u that by (auto simp: users_def)
  have eold: "b \<noteq> token_cell tok" if "bm_get (reg_entries (ws_registry s)) k = Some b" for k b
    using D(8) [OF that] a by simp
  have i: "token_invalidated reg t = token_invalidated (ws_registry s) t" if "ws_tokens s m = Some t" for m t
    using old [OF that] by (simp add: token_invalidated_def cells)
  have dis: "dom ((ws_held s)(n \<mapsto> tok)) \<inter> dom (ws_dropping s) = {}" using D(4) n by auto
  have "cells_ok ?s"
    unfolding cells_ok_def users_acquire [OF n]
  proof (intro conjI allI impI)
    show "finite (dom (ws_tokens ?s))" using D(3) by simp
    show "bm_get (reg_cells (ws_registry ?s)) b = None
        \<longleftrightarrow> (if b = token_cell tok then insert n (users s b) else users s b) = {}" for b
      using D(5) [of b] by (simp add: cells)
    show "cell_strong c' = card (if b = token_cell tok then insert n (users s b) else users s b)"
      if "bm_get (reg_cells (ws_registry ?s)) b = Some c'" for b c'
      using that u D(6) [of b c'] by (auto simp: cells split: if_splits)
    show "b < reg_next (ws_registry ?s)" if "bm_get (reg_cells (ws_registry ?s)) b \<noteq> None" for b
      using that D(7) [of b] a by (auto simp: cells nxt split: if_splits)
    show "b < reg_next (ws_registry ?s)" if "bm_get (reg_entries (ws_registry ?s)) k = Some b" for k b
      using that D(8) [of k b] a by (auto simp: entries nxt split: if_splits)
  qed (use D(1,2) dis in \<open>simp_all add: reg_def new_cell_def\<close>)
  moreover have "registered_ok ?s"
    unfolding registered_ok_def
  proof (intro conjI allI impI)
    show "\<not> cell_flag c'" if "bm_get (reg_entries (ws_registry ?s)) k = Some b"
      "bm_get (reg_cells (ws_registry ?s)) b = Some c'" for k b c'
      using that R(1) [of k b c'] eold [of k b] by (auto simp: cells entries split: if_splits)
    show "token_key t = k" if "ws_tokens ?s m = Some t"
      "bm_get (reg_entries (ws_registry ?s)) k = Some (token_cell t)" for k m t
    proof (cases "m = n")
      case True
      with that eold [of k "token_cell tok"] show ?thesis by (auto simp: entries split: if_splits)
    next
      case False
      then have "ws_tokens s m = Some t" using that by (simp add: map_add_def)
      with that(2) old [of m t] R(2) [of m t k] show ?thesis by (auto simp: entries split: if_splits)
    qed
    show "bm_get (reg_entries (ws_registry ?s)) (token_key t) = Some (token_cell t)"
      if "ws_held ?s m = Some t" "\<not> token_invalidated (ws_registry ?s) t" for m t
    proof (cases "m = n")
      case True
      with that show ?thesis by (simp add: entries)
    next
      case False
      then have h: "ws_held s m = Some t" using that by simp
      from cells_ok_live [OF inv(1) held_token [OF h]] have "bm_get (reg_cells (ws_registry s)) (token_cell t) \<noteq> None"
        by auto
      with R(3) [OF h] that(2) i [OF held_token [OF h]] d show ?thesis by (auto simp: entries)
    qed
  qed
  ultimately show ?thesis by (simp add: watch_inv_def)
qed

lemma acquire_inv:
  assumes inv: "watch_inv s" and n: "ws_tokens s n = None"
    and t: "registry_token key deadline (ws_registry s) = (tok, reg)"
  shows "watch_inv (s\<lparr>ws_registry := reg, ws_held := (ws_held s)(n \<mapsto> tok)\<rparr>)"
    and "\<not> token_invalidated reg tok"
proof -
  note c = registry_token_cases [OF t]
  from c(1) have k: "key = token_key tok" by simp
  show "watch_inv (s\<lparr>ws_registry := reg, ws_held := (ws_held s)(n \<mapsto> tok)\<rparr>)"
    using c(2) acquire_shared_ok [OF _ _ n] acquire_new_ok [OF _ _ n] inv
    unfolding watch_inv_def k by blast
  show "\<not> token_invalidated reg tok"
    using c(2) inv unfolding k watch_inv_def registered_ok_def
    by (auto simp: token_invalidated_def new_cell_def)
qed


lemma invalidate_effect:
  fixes key :: bytes
  assumes "watch_inv s"
  defines "reg \<equiv> registry_invalidate key (ws_registry s)"
  shows "bm_get (reg_entries reg) = (bm_get (reg_entries (ws_registry s)))(key := None)"
    and "map_option cell_strong (bm_get (reg_cells reg) a) = map_option cell_strong (bm_get (reg_cells (ws_registry s)) a)"
    and "bm_get (reg_cells reg) a = Some c \<Longrightarrow> cell_flag c \<longleftrightarrow>
      (\<exists>c0. bm_get (reg_cells (ws_registry s)) a = Some c0 \<and> cell_flag c0)
      \<or> bm_get (reg_entries (ws_registry s)) key = Some a"
    and "bm_ok (reg_entries reg)" "bm_ok (reg_cells reg)" "reg_next reg = reg_next (ws_registry s)"
proof -
  note D = cells_okD [of s]
  have ok: "cells_ok s" using assms(1) by (simp add: watch_inv_def)
  show "bm_get (reg_entries reg) = (bm_get (reg_entries (ws_registry s)))(key := None)"
    using D(1) [OF ok] by (auto simp: reg_def registry_invalidate_def Let_def fun_eq_iff split: option.split)
  show "map_option cell_strong (bm_get (reg_cells reg) a) = map_option cell_strong (bm_get (reg_cells (ws_registry s)) a)"
    by (auto simp: reg_def registry_invalidate_def Let_def split: option.split)
  show "bm_get (reg_cells reg) a = Some c \<Longrightarrow> cell_flag c \<longleftrightarrow>
      (\<exists>c0. bm_get (reg_cells (ws_registry s)) a = Some c0 \<and> cell_flag c0)
      \<or> bm_get (reg_entries (ws_registry s)) key = Some a"
    by (auto simp: reg_def registry_invalidate_def Let_def split: option.splits if_splits)
  show "bm_ok (reg_entries reg)" "bm_ok (reg_cells reg)" "reg_next reg = reg_next (ws_registry s)"
    using D(1,2) [OF ok] by (auto simp: reg_def registry_invalidate_def Let_def split: option.split)
qed

lemma invalidate_flag:
  assumes inv: "watch_inv s" and h: "ws_held s n = Some tok"
  shows "token_invalidated (registry_invalidate key (ws_registry s)) tok
        \<longleftrightarrow> token_invalidated (ws_registry s) tok \<or> token_key tok = key"
proof -
  have ok: "cells_ok s" "registered_ok s" using inv by (simp_all add: watch_inv_def)
  obtain c0 where c0: "bm_get (reg_cells (ws_registry s)) (token_cell tok) = Some c0"
    using cells_ok_live [OF ok(1) held_token [OF h]] by blast
  then obtain c where c: "bm_get (reg_cells (registry_invalidate key (ws_registry s))) (token_cell tok) = Some c"
    using invalidate_effect(2) [OF inv, of key "token_cell tok"] by auto
  have "bm_get (reg_entries (ws_registry s)) key = Some (token_cell tok) \<Longrightarrow> token_key tok = key"
    by (rule registered_okD(2) [OF ok(2) held_token [OF h]])
  then show ?thesis
    using invalidate_effect(3) [OF inv c] registered_okD(3) [OF ok(2) h] c c0
    by (auto simp: token_invalidated_def)
qed

lemma invalidate_inv:
  assumes inv: "watch_inv s"
  shows "watch_inv (s\<lparr>ws_registry := registry_invalidate key (ws_registry s)\<rparr>)"
proof -
  let ?r = "registry_invalidate key (ws_registry s)"
  let ?s = "s\<lparr>ws_registry := ?r\<rparr>"
  have ok: "cells_ok s" "registered_ok s" using inv by (simp_all add: watch_inv_def)
  note D = cells_okD [OF ok(1)] and R = registered_okD [OF ok(2)] and E = invalidate_effect [OF inv, of key]
  have "cells_ok ?s"
    unfolding cells_ok_def users_invalidate
  proof (intro conjI allI impI)
    show "bm_get (reg_cells (ws_registry ?s)) a = None \<longleftrightarrow> users s a = {}" for a
      using D(5) [of a] E(2) [of a] by (cases "bm_get (reg_cells ?r) a") auto
    show "cell_strong c = card (users s a)" if "bm_get (reg_cells (ws_registry ?s)) a = Some c" for a c
      using that E(2) [of a] D(6) [of a] by (cases "bm_get (reg_cells (ws_registry s)) a") auto
    show "a < reg_next (ws_registry ?s)" if "bm_get (reg_cells (ws_registry ?s)) a \<noteq> None" for a
      using that E(2) [of a] D(7) [of a] E(6) by (cases "bm_get (reg_cells (ws_registry s)) a") auto
    show "a < reg_next (ws_registry ?s)" if "bm_get (reg_entries (ws_registry ?s)) k = Some a" for k a
      using that D(8) [of k a] E(1,6) by (auto split: if_splits)
  qed (use D E(4,5) in simp_all)
  moreover have "registered_ok ?s"
    unfolding registered_ok_def
  proof (intro conjI allI impI)
    show "\<not> cell_flag c" if e: "bm_get (reg_entries (ws_registry ?s)) k = Some a"
      and c: "bm_get (reg_cells (ws_registry ?s)) a = Some c" for k a c
    proof -
      from e have k: "k \<noteq> key" "bm_get (reg_entries (ws_registry s)) k = Some a" using E(1) by (auto split: if_splits)
      from c have "bm_get (reg_cells (ws_registry s)) a \<noteq> None"
        using E(2) [of a] by (cases "bm_get (reg_cells (ws_registry s)) a") auto
      then obtain m t where "ws_tokens s m = Some t" "token_cell t = a"
        using D(5) [of a] users_nonempty by metis
      with R(2) [of m t k] R(2) [of m t key] k have "bm_get (reg_entries (ws_registry s)) key \<noteq> Some a" by auto
      with E(3) [of a c] c R(1) [OF k(2)] show ?thesis by auto
    qed
    show "token_key t = k" if "ws_tokens ?s m = Some t"
      "bm_get (reg_entries (ws_registry ?s)) k = Some (token_cell t)" for k m t
      using that R(2) [of m t k] E(1) by (auto split: if_splits)
    show "bm_get (reg_entries (ws_registry ?s)) (token_key t) = Some (token_cell t)"
      if "ws_held ?s m = Some t" "\<not> token_invalidated (ws_registry ?s) t" for m t
      using that invalidate_flag [OF inv, of m t key] R(3) [of m t] E(1) by auto
  qed
  ultimately show ?thesis by (simp add: watch_inv_def)
qed

lemma token_drop_cells [simp]:
  "reg_cells (token_drop tok reg) = reg_cells reg" "reg_next (token_drop tok reg) = reg_next reg"
  "token_invalidated (token_drop tok reg) t = token_invalidated reg t"
  by (simp_all add: token_drop_def token_invalidated_def)

lemma drop_locked_inv:
  assumes inv: "watch_inv s" and t: "ws_held s n = Some tok"
  shows "watch_inv (s\<lparr>ws_registry := token_drop tok (ws_registry s), ws_held := (ws_held s)(n := None),
      ws_dropping := (ws_dropping s)(n \<mapsto> tok)\<rparr>)"
proof -
  let ?r = "token_drop tok (ws_registry s)"
  let ?s = "s\<lparr>ws_registry := ?r, ws_held := (ws_held s)(n := None), ws_dropping := (ws_dropping s)(n \<mapsto> tok)\<rparr>"
  have ok: "cells_ok s" "registered_ok s" using inv by (simp_all add: watch_inv_def)
  note D = cells_okD [OF ok(1)] and R = registered_okD [OF ok(2)]
  have tok: "ws_tokens ?s = ws_tokens s" using tokens_drop_locked [OF t D(4)] by simp
  then have u: "users ?s a = users s a" for a by (simp add: users_def)
  have sub: "bm_get (reg_entries ?r) k = Some a \<Longrightarrow> bm_get (reg_entries (ws_registry s)) k = Some a" for k a
    using D(1) by (auto simp: token_drop_def split: if_splits)
  have dis: "dom ((ws_held s)(n := None)) \<inter> dom ((ws_dropping s)(n \<mapsto> tok)) = {}" using D(4) by auto
  have "cells_ok ?s"
    unfolding cells_ok_def u tok
  proof (intro conjI allI impI)
    show "bm_ok (reg_entries (ws_registry ?s))" using D(1) by (simp add: token_drop_def)
    show "a < reg_next (ws_registry ?s)" if "bm_get (reg_entries (ws_registry ?s)) k = Some a" for k a
      using that sub [of k a] D(8) [of k a] by simp
  qed (use D dis in simp_all)
  moreover have "registered_ok ?s"
    unfolding registered_ok_def tok
  proof (intro conjI allI impI)
    show "\<not> cell_flag c" if "bm_get (reg_entries (ws_registry ?s)) k = Some a"
      "bm_get (reg_cells (ws_registry ?s)) a = Some c" for k a c
      using that sub [of k a] R(1) [of k a c] by simp
    show "token_key t' = k" if "ws_tokens s m = Some t'"
      "bm_get (reg_entries (ws_registry ?s)) k = Some (token_cell t')" for k m t'
      by (rule R(2) [OF that(1)]) (use that(2) sub in simp)
    show "bm_get (reg_entries (ws_registry ?s)) (token_key t') = Some (token_cell t')"
      if "ws_held ?s m = Some t'" "\<not> token_invalidated (ws_registry ?s) t'" for m t'
    proof -
      from that have m: "m \<noteq> n" "ws_held s m = Some t'" by (auto split: if_splits)
      have e: "bm_get (reg_entries (ws_registry s)) (token_key t') = Some (token_cell t')"
        using R(3) [OF m(2)] that(2) by simp
      have "\<not> (token_key t' = token_key tok \<and> bm_get (reg_entries (ws_registry s)) (token_key tok) = Some (token_cell tok)
          \<and> (\<exists>c. bm_get (reg_cells (ws_registry s)) (token_cell tok) = Some c \<and> cell_strong c = 1))"
      proof
        assume a: "token_key t' = token_key tok \<and> bm_get (reg_entries (ws_registry s)) (token_key tok) = Some (token_cell tok)
          \<and> (\<exists>c. bm_get (reg_cells (ws_registry s)) (token_cell tok) = Some c \<and> cell_strong c = 1)"
        with e have "{m, n} \<subseteq> users s (token_cell tok)" using t m(2) by (auto simp: users_def)
        moreover have "card (users s (token_cell tok)) = 1" using a D(6) [of "token_cell tok"] by auto
        ultimately show False using m(1) by (auto simp: card_1_singleton_iff)
      qed
      with e D(1) show ?thesis by (auto simp: token_drop_def split: option.splits)
    qed
  qed
  ultimately show ?thesis by (simp add: watch_inv_def)
qed

lemma release_cells:
  assumes inv: "cells_ok s" and t: "ws_dropping s n = Some tok"
  defines "reg \<equiv> token_release tok (ws_registry s)"
  shows "reg_entries reg = reg_entries (ws_registry s)" "reg_next reg = reg_next (ws_registry s)"
    "bm_ok (reg_cells reg)"
    "bm_get (reg_cells reg) a = (if users s a - {n} = {} then None else
       map_option (\<lambda>c. c\<lparr>cell_strong := card (users s a - {n})\<rparr>) (bm_get (reg_cells (ws_registry s)) a))"
proof -
  note D = cells_okD [OF inv]
  have tk: "ws_tokens s n = Some tok" by (rule tokens_release(2) [OF t D(4)])
  obtain c where c: "bm_get (reg_cells (ws_registry s)) (token_cell tok) = Some c" and n: "n \<in> users s (token_cell tok)"
    using cells_ok_live [OF inv tk] by blast
  have only: "n \<in> users s b \<Longrightarrow> b = token_cell tok" for b using tk by (auto simp: users_def)
  have fin: "finite (users s b)" for b by (rule finite_users [OF D(3)])
  show "reg_entries reg = reg_entries (ws_registry s)" "reg_next reg = reg_next (ws_registry s)"
    "bm_ok (reg_cells reg)"
    using D(2) by (auto simp: reg_def token_release_def split: option.split)
  show "bm_get (reg_cells reg) a = (if users s a - {n} = {} then None else
       map_option (\<lambda>c. c\<lparr>cell_strong := card (users s a - {n})\<rparr>) (bm_get (reg_cells (ws_registry s)) a))"
  proof (cases "a = token_cell tok")
    case True
    have "cell_strong c = Suc (card (users s a - {n}))"
      using D(6) [OF c] True card.remove [OF fin n] by simp
    then show ?thesis using True c D(2) fin [of a]
      by (auto simp: reg_def token_release_def)
  next
    case False
    then have "users s a - {n} = users s a" using only by auto
    then show ?thesis
      using False c D(2) D(5) [of a] D(6) [of a]
      by (cases "bm_get (reg_cells (ws_registry s)) a") (auto simp: reg_def token_release_def)
  qed
qed

lemma release_flag:
  assumes inv: "watch_inv s" and t: "ws_dropping s n = Some tok" and m: "ws_held s m = Some tok'"
  shows "token_invalidated (token_release tok (ws_registry s)) tok' = token_invalidated (ws_registry s) tok'"
proof -
  have ok: "cells_ok s" using inv by (simp add: watch_inv_def)
  have "m \<noteq> n" using cells_okD(4) [OF ok] t m by auto
  moreover have "m \<in> users s (token_cell tok')" using m by (auto simp: users_def)
  ultimately have "users s (token_cell tok') - {n} \<noteq> {}" by blast
  then show ?thesis
    using release_cells(4) [OF ok t, of "token_cell tok'"] by (simp add: token_invalidated_def split: option.split)
qed

lemma release_inv:
  assumes inv: "watch_inv s" and t: "ws_dropping s n = Some tok"
  shows "watch_inv (s\<lparr>ws_registry := token_release tok (ws_registry s), ws_dropping := (ws_dropping s)(n := None)\<rparr>)"
proof -
  let ?r = "token_release tok (ws_registry s)"
  let ?s = "s\<lparr>ws_registry := ?r, ws_dropping := (ws_dropping s)(n := None)\<rparr>"
  have ok: "cells_ok s" "registered_ok s" using inv by (simp_all add: watch_inv_def)
  note D = cells_okD [OF ok(1)] and R = registered_okD [OF ok(2)] and E = release_cells [OF ok(1) t]
  have tok: "ws_tokens ?s = (ws_tokens s)(n := None)" using tokens_release(1) [OF t D(4)] by simp
  have "{m. \<exists>t. (f(n := None)) m = Some t \<and> token_cell t = a} = {m. \<exists>t. f m = Some t \<and> token_cell t = a} - {n}"
    for f :: "nat \<rightharpoonup> watch_token" and a by auto
  then have u: "users ?s a = users s a - {n}" for a
    unfolding users_def tok .
  have dis: "dom (ws_held s) \<inter> dom ((ws_dropping s)(n := None)) = {}" using D(4) by auto
  have "cells_ok ?s"
    unfolding cells_ok_def u tok
  proof (intro conjI allI impI)
    show "bm_get (reg_cells (ws_registry ?s)) a = None \<longleftrightarrow> users s a - {n} = {}" for a
      using E(4) [of a] D(5) [of a] by auto
    show "cell_strong c = card (users s a - {n})" if "bm_get (reg_cells (ws_registry ?s)) a = Some c" for a c
      using that E(4) [of a] by (auto split: if_splits)
    show "a < reg_next (ws_registry ?s)" if "bm_get (reg_cells (ws_registry ?s)) a \<noteq> None" for a
      using that E(2) E(4) [of a] D(7) [of a] by (auto split: if_splits)
    show "a < reg_next (ws_registry ?s)" if "bm_get (reg_entries (ws_registry ?s)) k = Some a" for k a
      using that E(1,2) D(8) [of k a] by simp
  qed (use D(1,3) E(1,3) dis in simp_all)
  moreover have "registered_ok ?s"
    unfolding registered_ok_def tok
  proof (intro conjI allI impI)
    show "\<not> cell_flag c" if "bm_get (reg_entries (ws_registry ?s)) k = Some a"
      "bm_get (reg_cells (ws_registry ?s)) a = Some c" for k a c
      using that E(1) E(4) [of a] R(1) [of k a] by (auto split: if_splits)
    show "token_key t' = k" if "((ws_tokens s)(n := None)) m = Some t'"
      "bm_get (reg_entries (ws_registry ?s)) k = Some (token_cell t')" for k m t'
      by (rule R(2) [of m]) (use that E(1) in \<open>auto split: if_splits\<close>)
    show "bm_get (reg_entries (ws_registry ?s)) (token_key t') = Some (token_cell t')"
      if "ws_held ?s m = Some t'" "\<not> token_invalidated (ws_registry ?s) t'" for m t'
      using that release_flag [OF inv t, of m t'] R(3) [of m t'] E(1) by simp
  qed
  ultimately show ?thesis by (simp add: watch_inv_def)
qed


lemma watch_step_inv: "watch_step s e s' \<Longrightarrow> watch_inv s \<Longrightarrow> watch_inv s'"
  by (induction rule: watch_step.induct)
    (auto intro: acquire_inv(1) invalidate_inv drop_locked_inv release_inv simp: map_add_None)

lemma watch_run_inv: "watch_run s es s' \<Longrightarrow> watch_inv s \<Longrightarrow> watch_inv s'"
  by (induction rule: watch_run.induct) (auto intro: watch_step_inv)

lemma acquire_other_flag:
  assumes inv: "watch_inv s" and n: "ws_held s n = Some tok"
    and t: "registry_token key deadline (ws_registry s) = (tok', reg)"
  shows "token_invalidated reg tok = token_invalidated (ws_registry s) tok"
proof -
  have ok: "cells_ok s" using inv by (simp add: watch_inv_def)
  obtain c where "bm_get (reg_cells (ws_registry s)) (token_cell tok) = Some c"
    "token_cell tok < reg_next (ws_registry s)"
    using cells_ok_live [OF ok held_token [OF n]] by blast
  then show ?thesis
    using registry_token_cases(2) [OF t] by (auto simp: token_invalidated_def new_cell_def split: if_splits)
qed

lemma watch_step_flag:
  assumes "watch_step s e s'" "watch_inv s" "ws_held s n = Some tok" "e \<noteq> Drop_Locked n"
  shows "ws_held s' n = Some tok
    \<and> (token_invalidated (ws_registry s') tok
        \<longleftrightarrow> token_invalidated (ws_registry s) tok \<or> e = Invalidate (token_key tok))"
  using assms
proof (induction rule: watch_step.induct)
  case (acquire s m key deadline tok' reg)
  then show ?case using acquire_other_flag by auto
next
  case (invalidate s key)
  then show ?case using invalidate_flag by auto
next
  case (drop_locked s m tok')
  then show ?case by auto
next
  case (release s m tok')
  then show ?case using release_flag by auto
qed

lemma watch_run_flag:
  assumes "watch_run s es s'" "watch_inv s" "ws_held s n = Some tok" "Drop_Locked n \<notin> set es"
  shows "ws_held s' n = Some tok
    \<and> (token_invalidated (ws_registry s') tok
        \<longleftrightarrow> token_invalidated (ws_registry s) tok \<or> Invalidate (token_key tok) \<in> set es)"
  using assms
proof (induction rule: watch_run.induct)
  case (run_snoc s es s1 e s2)
  then show ?case using watch_step_flag [OF run_snoc(2) watch_run_inv [OF run_snoc(1)], of n tok] by auto
qed simp

section \<open>Properties\<close>

text \<open>
  C23. An observation sees exactly the changes of its key: whatever the interleaving of
  acquisitions, invalidations and drops on all threads, a token that is still held is
  invalidated if and only if its key was invalidated after it was acquired.
\<close>

theorem token_invalidated_iff:
  assumes "watch_run (watch_init rid) es s" "watch_step s (Acquire n key deadline) s1"
    "watch_run s1 es' s2" "Drop_Locked n \<notin> set es'"
  shows "\<exists>tok. ws_held s2 n = Some tok
    \<and> (token_invalidated (ws_registry s2) tok \<longleftrightarrow> Invalidate key \<in> set es')"
proof -
  have inv: "watch_inv s" by (rule watch_run_inv [OF assms(1) watch_inv_init])
  from assms(2) obtain tok reg where t: "registry_token key deadline (ws_registry s) = (tok, reg)"
    and n: "ws_held s n = None" "ws_dropping s n = None"
    and s1: "s1 = s\<lparr>ws_registry := reg, ws_held := (ws_held s)(n \<mapsto> tok)\<rparr>"
    by cases
  have "watch_inv s1" "\<not> token_invalidated (ws_registry s1) tok" "token_key tok = key" "ws_held s1 n = Some tok"
    using acquire_inv [OF inv _ t, of n] registry_token_cases(1) [OF t] n s1 by (auto simp: map_add_None)
  with watch_run_flag [OF assms(3), of n tok] assms(4) show ?thesis by auto
qed

lemma watch_run_Cons:
  assumes "watch_step s e s1" "watch_run s1 es s2"
  shows "watch_run s (e # es) s2"
  using assms(2,1)
proof (induction rule: watch_run.induct)
  case (run_nil s1)
  then show ?case using run_snoc [OF watch_run.run_nil, of s e s1] by simp
next
  case (run_snoc s1 es s2 e' s3)
  then show ?case using watch_run.run_snoc [of s "e # es" s2 e' s3] by simp
qed


theorem token_invalidated_iff_witness:
  "\<exists>s1 s2 tok. watch_step (watch_init 0) (Acquire 0 ''k'' None) s1
     \<and> watch_run s1 [Invalidate ''a'', Invalidate ''k''] s2
     \<and> ws_held s2 0 = Some tok \<and> token_invalidated (ws_registry s2) tok"
proof -
  obtain tok reg where t: "registry_token ''k'' None (ws_registry (watch_init 0)) = (tok, reg)" by fastforce
  have a: "watch_step (watch_init 0) (Acquire 0 ''k'' None)
      ((watch_init 0)\<lparr>ws_registry := reg, ws_held := (ws_held (watch_init 0))(0 \<mapsto> tok)\<rparr>)" (is "watch_step _ _ ?s1")
    by (rule acquire [OF _ _ t]) (simp_all add: watch_init_def)
  obtain s2 where r: "watch_run ?s1 [Invalidate ''a'', Invalidate ''k''] s2"
    using watch_run_Cons [OF invalidate watch_run_Cons [OF invalidate run_nil]] by blast
  from token_invalidated_iff [OF run_nil a r] a r show ?thesis by auto
qed

text \<open>The states single-threaded use reaches: a token is dropped and released at once.\<close>

inductive sequential :: "nat \<Rightarrow> watch_state \<Rightarrow> bool" for rid where
  seq_init: "sequential rid (watch_init rid)"
| seq_acquire: "sequential rid s \<Longrightarrow> watch_step s (Acquire n key deadline) s' \<Longrightarrow> sequential rid s'"
| seq_invalidate: "sequential rid s \<Longrightarrow> watch_step s (Invalidate key) s' \<Longrightarrow> sequential rid s'"
| seq_drop: "sequential rid s \<Longrightarrow> watch_step s (Drop_Locked n) s1 \<Longrightarrow> watch_step s1 (Release n) s'
    \<Longrightarrow> sequential rid s'"

inductive_cases acquireE: "watch_step s (Acquire n key deadline) s'"
inductive_cases invalidateE: "watch_step s (Invalidate key) s'"
inductive_cases drop_lockedE: "watch_step s (Drop_Locked n) s'"
inductive_cases releaseE: "watch_step s (Release n) s'"

definition no_dead_entry :: "watch_state \<Rightarrow> bool" where
  "no_dead_entry s \<longleftrightarrow>
     (\<forall>k a. bm_get (reg_entries (ws_registry s)) k = Some a \<longrightarrow> bm_get (reg_cells (ws_registry s)) a \<noteq> None)"

lemma drop_release_no_dead_entry:
  assumes inv: "watch_inv s" and d: "no_dead_entry s" and t: "ws_held s n = Some tok"
    and s1: "s1 = s\<lparr>ws_registry := token_drop tok (ws_registry s), ws_held := (ws_held s)(n := None),
          ws_dropping := (ws_dropping s)(n \<mapsto> tok)\<rparr>"
  shows "no_dead_entry (s1\<lparr>ws_registry := token_release tok (ws_registry s1), ws_dropping := (ws_dropping s1)(n := None)\<rparr>)"
proof -
  have ok: "cells_ok s" "registered_ok s" using inv by (simp_all add: watch_inv_def)
  have ok1: "cells_ok s1" using drop_locked_inv [OF inv t] s1 by (simp add: watch_inv_def)
  note D = cells_okD [OF ok(1)] and E = release_cells [OF ok1, of n tok]
  have t1: "ws_dropping s1 n = Some tok" by (simp add: s1)
  have u: "users s1 a = users s a" for a using tokens_drop_locked [OF t D(4)] by (simp add: users_def s1)
  obtain c where c: "bm_get (reg_cells (ws_registry s)) (token_cell tok) = Some c"
    using cells_ok_live [OF ok(1) held_token [OF t]] by blast
  have "users s a - {n} \<noteq> {}" if e: "bm_get (reg_entries (ws_registry s1)) k = Some a" for k a
  proof
    assume empty: "users s a - {n} = {}"
    from e have e0: "bm_get (reg_entries (ws_registry s)) k = Some a"
      using D(1) by (auto simp: s1 token_drop_def split: if_splits)
    with d have "bm_get (reg_cells (ws_registry s)) a \<noteq> None" by (simp add: no_dead_entry_def)
    then have "users s a = {n}" using D(5) [of a] empty by auto
    then have "card (users s a) = 1" "n \<in> users s a" by simp_all
    with t have a: "a = token_cell tok" "card (users s a) = 1" by (auto simp: users_def)
    then have "cell_strong c = 1" using D(6) [OF c] by simp
    moreover have "k = token_key tok" using registered_okD(2) [OF ok(2) held_token [OF t]] e0 a(1) by simp
    ultimately show False using e e0 a(1) c D(1) by (simp add: s1 token_drop_def)
  qed
  moreover have "bm_get (reg_cells (ws_registry s1)) a \<noteq> None"
    if "bm_get (reg_entries (ws_registry s1)) k = Some a" for k a
    using that d D(1) by (auto simp: s1 no_dead_entry_def token_drop_def split: if_splits)
  ultimately show ?thesis
    using E(1) [OF t1] E(4) [OF t1] by (simp add: no_dead_entry_def u)
qed

lemma sequential_ok: "sequential rid s \<Longrightarrow> watch_inv s \<and> no_dead_entry s"
proof (induction rule: sequential.induct)
  case seq_init
  then show ?case using watch_inv_init by (simp add: no_dead_entry_def watch_init_def registry_default_def)
next
  case (seq_acquire s n key deadline s')
  then have "watch_inv s'" using watch_step_inv by blast
  moreover from seq_acquire(2) obtain tok reg where "registry_token key deadline (ws_registry s) = (tok, reg)"
    "ws_registry s' = reg" by (auto elim: acquireE)
  ultimately show ?case
    using seq_acquire registry_token_cases(2) [of key deadline "ws_registry s" tok reg]
    by (auto simp: no_dead_entry_def new_cell_def split: if_splits)
next
  case (seq_invalidate s key s')
  then have inv: "watch_inv s" "watch_inv s'" using watch_step_inv by blast+
  have s': "ws_registry s' = registry_invalidate key (ws_registry s)"
    using seq_invalidate(2) by (auto elim: invalidateE)
  have "bm_get (reg_cells (ws_registry s')) a \<noteq> None" if "bm_get (reg_cells (ws_registry s)) a \<noteq> None" for a
    using invalidate_effect(2) [OF inv(1), of key a] that s' by (cases "bm_get (reg_cells (ws_registry s')) a") auto
  moreover have "bm_get (reg_entries (ws_registry s)) k = Some a" if "bm_get (reg_entries (ws_registry s')) k = Some a" for k a
    using invalidate_effect(1) [OF inv(1), of key] that s' by (auto split: if_splits)
  ultimately show ?case using inv seq_invalidate.IH unfolding no_dead_entry_def by blast
next
  case (seq_drop s n s1 s')
  then have "watch_inv s'" using watch_step_inv by blast
  moreover from seq_drop(2) obtain tok where t: "ws_held s n = Some tok"
    and s1: "s1 = s\<lparr>ws_registry := token_drop tok (ws_registry s), ws_held := (ws_held s)(n := None),
          ws_dropping := (ws_dropping s)(n \<mapsto> tok)\<rparr>" by (auto elim: drop_lockedE)
  moreover from seq_drop(3) s1 have
    "s' = s1\<lparr>ws_registry := token_release tok (ws_registry s1), ws_dropping := (ws_dropping s1)(n := None)\<rparr>"
    by (auto elim!: releaseE)
  ultimately show ?case using seq_drop.IH drop_release_no_dead_entry by blast
qed

text \<open>
  C27. Only keys with live tokens occupy the registry as long as each token is dropped
  and released without another thread in between: every registered key has a token.
\<close>

theorem registry_holds_live_keys:
  assumes "sequential rid s" "bm_get (reg_entries (ws_registry s)) k = Some a"
  shows "\<exists>n tok. ws_tokens s n = Some tok \<and> token_key tok = k \<and> token_cell tok = a"
proof -
  have ok: "cells_ok s" "registered_ok s" "no_dead_entry s"
    using sequential_ok [OF assms(1)] by (simp_all add: watch_inv_def)
  then obtain n tok where "ws_tokens s n = Some tok" "token_cell tok = a"
    using cells_okD(5) [OF ok(1), of a] assms(2) users_nonempty unfolding no_dead_entry_def by metis
  with registered_okD(2) [OF ok(2), of n tok k] assms(2) show ?thesis by metis
qed

theorem registry_holds_live_keys_witness:
  "\<exists>s n tok. sequential 0 s \<and> bm_get (reg_entries (ws_registry s)) ''k'' = Some 0
     \<and> ws_tokens s n = Some tok \<and> token_key tok = ''k''"
proof -
  define s where "s = (watch_init 0)\<lparr>ws_registry := new_cell ''k'' (registry_default 0),
    ws_held := [0 \<mapsto> \<lparr>token_key = ''k'', token_cell = 0, token_deadline = None, token_registry = 0\<rparr>]\<rparr>"
  have "watch_step (watch_init 0) (Acquire 0 ''k'' None)
      ((watch_init 0)\<lparr>ws_registry := new_cell ''k'' (registry_default 0), ws_held := (ws_held (watch_init 0))(0 \<mapsto>
        \<lparr>token_key = ''k'', token_cell = 0, token_deadline = None, token_registry = 0\<rparr>)\<rparr>)"
    by (rule acquire) (simp_all add: watch_init_def registry_token_def registry_default_def)
  then have "watch_step (watch_init 0) (Acquire 0 ''k'' None) s"
    by (simp add: s_def watch_init_def)
  then have "sequential 0 s" by (rule seq_acquire [OF seq_init])
  moreover have "bm_get (reg_entries (ws_registry s)) ''k'' = Some 0"
    by (simp add: s_def new_cell_def registry_default_def)
  ultimately show ?thesis using registry_holds_live_keys [of 0 s "''k''" 0] by metis
qed


text \<open>
  C33. Two concurrent drops can leave a dead entry behind: when the second token's
  \<open>drop\<close> runs before the first one's cell is released, neither sees a strong count of
  one, and the key stays registered although no token is left.
\<close>

theorem concurrent_drops_leave_dead_entry:
  "\<exists>s. watch_run (watch_init 0)
        [Acquire 0 ''k'' None, Acquire 1 ''k'' None, Drop_Locked 0, Drop_Locked 1, Release 0, Release 1] s
     \<and> ws_tokens s = Map.empty \<and> bm_get (reg_entries (ws_registry s)) ''k'' = Some 0"
proof -
  define tok where "tok = \<lparr>token_key = ''k'', token_cell = 0, token_deadline = None, token_registry = 0\<rparr>"
  define st where "st cells held dropping =
    \<lparr>ws_registry = \<lparr>reg_id = 0, reg_entries = [(''k'', 0)], reg_cells = cells, reg_next = 1\<rparr>,
     ws_held = held, ws_dropping = dropping\<rparr>" for cells held dropping
  define c where "c n = [(0 :: nat, \<lparr>cell_flag = False, cell_strong = n\<rparr>)]" for n
  have 1: "watch_step (watch_init 0) (Acquire 0 ''k'' None) (st (c 1) [0 \<mapsto> tok] Map.empty)"
    using acquire [of "watch_init 0" 0 "''k''" None tok "ws_registry (st (c 1) Map.empty Map.empty)"]
    by (simp add: watch_init_def registry_token_def registry_default_def new_cell_def tok_def st_def c_def)
  have 2: "watch_step (st (c 1) [0 \<mapsto> tok] Map.empty) (Acquire 1 ''k'' None) (st (c 2) [0 \<mapsto> tok, 1 \<mapsto> tok] Map.empty)"
    using acquire [of "st (c 1) [0 \<mapsto> tok] Map.empty" 1 "''k''" None tok "ws_registry (st (c 2) Map.empty Map.empty)"]
    by (simp add: registry_token_def upgrade_def tok_def st_def c_def)
  have 3: "watch_step (st (c 2) [0 \<mapsto> tok, 1 \<mapsto> tok] Map.empty) (Drop_Locked 0) (st (c 2) [1 \<mapsto> tok] [0 \<mapsto> tok])"
    using drop_locked [of "st (c 2) [0 \<mapsto> tok, 1 \<mapsto> tok] Map.empty" 0 tok]
    by (simp add: token_drop_def tok_def st_def c_def fun_upd_twist)
  have 4: "watch_step (st (c 2) [1 \<mapsto> tok] [0 \<mapsto> tok]) (Drop_Locked 1) (st (c 2) Map.empty [0 \<mapsto> tok, 1 \<mapsto> tok])"
    using drop_locked [of "st (c 2) [1 \<mapsto> tok] [0 \<mapsto> tok]" 1 tok]
    by (simp add: token_drop_def tok_def st_def c_def)
  have 5: "watch_step (st (c 2) Map.empty [0 \<mapsto> tok, 1 \<mapsto> tok]) (Release 0) (st (c 1) Map.empty [1 \<mapsto> tok])"
    using release [of "st (c 2) Map.empty [0 \<mapsto> tok, 1 \<mapsto> tok]" 0 tok]
    by (simp add: token_release_def tok_def st_def c_def fun_upd_twist)
  have 6: "watch_step (st (c 1) Map.empty [1 \<mapsto> tok]) (Release 1) (st [] Map.empty Map.empty)"
    using release [of "st (c 1) Map.empty [1 \<mapsto> tok]" 1 tok]
    by (simp add: token_release_def tok_def st_def c_def)
  have "watch_run (watch_init 0)
      [Acquire 0 ''k'' None, Acquire 1 ''k'' None, Drop_Locked 0, Drop_Locked 1, Release 0, Release 1]
      (st [] Map.empty Map.empty)"
    by (rule watch_run_Cons [OF 1 watch_run_Cons [OF 2 watch_run_Cons [OF 3
      watch_run_Cons [OF 4 watch_run_Cons [OF 5 watch_run_Cons [OF 6 run_nil]]]]]])
  then show ?thesis by (intro exI [of _ "st [] Map.empty Map.empty"] conjI) (simp_all add: st_def)
qed

end
