(* ===== verification/Store.thy ===== *)
theory Store
  imports Value Watch "HOL-Library.Monad_Syntax"
begin

text \<open>
  The keyspace with a single owner (\<open>src/src/storage/mod.rs\<close>, \<open>collections.rs\<close>,
  \<open>sorted_set.rs\<close>). The clock is a sample \<open>t\<close> of both clocks passed to each
  operation: every public operation of the code samples once (a shadow store runs
  on a frozen clock). An operation returns \<open>None\<close> where the code panics
  (\<open>expect\<close>); \<open>Store_Correct\<close> shows that it never does. The \<open>HashMap\<close>s are
  canonical maps, so a loop over one runs in key order.

  A command on one key expires the key, looks at the entry and writes at most once.
  Its handler is a function from the entry to the reply and the \<open>action\<close> on the
  key; \<open>run_update\<close> does the expiry and the write.
\<close>

section \<open>State\<close>

text \<open>Monotonic instants and durations are in nanoseconds, wall time in milliseconds.\<close>

record sample =
  t_now :: int
  t_unix :: int

record entry =
  ent_value :: "value"
  ent_expires :: "int option"
  ent_unix :: "int option"
  ent_generation :: u64
  ent_deadlines :: "(bytes, int) btree_map"

record store =
  st_values :: "(bytes, entry) btree_map"
  st_expirations :: "(int \<times> u64 \<times> bytes) btree_set"
  st_members :: "(int \<times> bytes \<times> bytes) btree_set"
  st_generation :: u64
  st_quota :: nat
  st_used :: nat
  st_watches :: registry

definition ENTRY_OVERHEAD_BYTES :: nat where
  "ENTRY_OVERHEAD_BYTES = 128"

definition default_quota :: nat where
  "default_quota = 67108864"

definition validate_quota :: "nat \<Rightarrow> config_error + unit" where
  "validate_quota q =
     ensure (\<not> (q = 0 \<or> q > ISIZE_MAX))
       (InvalidServerLimits ''SIDER_MAX_DATASET_BYTES must be between 1 and isize::MAX'')"

lemma validate_quota_code [code]:
  "validate_quota q =
     ensure (\<not> (q = 0 \<or> int q > 9223372036854775807))
       (InvalidServerLimits ''SIDER_MAX_DATASET_BYTES must be between 1 and isize::MAX'')"
  by (simp add: validate_quota_def ISIZE_MAX_def)

definition store_with_config :: "nat \<Rightarrow> nat \<Rightarrow> config_error + store" where
  "store_with_config quota rid =
     res_bind (validate_quota quota) (\<lambda>_.
       Inr \<lparr>st_values = [], st_expirations = [], st_members = [], st_generation = 0, st_quota = quota,
            st_used = 0, st_watches = registry_default rid\<rparr>)"

fun zip_option :: "'a option \<Rightarrow> 'b option \<Rightarrow> ('a \<times> 'b) option" where
  "zip_option (Some a) (Some b) = Some (a, b)"
| "zip_option _ _ = None"

definition entry_expiry :: "entry \<Rightarrow> (int \<times> int) option" where
  "entry_expiry e = zip_option (ent_expires e) (ent_unix e)"

definition entry_bytes :: "bytes \<Rightarrow> value \<Rightarrow> nat option" where
  "entry_bytes key v = do {
     n \<leftarrow> logical_bytes v;
     m \<leftarrow> checked_add (length key) n;
     checked_add m ENTRY_OVERHEAD_BYTES
   }"

text \<open>\<open>Instant::checked_add\<close>: the seconds of an instant are an \<open>i64\<close>.\<close>

definition instant_checked_add :: "int \<Rightarrow> int \<Rightarrow> int option" where
  "instant_checked_add now d = (if now + d < 9223372036854775808000000000 then Some (now + d) else None)"

definition deadline :: "sample \<Rightarrow> int \<Rightarrow> (int \<times> int) option" where
  "deadline t milliseconds = do {
     absolute \<leftarrow> i64_checked (t_unix t + milliseconds);
     ms \<leftarrow> (if 0 \<le> milliseconds then Some milliseconds else None);
     monotonic \<leftarrow> instant_checked_add (t_now t) (duration_from_millis ms);
     Some (monotonic, absolute)
   }"

section \<open>Member deadlines\<close>

definition retained_deadline :: "entry option \<Rightarrow> bytes \<Rightarrow> int \<Rightarrow> int option" where
  "retained_deadline previous ident absolute = do {
     e \<leftarrow> previous;
     case ent_value e of
       VMemory old \<Rightarrow>
         (if (case bm_get (coll_members old) ident of None \<Rightarrow> False | Some m \<Rightarrow> mem_deadline m = Some absolute)
          then bm_get (ent_deadlines e) ident else None)
     | _ \<Rightarrow> None
   }"

definition member_deadline :: "entry option \<Rightarrow> sample \<Rightarrow> bytes \<Rightarrow> int \<Rightarrow> memory_error + int" where
  "member_deadline previous t ident absolute =
     (case retained_deadline previous ident absolute of
        Some retained \<Rightarrow> Inr retained
      | None \<Rightarrow>
          if absolute \<le> t_unix t then Inr (t_now t)
          else
            let remaining = absolute - t_unix t
            in res_bind (ensure (remaining \<le> 18446744073709551615) MeDeadline) (\<lambda>_.
                 ok_or (instant_checked_add (t_now t) (duration_from_millis remaining)) MeDeadline))"

fun resolve_members ::
  "entry option \<Rightarrow> sample \<Rightarrow> (bytes \<times> member) list \<Rightarrow> (bytes, int) btree_map \<Rightarrow> memory_error + (bytes, int) btree_map" where
  "resolve_members previous t [] acc = Inr acc"
| "resolve_members previous t ((ident, m) # ms) acc =
     (case mem_deadline m of
        None \<Rightarrow> resolve_members previous t ms acc
      | Some absolute \<Rightarrow>
          res_bind (member_deadline previous t ident absolute) (\<lambda>d.
            resolve_members previous t ms (bm_insert ident d acc)))"

definition resolve_member_deadlines ::
  "sample \<Rightarrow> bytes \<Rightarrow> value \<Rightarrow> store \<Rightarrow> memory_error + (bytes, int) btree_map" where
  "resolve_member_deadlines t key v st =
     (case v of
        VMemory c \<Rightarrow> resolve_members (bm_get (st_values st) key) t (coll_members c) []
      | _ \<Rightarrow> Inr [])"

section \<open>Writing one key\<close>

definition drop_expiration :: "bytes \<Rightarrow> entry \<Rightarrow> store \<Rightarrow> store" where
  "drop_expiration key e st =
     (case ent_expires e of
        None \<Rightarrow> st
      | Some d \<Rightarrow> st\<lparr>st_expirations := bs_remove (d, ent_generation e, key) (st_expirations st)\<rparr>)"

definition drop_member_expirations :: "bytes \<Rightarrow> entry \<Rightarrow> store \<Rightarrow> store" where
  "drop_member_expirations key e st =
     st\<lparr>st_members := fold (\<lambda>(ident, d). bs_remove (d, key, ident)) (ent_deadlines e) (st_members st)\<rparr>"

definition remove :: "bytes \<Rightarrow> store \<Rightarrow> (entry option \<times> store) option" where
  "remove key st =
     (case bm_get (st_values st) key of
        None \<Rightarrow> Some (None, st)
      | Some e \<Rightarrow> do {
          n \<leftarrow> entry_bytes key (ent_value e);
          let st = st\<lparr>st_values := bm_remove key (st_values st),
                     st_watches := registry_invalidate key (st_watches st),
                     st_generation := st_generation st + 1,
                     st_used := wrapping_sub (st_used st) n\<rparr>;
          Some (Some e, drop_member_expirations key e (drop_expiration key e st))
        })"

definition add_expirations :: "bytes \<Rightarrow> entry \<Rightarrow> store \<Rightarrow> store" where
  "add_expirations key e st =
     st\<lparr>st_expirations := (case ent_expires e of
            None \<Rightarrow> st_expirations st
          | Some d \<Rightarrow> bs_insert (d, ent_generation e, key) (st_expirations st)),
        st_members := fold (\<lambda>(ident, d). bs_insert (d, key, ident)) (ent_deadlines e) (st_members st)\<rparr>"

definition install_entry :: "bytes \<Rightarrow> entry \<Rightarrow> store \<Rightarrow> store option" where
  "install_entry key e st = do {
     (_, st) \<leftarrow> remove key (st\<lparr>st_watches := registry_invalidate key (st_watches st)\<rparr>);
     n \<leftarrow> entry_bytes key (ent_value e);
     let g = st_generation st + 1;
     let e = e\<lparr>ent_generation := g\<rparr>;
     let st = add_expirations key e (st\<lparr>st_used := wrapping_add (st_used st) n, st_generation := g\<rparr>);
     Some (st\<lparr>st_values := bm_insert key e (st_values st)\<rparr>)
   }"

definition insert_value :: "sample \<Rightarrow> bytes \<Rightarrow> value \<Rightarrow> (int \<times> int) option \<Rightarrow> store \<Rightarrow> store option" where
  "insert_value t key v expiry' st =
     (case resolve_member_deadlines t key v st of
        Inl _ \<Rightarrow> None
      | Inr deadlines \<Rightarrow>
          install_entry key
            \<lparr>ent_value = v, ent_expires = map_option fst expiry', ent_unix = map_option snd expiry',
             ent_generation = 0, ent_deadlines = deadlines\<rparr> st)"

definition entry_expired :: "int \<Rightarrow> entry \<Rightarrow> bool" where
  "entry_expired now e \<longleftrightarrow> (case ent_expires e of None \<Rightarrow> False | Some d \<Rightarrow> d \<le> now)"

definition expire_key :: "int \<Rightarrow> bytes \<Rightarrow> store \<Rightarrow> store option" where
  "expire_key now key st =
     (case bm_get (st_values st) key of
        Some e \<Rightarrow> if entry_expired now e then map_option snd (remove key st) else Some st
      | None \<Rightarrow> Some st)"

definition within_quota :: "store \<Rightarrow> nat option \<Rightarrow> bool" where
  "within_quota st proposed \<longleftrightarrow>
     (case proposed of None \<Rightarrow> False | Some usage \<Rightarrow> usage \<le> st_quota st \<or> usage \<le> st_used st)"

definition current_bytes :: "bytes \<Rightarrow> store \<Rightarrow> nat" where
  "current_bytes key st =
     (case Option.bind (bm_get (st_values st) key) (\<lambda>e. entry_bytes key (ent_value e)) of
        None \<Rightarrow> 0 | Some n \<Rightarrow> n)"

definition can_replace :: "bytes \<Rightarrow> value \<Rightarrow> store \<Rightarrow> bool" where
  "can_replace key v st =
     within_quota st (do {
       new \<leftarrow> entry_bytes key v;
       base \<leftarrow> checked_sub (st_used st) (current_bytes key st);
       checked_add base new
     })"

text \<open>The one write a handler makes: none, a removal, a replacement, or a
  replacement guarded by \<open>can_replace\<close> (which otherwise replies \<open>OutOfMemory\<close>).\<close>

datatype action =
    Leave
  | Erase
  | Replace "value" "(int \<times> int) option"
  | Replace_Checked "value" "(int \<times> int) option"

type_synonym data = "value \<times> int option \<times> int option"

definition entry_data :: "entry \<Rightarrow> data" where
  "entry_data e = (ent_value e, ent_expires e, ent_unix e)"

definition data_expiry :: "data \<Rightarrow> (int \<times> int) option" where
  "data_expiry = (\<lambda>(_, d, u). zip_option d u)"

definition perform :: "sample \<Rightarrow> bytes \<Rightarrow> reply \<Rightarrow> action \<Rightarrow> store \<Rightarrow> (reply \<times> store) option" where
  "perform t key reply' act st =
     (case act of
        Leave \<Rightarrow> Some (reply', st)
      | Erase \<Rightarrow> map_option (\<lambda>(_, st). (reply', st)) (remove key st)
      | Replace v x \<Rightarrow> map_option (Pair reply') (insert_value t key v x st)
      | Replace_Checked v x \<Rightarrow>
          if can_replace key v st then map_option (Pair reply') (insert_value t key v x st)
          else Some (RError EOutOfMemory, st))"

definition run_update ::
  "sample \<Rightarrow> bytes \<Rightarrow> (data option \<Rightarrow> (reply \<times> action) option) \<Rightarrow> store \<Rightarrow> (reply \<times> store) option" where
  "run_update t key handler st = do {
     st \<leftarrow> expire_key (t_now t) key st;
     (reply', act) \<leftarrow> handler (map_option entry_data (bm_get (st_values st) key));
     perform t key reply' act st
   }"


section \<open>Collections\<close>

definition bulk :: "bytes \<Rightarrow> reply" where
  "bulk v = RBulk (Some v)"

definition reply_len :: "'a list \<Rightarrow> reply" where
  "reply_len xs = RInteger (int (length xs))"

definition reply_bool :: "bool \<Rightarrow> reply" where
  "reply_bool b = RInteger (of_bool b)"

text \<open>The expiry the handlers keep: \<open>entry.and_then(Self::entry_expiry)\<close>.\<close>

definition kept_expiry :: "data option \<Rightarrow> (int \<times> int) option" where
  "kept_expiry current = Option.bind current data_expiry"

fun add_all :: "bytes list \<Rightarrow> int \<Rightarrow> bytes btree_set \<Rightarrow> int \<times> bytes btree_set" where
  "add_all [] added s = (added, s)"
| "add_all (m # ms) added s = add_all ms (added + of_bool (m \<notin> set s)) (bs_insert m s)"

fun remove_all :: "bytes list \<Rightarrow> int \<Rightarrow> bytes btree_set \<Rightarrow> int \<times> bytes btree_set" where
  "remove_all [] removed s = (removed, s)"
| "remove_all (m # ms) removed s = remove_all ms (removed + of_bool (m \<in> set s)) (bs_remove m s)"

text \<open>After a removal: an emptied collection is erased, a smaller one written back.\<close>

definition after_removal :: "int \<Rightarrow> bool \<Rightarrow> value \<Rightarrow> (int \<times> int) option \<Rightarrow> action" where
  "after_removal removed emptied v expiry' =
     (if removed > 0 then if emptied then Erase else Replace v expiry' else Leave)"

definition set_operation :: "set_command \<Rightarrow> bytes btree_set \<Rightarrow> (int \<times> int) option \<Rightarrow> reply \<times> action" where
  "set_operation oper ms expiry' =
     (case oper of
        SCard \<Rightarrow> (reply_len ms, Leave)
      | SIsMember m \<Rightarrow> (reply_bool (m \<in> set ms), Leave)
      | SMembers \<Rightarrow> (RArray (map bulk ms), Leave)
      | SAdd incoming \<Rightarrow>
          (let (added, ms') = add_all incoming 0 ms
           in (RInteger added, if added > 0 then Replace_Checked (VSet ms') expiry' else Leave))
      | SRemove incoming \<Rightarrow>
          (let (removed, ms') = remove_all incoming 0 ms
           in (RInteger removed, after_removal removed (ms' = []) (VSet ms') expiry')))"

definition set_collection :: "set_command \<Rightarrow> data option \<Rightarrow> (reply \<times> action) option" where
  "set_collection oper current =
     (case map_option fst current of
        None \<Rightarrow> Some (set_operation oper [] (kept_expiry current))
      | Some (VSet ms) \<Rightarrow> Some (set_operation oper ms (kept_expiry current))
      | Some _ \<Rightarrow> Some (RError EWrongType, Leave))"

definition push_all :: "bool \<Rightarrow> bytes list \<Rightarrow> bytes list \<Rightarrow> bytes list" where
  "push_all left incoming vs = fold (\<lambda>v vs. if left then v # vs else vs @ [v]) incoming vs"

definition pop_value :: "bool \<Rightarrow> bytes list \<Rightarrow> bytes option \<times> bytes list" where
  "pop_value left vs =
     (if vs = [] then (None, [])
      else if left then (Some (hd vs), tl vs) else (Some (last vs), butlast vs))"

definition slice :: "nat \<Rightarrow> int \<Rightarrow> int \<Rightarrow> 'a list \<Rightarrow> 'a list" where
  "slice len start stop xs =
     (case range_of len start stop of None \<Rightarrow> [] | Some (s, e) \<Rightarrow> take (e - s) (drop s xs))"

definition list_operation :: "list_command \<Rightarrow> bytes list \<Rightarrow> (int \<times> int) option \<Rightarrow> reply \<times> action" where
  "list_operation oper vs expiry' =
     (case oper of
        LLen \<Rightarrow> (reply_len vs, Leave)
      | LRange start stop \<Rightarrow> (RArray (map bulk (slice (length vs) start stop vs)), Leave)
      | LPush left incoming \<Rightarrow>
          (if incoming = [] then (reply_len vs, Leave)
           else let vs' = push_all left incoming vs in (reply_len vs', Replace_Checked (VList vs') expiry'))
      | LPop left \<Rightarrow>
          (let (result, vs') = pop_value left vs
           in (RBulk result,
               if result \<noteq> None then if vs' = [] then Erase else Replace (VList vs') expiry' else Leave)))"

definition list_collection :: "list_command \<Rightarrow> data option \<Rightarrow> (reply \<times> action) option" where
  "list_collection oper current =
     (case map_option fst current of
        None \<Rightarrow> Some (list_operation oper [] (kept_expiry current))
      | Some (VList vs) \<Rightarrow> Some (list_operation oper vs (kept_expiry current))
      | Some _ \<Rightarrow> Some (RError EWrongType, Leave))"

fun set_fields :: "(bytes \<times> bytes) list \<Rightarrow> int \<Rightarrow> (bytes, bytes) btree_map \<Rightarrow> int \<times> (bytes, bytes) btree_map" where
  "set_fields [] added h = (added, h)"
| "set_fields ((f, v) # es) added h = set_fields es (added + of_bool (bm_get h f = None)) (bm_insert f v h)"

fun delete_fields :: "bytes list \<Rightarrow> int \<Rightarrow> (bytes, bytes) btree_map \<Rightarrow> int \<times> (bytes, bytes) btree_map" where
  "delete_fields [] removed h = (removed, h)"
| "delete_fields (f # fs) removed h = delete_fields fs (removed + of_bool (bm_get h f \<noteq> None)) (bm_remove f h)"

definition hash_operation :: "hash_command \<Rightarrow> (bytes, bytes) btree_map \<Rightarrow> (int \<times> int) option \<Rightarrow> reply \<times> action" where
  "hash_operation oper h expiry' =
     (case oper of
        HGet f \<Rightarrow> (RBulk (bm_get h f), Leave)
      | HExists f \<Rightarrow> (reply_bool (bm_get h f \<noteq> None), Leave)
      | HLen \<Rightarrow> (reply_len h, Leave)
      | HGetAll \<Rightarrow> (RArray (concat (map (\<lambda>(f, v). [bulk f, bulk v]) h)), Leave)
      | HSet es \<Rightarrow>
          (if es = [] then (RInteger 0, Leave)
           else let (added, h') = set_fields es 0 h in (RInteger added, Replace_Checked (VHash h') expiry'))
      | HDelete fs \<Rightarrow>
          (let (removed, h') = delete_fields fs 0 h
           in (RInteger removed, after_removal removed (h' = []) (VHash h') expiry')))"

definition hash_collection :: "hash_command \<Rightarrow> data option \<Rightarrow> (reply \<times> action) option" where
  "hash_collection oper current =
     (case map_option fst current of
        None \<Rightarrow> Some (hash_operation oper [] (kept_expiry current))
      | Some (VHash h) \<Rightarrow> Some (hash_operation oper h (kept_expiry current))
      | Some _ \<Rightarrow> Some (RError EWrongType, Leave))"

section \<open>Sorted sets\<close>

fun zadd_all :: "(score \<times> bytes) list \<Rightarrow> int \<Rightarrow> bool \<Rightarrow> sorted_set \<Rightarrow> int \<times> bool \<times> sorted_set" where
  "zadd_all [] added changed z = (added, changed, z)"
| "zadd_all ((score, m) # es) added changed z =
     (let ((new, update), z) = zs_insert m score z
      in zadd_all es (added + of_bool new) (changed \<or> update) z)"

fun zrem_all :: "bytes list \<Rightarrow> int \<Rightarrow> sorted_set \<Rightarrow> int \<times> sorted_set" where
  "zrem_all [] removed z = (removed, z)"
| "zrem_all (m # ms) removed z =
     (let (was, z) = zs_remove m z in zrem_all ms (removed + of_bool was) z)"

fun range_replies :: "bool \<Rightarrow> (score \<times> bytes) list \<Rightarrow> reply list option" where
  "range_replies with_scores [] = Some []"
| "range_replies with_scores ((score, m) # rest) = do {
     tail \<leftarrow> range_replies with_scores rest;
     (if with_scores then do { text \<leftarrow> score_to_bytes score; Some (bulk m # bulk text # tail) }
      else Some (bulk m # tail))
   }"

definition sorted_set_operation ::
  "sorted_set_command \<Rightarrow> sorted_set \<Rightarrow> (int \<times> int) option \<Rightarrow> (reply \<times> action) option" where
  "sorted_set_operation oper z expiry' =
     (case oper of
        ZCard \<Rightarrow> Some (reply_len (zs_members z), Leave)
      | ZScore m \<Rightarrow>
          (case bm_get (zs_members z) m of
             None \<Rightarrow> Some (RBulk None, Leave)
           | Some score \<Rightarrow> map_option (\<lambda>text. (bulk text, Leave)) (score_to_bytes score))
      | ZRange start stop with_scores \<Rightarrow>
          map_option (\<lambda>rs. (RArray rs, Leave))
            (range_replies with_scores (slice (length (zs_members z)) start stop (zs_ordered z)))
      | ZAdd es \<Rightarrow>
          (let (added, changed, z') = zadd_all es 0 False z
           in Some (RInteger added, if changed then Replace_Checked (VSortedSet z') expiry' else Leave))
      | ZRemove ms \<Rightarrow>
          (let (removed, z') = zrem_all ms 0 z
           in Some (RInteger removed, after_removal removed (zs_members z' = []) (VSortedSet z') expiry')))"

definition sorted_set_collection :: "sorted_set_command \<Rightarrow> data option \<Rightarrow> (reply \<times> action) option" where
  "sorted_set_collection oper current =
     (case map_option fst current of
        None \<Rightarrow> sorted_set_operation oper zs_empty (kept_expiry current)
      | Some (VSortedSet z) \<Rightarrow> sorted_set_operation oper z (kept_expiry current)
      | Some _ \<Rightarrow> Some (RError EWrongType, Leave))"

section \<open>Strings and expiry\<close>

definition get_handler :: "data option \<Rightarrow> (reply \<times> action) option" where
  "get_handler current =
     (case current of
        None \<Rightarrow> Some (RBulk None, Leave)
      | Some (v, _) \<Rightarrow> (case as_string v of
            Some b \<Rightarrow> Some (bulk b, Leave)
          | None \<Rightarrow> Some (RError EWrongType, Leave)))"

definition increment :: "int \<Rightarrow> data option \<Rightarrow> (reply \<times> action) option" where
  "increment delta current =
     (case (case current of
              None \<Rightarrow> Inr 0
            | Some (v, _) \<Rightarrow> (case as_string v of
                  None \<Rightarrow> Inl EWrongType
                | Some b \<Rightarrow> ok_or (parse_decimal b) EInvalidInteger)) of
        Inl e \<Rightarrow> Some (RError e, Leave)
      | Inr previous \<Rightarrow> (case i64_checked (previous + delta) of
            None \<Rightarrow> Some (RError EIntegerOverflow, Leave)
          | Some v \<Rightarrow> Some (RInteger v, Replace_Checked (VString (int_to_string v)) (kept_expiry current))))"

text \<open>The deadline of \<open>SET\<close> is resolved before the key is looked at; \<open>None\<close> is the
  invalid-expiry reply.\<close>

definition set_deadline :: "sample \<Rightarrow> set_expiry \<Rightarrow> (int \<times> int) option option" where
  "set_deadline t x =
     (case x of
        After duration \<Rightarrow>
          map_option Some
            (Option.bind (opt_filter (\<lambda>ms. ms > 0) (i64_checked (duration_as_millis duration))) (deadline t))
      | _ \<Rightarrow> Some None)"

definition set_handler ::
  "bytes \<Rightarrow> set_options \<Rightarrow> (int \<times> int) option \<Rightarrow> data option \<Rightarrow> (reply \<times> action) option" where
  "set_handler v options resolved previous =
     (if return_previous options \<and> (case previous of None \<Rightarrow> False | Some (p, _) \<Rightarrow> as_string p = None)
      then Some (RError EWrongType, Leave)
      else
        let reply' = (if return_previous options
                      then RBulk (Option.bind previous (\<lambda>(p, _). as_string p)) else ROk)
        in if (condition options = Missing \<and> previous \<noteq> None) \<or> (condition options = Present \<and> previous = None)
           then Some (if return_previous options then reply' else RBulk None, Leave)
           else Some (reply', Replace_Checked (VString v)
                  (if expiry options = Keep then kept_expiry previous else resolved)))"

definition set_string :: "sample \<Rightarrow> bytes \<Rightarrow> bytes \<Rightarrow> set_options \<Rightarrow> store \<Rightarrow> (reply \<times> store) option" where
  "set_string t key v options st =
     (case set_deadline t (expiry options) of
        None \<Rightarrow> Some (RError EInvalidSetExpiry, st)
      | Some resolved \<Rightarrow> run_update t key (set_handler v options resolved) st)"

definition expire_handler :: "int \<Rightarrow> (int \<times> int) option \<Rightarrow> data option \<Rightarrow> (reply \<times> action) option" where
  "expire_handler millis resolved current =
     (case current of
        None \<Rightarrow> Some (RInteger 0, Leave)
      | Some (v, _) \<Rightarrow> Some (RInteger 1, if millis \<le> 0 then Erase else Replace v resolved))"

definition expire_command :: "sample \<Rightarrow> bytes \<Rightarrow> int \<Rightarrow> expiry_unit \<Rightarrow> store \<Rightarrow> (reply \<times> store) option" where
  "expire_command t key v unit st =
     (let name = (if unit = Seconds then ''expire'' else ''pexpire'')
      in case (if unit = Seconds then i64_checked (v * 1000) else Some v) of
           None \<Rightarrow> Some (RError (EInvalidExpiry name), st)
         | Some millis \<Rightarrow>
             if millis > 0 then
               (case deadline t millis of
                  None \<Rightarrow> Some (RError (EInvalidExpiry name), st)
                | Some d \<Rightarrow> run_update t key (expire_handler millis (Some d)) st)
             else run_update t key (expire_handler millis None) st)"

definition ttl_handler :: "sample \<Rightarrow> bool \<Rightarrow> data option \<Rightarrow> (reply \<times> action) option" where
  "ttl_handler t milliseconds current =
     Some (RInteger (case current of
         None \<Rightarrow> - 2
       | Some (_, None, _) \<Rightarrow> - 1
       | Some (_, Some d, _) \<Rightarrow>
           (let ttl = duration_as_millis (max 0 (d - t_now t));
                result = (if milliseconds then ttl else (ttl + 500) div 1000)
            in if result \<le> I64_MAX then result else I64_MAX)), Leave)"

definition persist_handler :: "data option \<Rightarrow> (reply \<times> action) option" where
  "persist_handler current =
     Some (case current of
         None \<Rightarrow> (RInteger 0, Leave)
       | Some (_, None, _) \<Rightarrow> (RInteger 0, Leave)
       | Some (v, Some _, _) \<Rightarrow> (RInteger 1, Replace v None))"

section \<open>Several keys\<close>

fun del_keys :: "sample \<Rightarrow> bytes list \<Rightarrow> int \<Rightarrow> store \<Rightarrow> (reply \<times> store) option" where
  "del_keys t [] removed st = Some (RInteger removed, st)"
| "del_keys t (key # keys) removed st = do {
     st \<leftarrow> expire_key (t_now t) key st;
     (old, st) \<leftarrow> remove key st;
     del_keys t keys (removed + of_bool (old \<noteq> None)) st
   }"

fun exists_keys :: "sample \<Rightarrow> bytes list \<Rightarrow> int \<Rightarrow> store \<Rightarrow> (reply \<times> store) option" where
  "exists_keys t [] n st = Some (RInteger n, st)"
| "exists_keys t (key # keys) n st = do {
     st \<leftarrow> expire_key (t_now t) key st;
     exists_keys t keys (n + of_bool (bm_get (st_values st) key \<noteq> None)) st
   }"

fun mget_keys :: "sample \<Rightarrow> bytes list \<Rightarrow> reply list \<Rightarrow> store \<Rightarrow> (reply \<times> store) option" where
  "mget_keys t [] acc st = Some (RArray (rev acc), st)"
| "mget_keys t (key # keys) acc st = do {
     st \<leftarrow> expire_key (t_now t) key st;
     mget_keys t keys
       (RBulk (Option.bind (bm_get (st_values st) key) (\<lambda>e. as_string (ent_value e))) # acc) st
   }"

fun expire_keys :: "int \<Rightarrow> bytes list \<Rightarrow> store \<Rightarrow> store option" where
  "expire_keys now [] st = Some st"
| "expire_keys now (key # keys) st = do { st \<leftarrow> expire_key now key st; expire_keys now keys st }"

fun mset_base :: "bytes list \<Rightarrow> store \<Rightarrow> nat \<Rightarrow> nat option" where
  "mset_base [] st base = Some base"
| "mset_base (key # keys) st base =
     (case bm_get (st_values st) key of
        None \<Rightarrow> mset_base keys st base
      | Some e \<Rightarrow> do { n \<leftarrow> entry_bytes key (ent_value e); mset_base keys st (wrapping_sub base n) })"

fun mset_usage :: "(bytes \<times> bytes) list \<Rightarrow> nat \<Rightarrow> nat option" where
  "mset_usage [] usage = Some usage"
| "mset_usage ((key, v) # es) usage = do {
     n \<leftarrow> entry_bytes key (VString v);
     usage \<leftarrow> checked_add usage n;
     mset_usage es usage
   }"

fun remove_keys :: "bytes list \<Rightarrow> store \<Rightarrow> store option" where
  "remove_keys [] st = Some st"
| "remove_keys (key # keys) st = do { (_, st) \<leftarrow> remove key st; remove_keys keys st }"

fun insert_strings :: "sample \<Rightarrow> (bytes \<times> bytes) list \<Rightarrow> store \<Rightarrow> store option" where
  "insert_strings t [] st = Some st"
| "insert_strings t ((key, v) # es) st = do {
     st \<leftarrow> insert_value t key (VString v) None st;
     insert_strings t es st
   }"

definition mset :: "sample \<Rightarrow> (bytes \<times> bytes) list \<Rightarrow> store \<Rightarrow> (reply \<times> store) option" where
  "mset t pairs st = do {
     let entries = fold (\<lambda>(k, v). bm_insert k v) pairs [];
     st \<leftarrow> expire_keys (t_now t) (map fst entries) st;
     base \<leftarrow> mset_base (map fst entries) st (st_used st);
     (if within_quota st (mset_usage entries base) then do {
        st \<leftarrow> remove_keys (map fst entries) st;
        st \<leftarrow> insert_strings t entries st;
        Some (ROk, st)
      } else Some (RError EOutOfMemory, st))
   }"

section \<open>Commands\<close>

definition native_only :: string where
  "native_only = ''ERR memory commands require native preparation''"

fun execute_inner :: "sample \<Rightarrow> command \<Rightarrow> store \<Rightarrow> (reply \<times> store) option" where
  "execute_inner t (CMemory _ _) st = Some (RError (EMemory native_only), st)"
| "execute_inner t (CHash key oper) st = run_update t key (hash_collection oper) st"
| "execute_inner t (CList key oper) st = run_update t key (list_collection oper) st"
| "execute_inner t (CSetCollection key oper) st = run_update t key (set_collection oper) st"
| "execute_inner t (CSortedSet key oper) st = run_update t key (sorted_set_collection oper) st"
| "execute_inner t (CPing None) st = Some (RPong, st)"
| "execute_inner t (CPing (Some message)) st = Some (bulk message, st)"
| "execute_inner t (CEcho message) st = Some (bulk message, st)"
| "execute_inner t (CGet key) st = run_update t key get_handler st"
| "execute_inner t (CSet key v) st = set_string t key v default_options st"
| "execute_inner t (CSetWithOptions key v options) st = set_string t key v options st"
| "execute_inner t (CDel keys) st = del_keys t keys 0 st"
| "execute_inner t (CExists keys) st = exists_keys t keys 0 st"
| "execute_inner t (CMGet keys) st = mget_keys t keys [] st"
| "execute_inner t (CMSet entries) st = mset t entries st"
| "execute_inner t (CIncr key) st = run_update t key (increment 1) st"
| "execute_inner t (CDecr key) st = run_update t key (increment (- 1)) st"
| "execute_inner t (CExpire key v unit) st = expire_command t key v unit st"
| "execute_inner t (CTtl key milliseconds) st = run_update t key (ttl_handler t milliseconds) st"
| "execute_inner t (CPersist key) st = run_update t key persist_handler st"
| "execute_inner t _ st = Some (RError EConnectionOnly, st)"

section \<open>Active expiry\<close>

fun expire_due :: "nat \<Rightarrow> int \<Rightarrow> nat \<Rightarrow> store \<Rightarrow> (nat \<times> store) option" where
  "expire_due 0 now removed st = Some (removed, st)"
| "expire_due (Suc budget) now removed st =
     (case st_expirations st of
        [] \<Rightarrow> Some (removed, st)
      | (d, g, key) # later \<Rightarrow>
          if d \<le> now then
            (let st = st\<lparr>st_expirations := later\<rparr>
             in if (case bm_get (st_values st) key of
                      None \<Rightarrow> False
                    | Some e \<Rightarrow> ent_generation e = g \<and> ent_expires e = Some d)
                then do { (_, st) \<leftarrow> remove key st; expire_due budget now (removed + 1) st }
                else expire_due budget now removed st)
          else Some (removed, st))"

section \<open>Observations\<close>

fun min_option :: "int list \<Rightarrow> int option" where
  "min_option [] = None"
| "min_option (d # ds) = (case min_option ds of None \<Rightarrow> Some d | Some m \<Rightarrow> Some (min d m))"

definition watch_deadline :: "int \<Rightarrow> entry \<Rightarrow> int option" where
  "watch_deadline now e =
     min_option ((case ent_expires e of None \<Rightarrow> [] | Some d \<Rightarrow> [d])
       @ filter (\<lambda>d. d > now) (map snd (ent_deadlines e)))"

fun watch_keys :: "int \<Rightarrow> bytes list \<Rightarrow> store \<Rightarrow> watch_token list \<times> store" where
  "watch_keys now [] st = ([], st)"
| "watch_keys now (key # keys) st =
     (let (tok, reg) = registry_token key (Option.bind (bm_get (st_values st) key) (watch_deadline now)) (st_watches st);
          (toks, st) = watch_keys now keys (st\<lparr>st_watches := reg\<rparr>)
      in (tok # toks, st))"

definition watches_valid_at :: "int \<Rightarrow> watch_token list \<Rightarrow> store \<Rightarrow> bool" where
  "watches_valid_at now toks st \<longleftrightarrow>
     (\<forall>tok\<in>set toks. token_registry tok = reg_id (st_watches st) \<and> \<not> token_changed (st_watches st) now tok)"

end
