(* ===== verification/Store_Correct.thy ===== *)
theory Store_Correct
  imports Store
begin

text \<open>
  The invariant of the store and its preservation: the indexes name exactly the
  entries that have a deadline, the accounted bytes are the sum over the entries,
  and no operation panics or exceeds the quota.
\<close>

section \<open>The invariant\<close>

definition deadline_ids :: "value \<Rightarrow> bytes set" where
  "deadline_ids v =
     (case v of
        VMemory c \<Rightarrow> {ident. \<exists>m. bm_get (coll_members c) ident = Some m \<and> mem_deadline m \<noteq> None}
      | _ \<Rightarrow> {})"

definition memory_key_ok :: "bytes \<Rightarrow> value \<Rightarrow> bool" where
  "memory_key_ok key v \<longleftrightarrow> (case v of VMemory c \<Rightarrow> validate_key c key = Inr () | _ \<Rightarrow> True)"

definition entry_ok :: "bytes \<Rightarrow> entry \<Rightarrow> bool" where
  "entry_ok key e \<longleftrightarrow>
     value_ok (ent_value e) \<and> memory_key_ok key (ent_value e) \<and> entry_bytes key (ent_value e) \<noteq> None
     \<and> (ent_expires e = None \<longleftrightarrow> ent_unix e = None)
     \<and> bm_ok (ent_deadlines e) \<and> fst ` set (ent_deadlines e) = deadline_ids (ent_value e)"

definition entry_size :: "bytes \<Rightarrow> value \<Rightarrow> nat" where
  "entry_size key v = length key + sum_list (value_sizes v) + ENTRY_OVERHEAD_BYTES"

definition total_size :: "(bytes, entry) btree_map \<Rightarrow> nat" where
  "total_size vs = sum_list (map (\<lambda>(k, e). entry_size k (ent_value e)) vs)"

definition key_index :: "(bytes \<rightharpoonup> entry) \<Rightarrow> (int \<times> u64 \<times> bytes) set" where
  "key_index m = {(d, g, k). \<exists>e. m k = Some e \<and> ent_expires e = Some d \<and> ent_generation e = g}"

definition member_index :: "(bytes \<rightharpoonup> entry) \<Rightarrow> (int \<times> bytes \<times> bytes) set" where
  "member_index m = {(d, k, ident). \<exists>e. m k = Some e \<and> (ident, d) \<in> set (ent_deadlines e)}"

definition store_ok :: "store \<Rightarrow> bool" where
  "store_ok st \<longleftrightarrow>
     bm_ok (st_values st) \<and> bs_ok (st_expirations st) \<and> bs_ok (st_members st)
     \<and> (\<forall>k e. bm_get (st_values st) k = Some e \<longrightarrow> entry_ok k e)
     \<and> set (st_expirations st) = key_index (bm_get (st_values st))
     \<and> set (st_members st) = member_index (bm_get (st_values st))
     \<and> st_used st = total_size (st_values st) \<and> st_used st \<le> USIZE_MAX
     \<and> 0 < st_quota st \<and> st_quota st \<le> ISIZE_MAX"

lemma store_okD:
  assumes "store_ok st"
  shows "bm_ok (st_values st)" "bs_ok (st_expirations st)" "bs_ok (st_members st)"
    "bm_get (st_values st) k = Some e \<Longrightarrow> entry_ok k e"
    "set (st_expirations st) = key_index (bm_get (st_values st))"
    "set (st_members st) = member_index (bm_get (st_values st))"
    "st_used st = total_size (st_values st)" "st_used st \<le> USIZE_MAX"
    "0 < st_quota st" "st_quota st \<le> ISIZE_MAX"
  using assms by (auto simp: store_ok_def)

section \<open>Sizes\<close>

lemma entry_bytes_Some: "entry_bytes key v = Some n \<Longrightarrow> n = entry_size key v \<and> n \<le> USIZE_MAX"
  by (auto simp: entry_bytes_def entry_size_def bind_eq_Some_conv checked_simps dest!: logical_bytes_Some)

lemma logical_bytes_eq:
  "value_ok v \<Longrightarrow> sum_list (value_sizes v) \<le> USIZE_MAX \<Longrightarrow> logical_bytes v = Some (sum_list (value_sizes v))"
  by (cases v) (auto simp: checked_sum_Some_iff)

lemma entry_bytes_eq:
  "value_ok v \<Longrightarrow> entry_size key v \<le> USIZE_MAX \<Longrightarrow> entry_bytes key v = Some (entry_size key v)"
  by (simp add: entry_bytes_def entry_size_def logical_bytes_eq checked_add_ok)

lemma entry_ok_bytes: "entry_ok key e \<Longrightarrow> entry_bytes key (ent_value e) = Some (entry_size key (ent_value e))"
  using entry_bytes_Some by (auto simp: entry_ok_def)

lemma total_size_remove:
  "bm_get vs k = Some e \<Longrightarrow> total_size vs = entry_size k (ent_value e) + total_size (bm_remove k vs)"
  unfolding total_size_def by (subst sum_bm_remove) auto

lemma total_size_insert:
  "bm_ok vs \<Longrightarrow> bm_get vs k = None \<Longrightarrow> total_size (bm_insert k e vs) = entry_size k (ent_value e) + total_size vs"
  unfolding total_size_def by (subst sum_bm_insert) auto

section \<open>Indexes\<close>

lemma key_index_remove: "key_index (m(k := None)) = key_index m - {(d, g, k') |d g k'. k' = k}"
  by (auto simp: key_index_def split: if_splits)

lemma key_index_insert:
  "m k = None \<Longrightarrow> key_index (m(k \<mapsto> e)) =
     (case ent_expires e of None \<Rightarrow> key_index m | Some d \<Rightarrow> insert (d, ent_generation e, k) (key_index m))"
  by (auto simp: key_index_def split: option.split if_splits)

lemma member_index_remove: "member_index (m(k := None)) = member_index m - {(d, k', i) |d k' i. k' = k}"
  by (auto simp: member_index_def split: if_splits)

lemma member_index_insert:
  "m k = None \<Longrightarrow>
     member_index (m(k \<mapsto> e)) = {(d, k, i) |d i. (i, d) \<in> set (ent_deadlines e)} \<union> member_index m"
  by (auto simp: member_index_def split: if_splits)

lemma fold_member_remove:
  "bs_ok s \<Longrightarrow> bs_ok (fold (\<lambda>(i, d). bs_remove (d, key, i)) ds s)
     \<and> set (fold (\<lambda>(i, d). bs_remove (d, key, i)) ds s) = set s - {(d, key, i) |d i. (i, d) \<in> set ds}"
  by (induction ds arbitrary: s) auto

lemma fold_member_insert:
  "bs_ok s \<Longrightarrow> bs_ok (fold (\<lambda>(i, d). bs_insert (d, key, i)) ds s)
     \<and> set (fold (\<lambda>(i, d). bs_insert (d, key, i)) ds s) = {(d, key, i) |d i. (i, d) \<in> set ds} \<union> set s"
  by (induction ds arbitrary: s) auto

section \<open>Removing and installing\<close>

text \<open>What changes besides the accounted fields: only the generation and the watches.\<close>

lemma remove_None: "bm_get (st_values st) key = None \<Longrightarrow> remove key st = Some (None, st)"
  by (simp add: remove_def)

lemma remove_Some:
  assumes ok: "store_ok st" and e: "bm_get (st_values st) key = Some e"
  obtains st' where "remove key st = Some (Some e, st')" "store_ok st'"
    "st_values st' = bm_remove key (st_values st)"
    "st_used st = entry_size key (ent_value e) + st_used st'"
    "st_generation st' = st_generation st + 1" "st_quota st' = st_quota st"
    "st_watches st' = registry_invalidate key (st_watches st)"
proof -
  note D = store_okD [OF ok]
  have eok: "entry_ok key e" by (rule D(4) [OF e])
  define st' where "st' = drop_member_expirations key e (drop_expiration key e
    (st\<lparr>st_values := bm_remove key (st_values st), st_watches := registry_invalidate key (st_watches st),
        st_generation := st_generation st + 1,
        st_used := wrapping_sub (st_used st) (entry_size key (ent_value e))\<rparr>))"
  note defs = st'_def drop_member_expirations_def drop_expiration_def
  have size: "st_used st = entry_size key (ent_value e) + total_size (bm_remove key (st_values st))"
    using D(7) total_size_remove [OF e] by simp
  then have used: "st_used st' = total_size (bm_remove key (st_values st))"
    using D(8) by (auto simp: defs wrapping_sub_ok split: option.split)
  have vals: "st_values st' = bm_remove key (st_values st)" "st_quota st' = st_quota st"
    by (auto simp: defs split: option.split)
  have exp: "bs_ok (st_expirations st') \<and> set (st_expirations st') = key_index ((bm_get (st_values st))(key := None))"
    using D(2,5) e by (auto simp: defs key_index_remove split: option.split) (auto simp: key_index_def)
  have mem: "bs_ok (st_members st') \<and> set (st_members st') = member_index ((bm_get (st_values st))(key := None))"
    using fold_member_remove [OF D(3), of key "ent_deadlines e"] D(6) e
    by (auto simp: defs member_index_remove split: option.splits) (auto simp: member_index_def)
  have "store_ok st'"
    unfolding store_ok_def vals using D used size exp mem by auto
  moreover have "remove key st = Some (Some e, st')"
    by (simp add: remove_def e entry_ok_bytes [OF eok] st'_def Let_def)
  ultimately show ?thesis
    using that vals used size by (simp add: defs split: option.split)
qed


text \<open>The bytes a key accounts for, zero when it is absent.\<close>

definition key_size :: "bytes \<Rightarrow> store \<Rightarrow> nat" where
  "key_size key st = (case bm_get (st_values st) key of None \<Rightarrow> 0 | Some e \<Rightarrow> entry_size key (ent_value e))"

lemma current_bytes_eq: "store_ok st \<Longrightarrow> current_bytes key st = key_size key st"
  using store_okD(4) [of st key] by (auto simp: current_bytes_def key_size_def entry_ok_bytes split: option.split)

lemma key_size_le: "store_ok st \<Longrightarrow> key_size key st \<le> st_used st"
  using store_okD(7) total_size_remove [of "st_values st" key] by (auto simp: key_size_def split: option.split)

lemma store_ok_watches [simp]: "store_ok (st\<lparr>st_watches := w\<rparr>) = store_ok st"
  by (simp add: store_ok_def)

text \<open>\<open>remove\<close> in both cases.\<close>

lemma remove_any:
  assumes ok: "store_ok st"
  obtains st' j where "remove key st = Some (bm_get (st_values st) key, st')" "store_ok st'"
    "st_values st' = bm_remove key (st_values st)" "st_used st = key_size key st + st_used st'"
    "st_generation st' = st_generation st + of_nat j" "j \<le> 1" "st_quota st' = st_quota st"
proof (cases "bm_get (st_values st) key")
  case None
  then show ?thesis
    using that [of st 0] ok by (simp add: remove_None bm_remove_absent key_size_def)
next
  case (Some e)
  show ?thesis by (rule remove_Some [OF ok Some]) (use that [of _ 1] Some in \<open>auto simp: key_size_def\<close>)
qed

lemma bm_get_remove_ok: "store_ok st \<Longrightarrow> bm_get (bm_remove k (st_values st)) = (bm_get (st_values st))(k := None)"
  by (simp add: store_okD)

lemma st_values_add_expirations [simp]: "st_values (add_expirations key e st) = st_values st"
  by (simp add: add_expirations_def)

lemma install_entry_ok:
  assumes ok: "store_ok st" and e: "entry_ok key e"
    and room: "st_used st - key_size key st + entry_size key (ent_value e) \<le> USIZE_MAX"
  obtains st' j where "install_entry key e st = Some st'" "store_ok st'"
    "st_values st' = bm_insert key (e\<lparr>ent_generation := st_generation st'\<rparr>) (st_values st)"
    "st_used st' = st_used st - key_size key st + entry_size key (ent_value e)"
    "st_generation st' = st_generation st + of_nat j" "1 \<le> j" "j \<le> 2" "st_quota st' = st_quota st"
proof -
  define st0 where "st0 = st\<lparr>st_watches := registry_invalidate key (st_watches st)\<rparr>"
  have ok0: "store_ok st0" and same: "st_values st0 = st_values st" "st_used st0 = st_used st"
    "st_generation st0 = st_generation st" "st_quota st0 = st_quota st"
    using ok by (simp_all add: st0_def)
  have ks: "key_size key st0 = key_size key st" by (simp add: key_size_def same)
  obtain st1 j where r: "remove key st0 = Some (bm_get (st_values st0) key, st1)" and ok1: "store_ok st1"
    and v1: "st_values st1 = bm_remove key (st_values st)" and u1: "st_used st = key_size key st + st_used st1"
    and g1: "st_generation st1 = st_generation st + of_nat j" "j \<le> 1" and q1: "st_quota st1 = st_quota st"
    using remove_any [OF ok0, of key] same ks by metis
  note D = store_okD [OF ok1]
  define g where "g = st_generation st1 + 1"
  define e' where "e' = e\<lparr>ent_generation := g\<rparr>"
  define st' where "st' = (add_expirations key e' (st1\<lparr>st_used := wrapping_add (st_used st1) (entry_size key (ent_value e)),
      st_generation := g\<rparr>))\<lparr>st_values := bm_insert key e' (st_values st1)\<rparr>"
  have none: "bm_get (st_values st1) key = None" using store_okD(1) [OF ok] by (simp add: v1)
  have vals: "st_values st' = bm_insert key e' (st_values st1)" "st_quota st' = st_quota st"
    "st_generation st' = g" "st_members st' = fold (\<lambda>(i, d). bs_insert (d, key, i)) (ent_deadlines e') (st_members st1)"
    "st_expirations st' = (case ent_expires e' of None \<Rightarrow> st_expirations st1
        | Some d \<Rightarrow> bs_insert (d, ent_generation e', key) (st_expirations st1))"
    by (simp_all add: st'_def add_expirations_def q1 split: option.split)
  have used: "st_used st' = entry_size key (ent_value e) + st_used st1"
    using room u1 by (simp add: st'_def add_expirations_def wrapping_add_ok)
  have e'ok: "entry_ok key e'" using e by (simp add: entry_ok_def e'_def)
  have get': "bm_get (bm_insert key e' (st_values st1)) = (bm_get (st_values st1))(key \<mapsto> e')" by simp
  have exp: "bs_ok (st_expirations st') \<and> set (st_expirations st') = key_index ((bm_get (st_values st1))(key \<mapsto> e'))"
    using D(2,5) by (simp add: vals(5) key_index_insert [of "bm_get (st_values st1)", OF none] split: option.split)
  have mem: "bs_ok (st_members st') \<and> set (st_members st') = member_index ((bm_get (st_values st1))(key \<mapsto> e'))"
    using fold_member_insert [OF D(3), of key "ent_deadlines e'"] D(6)
    by (simp add: vals(4) member_index_insert [of "bm_get (st_values st1)", OF none])
  have tot: "st_used st' = total_size (bm_insert key e' (st_values st1))"
    using used D(7) total_size_insert [OF D(1) none, of e'] by (simp add: e'_def)
  have ent: "entry_ok k x" if "((bm_get (st_values st1))(key \<mapsto> e')) k = Some x" for k x
    using that D(4) e'ok by (auto split: if_splits)
  have "store_ok st'"
    unfolding store_ok_def vals(1,2) get'
    using exp mem tot ent D(1,9,10) q1 room u1 used by auto
  moreover have "install_entry key e st = Some st'"
    using r entry_ok_bytes [OF e]
    by (simp add: install_entry_def st0_def st'_def e'_def g_def Let_def)
  moreover have "st_values st' = bm_insert key (e\<lparr>ent_generation := st_generation st'\<rparr>) (st_values st)"
    using bm_insert_remove [OF store_okD(1) [OF ok]] by (simp add: vals v1 e'_def)
  moreover have "st_used st' = st_used st - key_size key st + entry_size key (ent_value e)"
    using used u1 by simp
  moreover have "st_generation st' = st_generation st + of_nat (Suc j)" using g1 by (simp add: vals g_def)
  ultimately show ?thesis using that [of st' "Suc j"] g1(2) vals(2) by simp
qed


section \<open>Values\<close>

lemma resolve_members_ok:
  assumes "resolve_members previous t ms acc = Inr ds" "bm_ok acc"
  shows "bm_ok ds \<and> fst ` set ds = {ident. \<exists>m. (ident, m) \<in> set ms \<and> mem_deadline m \<noteq> None} \<union> fst ` set acc"
  using assms
proof (induction previous t ms acc rule: resolve_members.induct)
  case (2 previous t ident m ms acc)
  show ?case
  proof (cases "mem_deadline m")
    case None
    with 2 show ?thesis by auto
  next
    case (Some absolute)
    with "2.prems" obtain d where d: "member_deadline previous t ident absolute = Inr d"
      "resolve_members previous t ms (bm_insert ident d acc) = Inr ds"
      by (auto simp: result_simps)
    have "bm_ok ds \<and> fst ` set ds = {i. \<exists>m. (i, m) \<in> set ms \<and> mem_deadline m \<noteq> None} \<union> insert ident (fst ` set acc)"
      using "2.IH"(2) [OF Some d] "2.prems"(2) by (simp add: keys_bm_insert)
    with Some show ?thesis by auto
  qed
qed simp

lemma resolve_member_deadlines_ok:
  assumes "resolve_member_deadlines t key v st = Inr ds" "value_ok v"
  shows "bm_ok ds \<and> fst ` set ds = deadline_ids v"
proof (cases v)
  case (VMemory c)
  with assms have m: "resolve_members (bm_get (st_values st) key) t (coll_members c) [] = Inr ds"
    and ok: "bm_ok (coll_members c)"
    by (auto simp: resolve_member_deadlines_def collection_ok_def members_ok_def)
  from resolve_members_ok [OF m] VMemory show ?thesis by (simp add: deadline_ids_def bm_get_mem [OF ok])
qed (use assms in \<open>simp_all add: resolve_member_deadlines_def deadline_ids_def\<close>)

lemma insert_value_ok:
  assumes ok: "store_ok st" and v: "value_ok v" "memory_key_ok key v"
    and room: "st_used st - key_size key st + entry_size key v \<le> USIZE_MAX"
    and ds: "resolve_member_deadlines t key v st = Inr ds"
  obtains st' j where "insert_value t key v x st = Some st'" "store_ok st'"
    "st_values st' = bm_insert key \<lparr>ent_value = v, ent_expires = map_option fst x, ent_unix = map_option snd x,
       ent_generation = st_generation st', ent_deadlines = ds\<rparr> (st_values st)"
    "st_used st' = st_used st - key_size key st + entry_size key v"
    "st_generation st' = st_generation st + of_nat j" "1 \<le> j" "j \<le> 2" "st_quota st' = st_quota st"
proof -
  let ?e = "\<lparr>ent_value = v, ent_expires = map_option fst x, ent_unix = map_option snd x,
      ent_generation = 0, ent_deadlines = ds\<rparr>"
  have "entry_size key v \<le> USIZE_MAX" using room by simp
  then have "entry_ok key ?e"
    using v resolve_member_deadlines_ok [OF ds v(1)] by (simp add: entry_ok_def entry_bytes_eq)
  from install_entry_ok [OF ok this] room obtain st' j where
    "install_entry key ?e st = Some st'" "store_ok st'"
    "st_values st' = bm_insert key (?e\<lparr>ent_generation := st_generation st'\<rparr>) (st_values st)"
    "st_used st' = st_used st - key_size key st + entry_size key v"
    "st_generation st' = st_generation st + of_nat j" "1 \<le> j" "j \<le> 2" "st_quota st' = st_quota st"
    by auto
  with that [of st' j] ds show ?thesis by (simp add: insert_value_def)
qed

lemma expire_key_ok:
  assumes ok: "store_ok st"
  obtains st' j where "expire_key now key st = Some st'" "store_ok st'"
    "bm_get (st_values st') = (bm_get (st_values st))(key := opt_filter (\<lambda>e. \<not> entry_expired now e) (bm_get (st_values st) key))"
    "st_used st' \<le> st_used st" "st_quota st' = st_quota st"
    "st_generation st' = st_generation st + of_nat j" "j \<le> 1"
proof (cases "\<exists>e. bm_get (st_values st) key = Some e \<and> entry_expired now e")
  case True
  then obtain e where e: "bm_get (st_values st) key = Some e" "entry_expired now e" by blast
  from remove_any [OF ok, of key] obtain st' j where
    r: "remove key st = Some (bm_get (st_values st) key, st')" "store_ok st'"
    "st_values st' = bm_remove key (st_values st)" "st_used st = key_size key st + st_used st'"
    "st_generation st' = st_generation st + of_nat j" "j \<le> 1" "st_quota st' = st_quota st" .
  show ?thesis
    using that [of st' j] r e by (simp add: expire_key_def bm_get_remove_ok [OF ok])
next
  case False
  then have "opt_filter (\<lambda>e. \<not> entry_expired now e) (bm_get (st_values st) key) = bm_get (st_values st) key"
    "expire_key now key st = Some st"
    by (cases "bm_get (st_values st) key"; simp add: expire_key_def)+
  then show ?thesis using that [of st 0] ok by simp
qed


section \<open>Handlers\<close>

text \<open>What the store may assume of the data it passes to a handler, and what it relies
  on in return: a value that is well formed, and an unguarded replacement that is
  not larger than the value it replaces and keeps a memory collection as it is.\<close>

definition data_ok :: "data option \<Rightarrow> bool" where
  "data_ok current \<longleftrightarrow> (case current of None \<Rightarrow> True | Some (v, d, u) \<Rightarrow> value_ok v \<and> (d = None \<longleftrightarrow> u = None))"

fun is_memory :: "value \<Rightarrow> bool" where
  "is_memory (VMemory _) = True"
| "is_memory _ = False"

definition action_ok :: "data option \<Rightarrow> action \<Rightarrow> bool" where
  "action_ok current act \<longleftrightarrow>
     (case act of
        Leave \<Rightarrow> True
      | Erase \<Rightarrow> True
      | Replace v x \<Rightarrow>
          (case current of None \<Rightarrow> False
           | Some (v0, _) \<Rightarrow> value_ok v \<and> sum_list (value_sizes v) \<le> sum_list (value_sizes v0) \<and> (is_memory v \<longrightarrow> v = v0))
      | Replace_Checked v x \<Rightarrow> value_ok v \<and> \<not> is_memory v)"

definition handler_ok :: "(data option \<Rightarrow> (reply \<times> action) option) \<Rightarrow> bool" where
  "handler_ok h \<longleftrightarrow> (\<forall>current r act. data_ok current \<longrightarrow> h current = Some (r, act) \<longrightarrow> action_ok current act)"

lemma resolve_retained:
  assumes "\<And>i m a. (i, m) \<in> set ms \<Longrightarrow> mem_deadline m = Some a \<Longrightarrow> retained_deadline previous i a \<noteq> None"
  shows "\<exists>ds. resolve_members previous t ms acc = Inr ds"
  using assms
proof (induction ms arbitrary: acc)
  case (Cons im ms)
  obtain i m where im: "im = (i, m)" by (cases im)
  have IH: "\<exists>ds. resolve_members previous t ms acc' = Inr ds" for acc'
    by (rule Cons.IH) (use Cons.prems in auto)
  show ?case
  proof (cases "mem_deadline m")
    case None
    with IH [of acc] im show ?thesis by simp
  next
    case (Some a)
    then obtain d where "retained_deadline previous i a = Some d" using Cons.prems [of i m a] im by auto
    then have "member_deadline previous t i a = Inr d" by (simp add: member_deadline_def)
    with IH [of "bm_insert i d acc"] Some im show ?thesis by simp
  qed
qed simp

lemma resolve_same_value:
  assumes ok: "store_ok st" and e: "bm_get (st_values st) key = Some e"
  shows "\<exists>ds. resolve_member_deadlines t key (ent_value e) st = Inr ds"
proof (cases "ent_value e")
  case (VMemory c)
  have eok: "entry_ok key e" by (rule store_okD(4) [OF ok e])
  then have mok: "bm_ok (coll_members c)" and ids: "fst ` set (ent_deadlines e) = deadline_ids (ent_value e)"
    using VMemory by (auto simp: entry_ok_def collection_ok_def members_ok_def)
  have "retained_deadline (Some e) i a \<noteq> None" if "(i, m) \<in> set (coll_members c)" "mem_deadline m = Some a" for i m a
  proof -
    have g: "bm_get (coll_members c) i = Some m" using that(1) bm_get_mem [OF mok] by simp
    then have "i \<in> fst ` set (ent_deadlines e)" using ids VMemory that(2) by (simp add: deadline_ids_def)
    then have "bm_get (ent_deadlines e) i \<noteq> None" by (simp add: map_of_eq_None_iff)
    with g VMemory that(2) show ?thesis by (simp add: retained_deadline_def)
  qed
  with resolve_retained [of "coll_members c" "Some e" t "[]"] e VMemory show ?thesis
    by (simp add: resolve_member_deadlines_def)
qed (simp_all add: resolve_member_deadlines_def)

lemma resolve_not_memory: "\<not> is_memory v \<Longrightarrow> resolve_member_deadlines t key v st = Inr []"
  by (cases v) (simp_all add: resolve_member_deadlines_def)

lemma memory_key_ok_simp: "\<not> is_memory v \<Longrightarrow> memory_key_ok key v"
  by (cases v) (simp_all add: memory_key_ok_def)

lemma can_replace_room:
  assumes ok: "store_ok st" and v: "value_ok v" and c: "can_replace key v st"
  shows "st_used st - key_size key st + entry_size key v \<le> max (st_quota st) (st_used st)"
    "st_used st - key_size key st + entry_size key v \<le> USIZE_MAX"
  using c key_size_le [OF ok, of key] store_okD(8,10) [OF ok]
  by (auto simp: can_replace_def within_quota_def current_bytes_eq [OF ok] checked_simps bind_eq_Some_conv
      USIZE_MAX_def ISIZE_MAX_def split: option.splits dest!: entry_bytes_Some)

text \<open>The effect of an action on the data of its key.\<close>

fun action_effect :: "action \<Rightarrow> data option \<Rightarrow> data option" where
  "action_effect Leave current = current"
| "action_effect Erase current = None"
| "action_effect (Replace v x) current = Some (v, map_option fst x, map_option snd x)"
| "action_effect (Replace_Checked v x) current = Some (v, map_option fst x, map_option snd x)"

definition store_data :: "store \<Rightarrow> bytes \<Rightarrow> data option" where
  "store_data st k = map_option entry_data (bm_get (st_values st) k)"

lemma store_data_ok: "store_ok st \<Longrightarrow> data_ok (store_data st k)"
  using store_okD(4) [of st k]
  by (auto simp: data_ok_def store_data_def entry_data_def entry_ok_def split: option.split)

lemma perform_ok:
  assumes ok: "store_ok st" and act: "action_ok (store_data st key) act"
  obtains r st' where "perform t key r0 act st = Some (r, st')" "store_ok st'" "st_quota st' = st_quota st"
    "st_used st' \<le> max (st_quota st) (st_used st)"
    "(r = r0 \<and> store_data st' = (store_data st)(key := action_effect act (store_data st key)))
     \<or> (r = RError EOutOfMemory \<and> st' = st \<and> (\<exists>v x. act = Replace_Checked v x \<and> \<not> can_replace key v st))"
proof -
  have upd: "store_data st' = (store_data st)(key \<mapsto> (v, map_option fst x, map_option snd x))"
    if "st_values st' = bm_insert key \<lparr>ent_value = v, ent_expires = map_option fst x, ent_unix = map_option snd x,
       ent_generation = g, ent_deadlines = ds\<rparr> (st_values st)" for st' v x g ds
    using that by (auto simp: store_data_def fun_eq_iff entry_data_def)
  show ?thesis
  proof (cases act)
    case Leave
    then show ?thesis using that [of r0 st] ok by (simp add: perform_def)
  next
    case Erase
    obtain st' j where
      "remove key st = Some (bm_get (st_values st) key, st')" "store_ok st'"
      "st_values st' = bm_remove key (st_values st)" "st_used st = key_size key st + st_used st'"
      "st_generation st' = st_generation st + of_nat j" "j \<le> 1" "st_quota st' = st_quota st"
      by (rule remove_any [OF ok, of key])
    then show ?thesis
      using that [of r0 st'] Erase ok by (auto simp: perform_def store_data_def bm_get_remove_ok fun_eq_iff)
  next
    case (Replace v x)
    with act obtain e where e: "bm_get (st_values st) key = Some e" and v: "value_ok v"
      and le: "sum_list (value_sizes v) \<le> sum_list (value_sizes (ent_value e))"
      and m: "is_memory v \<Longrightarrow> v = ent_value e"
      by (auto simp: action_ok_def store_data_def entry_data_def split: option.splits)
    have size: "entry_size key v \<le> key_size key st" using le e by (simp add: entry_size_def key_size_def)
    then have room: "st_used st - key_size key st + entry_size key v \<le> st_used st"
      using key_size_le [OF ok, of key] by simp
    have mk: "memory_key_ok key v"
      using m store_okD(4) [OF ok e] memory_key_ok_simp by (auto simp: entry_ok_def)
    obtain ds where ds: "resolve_member_deadlines t key v st = Inr ds"
      using resolve_same_value [OF ok e, of t] resolve_not_memory [of v t key st] m by (cases "is_memory v") auto
    have "st_used st - key_size key st + entry_size key v \<le> USIZE_MAX"
      using room store_okD(8) [OF ok] by (rule order_trans)
    then obtain st' j where
      "insert_value t key v x st = Some st'" "store_ok st'"
      "st_values st' = bm_insert key \<lparr>ent_value = v, ent_expires = map_option fst x, ent_unix = map_option snd x,
         ent_generation = st_generation st', ent_deadlines = ds\<rparr> (st_values st)"
      "st_used st' = st_used st - key_size key st + entry_size key v"
      "st_generation st' = st_generation st + of_nat j" "1 \<le> j" "j \<le> 2" "st_quota st' = st_quota st"
      by (rule insert_value_ok [OF ok v mk _ ds])
    then show ?thesis using that [of r0 st'] Replace room upd by (simp add: perform_def)
  next
    case (Replace_Checked v x)
    with act have v: "value_ok v" "\<not> is_memory v" by (simp_all add: action_ok_def)
    show ?thesis
    proof (cases "can_replace key v st")
      case True
      note room = can_replace_room [OF ok v(1) True]
      obtain st' j where
        "insert_value t key v x st = Some st'" "store_ok st'"
        "st_values st' = bm_insert key \<lparr>ent_value = v, ent_expires = map_option fst x, ent_unix = map_option snd x,
           ent_generation = st_generation st', ent_deadlines = []\<rparr> (st_values st)"
        "st_used st' = st_used st - key_size key st + entry_size key v"
        "st_generation st' = st_generation st + of_nat j" "1 \<le> j" "j \<le> 2" "st_quota st' = st_quota st"
        by (rule insert_value_ok [OF ok v(1) memory_key_ok_simp [OF v(2)] room(2) resolve_not_memory [OF v(2)]])
      then show ?thesis using that [of r0 st'] Replace_Checked True room upd by (simp add: perform_def)
    next
      case False
      then show ?thesis using that [of "RError EOutOfMemory" st] Replace_Checked ok by (simp add: perform_def)
    qed
  qed
qed


section \<open>The handlers of the commands\<close>

lemma sum_concat_map: "sum_list (concat (map f xs)) = sum_list (map (\<lambda>x. sum_list (f x)) xs)" for f :: "'a \<Rightarrow> nat list"
  by (induction xs) simp_all

lemma sum_bs_remove_le: "sum_list (map g (bs_remove x s)) \<le> sum_list (map g s)" for g :: "_ \<Rightarrow> nat"
  by (induction x s rule: bs_remove.induct) auto

lemma sum_bm_remove_le: "sum_list (map g (bm_remove k m)) \<le> sum_list (map g m)" for g :: "_ \<Rightarrow> nat"
  by (induction k m rule: bm_remove.induct) auto

lemma remove_all_ok:
  assumes "remove_all ms n s = (n', s')" "bs_ok s"
  shows "bs_ok s' \<and> set s' = set s - set ms \<and> sum_list (map g s') \<le> (sum_list (map g s) :: nat)"
  using assms
proof (induction ms n s rule: remove_all.induct)
  case (2 m ms n s)
  then have "bs_ok s' \<and> set s' = set (bs_remove m s) - set ms \<and> sum_list (map g s') \<le> sum_list (map g (bs_remove m s))"
    by simp
  with "2.prems" sum_bs_remove_le [of g m s] show ?case by (auto intro: order_trans)
qed simp

lemma add_all_ok:
  assumes "add_all ms n s = (n', s')" "bs_ok s"
  shows "bs_ok s' \<and> set s' = set s \<union> set ms \<and> (n < n' \<longrightarrow> s' \<noteq> []) \<and> n \<le> n'"
  using assms
proof (induction ms n s rule: add_all.induct)
  case (2 m ms n s)
  then have "bs_ok s' \<and> set s' = set (bs_insert m s) \<union> set ms \<and> n + of_bool (m \<notin> set s) \<le> n'" by simp
  moreover from this have "n \<le> n'" by (cases "m \<in> set s") simp_all
  ultimately show ?case by auto
qed simp

lemma delete_fields_ok:
  assumes "delete_fields fs n h = (n', h')" "bm_ok h"
  shows "bm_ok h' \<and> bm_get h' = (bm_get h) |` (- set fs) \<and> sum_list (map g h') \<le> (sum_list (map g h) :: nat)"
  using assms
proof (induction fs arbitrary: n h)
  case (Cons f fs)
  have "delete_fields fs (n + of_bool (bm_get h f \<noteq> None)) (bm_remove f h) = (n', h')"
    using Cons.prems(1) by simp
  note IH = Cons.IH [OF this bm_ok_remove [OF Cons.prems(2)]]
  moreover have "((bm_get h)(f := None)) |` (- set fs) = (bm_get h) |` (- set (f # fs))"
    by (auto simp: restrict_map_def fun_eq_iff)
  ultimately have "bm_ok h' \<and> bm_get h' = (bm_get h) |` (- set (f # fs)) \<and> sum_list (map g h') \<le> sum_list (map g (bm_remove f h))"
    using Cons.prems(2) by (simp only: bm_get_remove)
  with sum_bm_remove_le [of g f h] show ?case by (blast intro: order_trans)
qed (simp add: restrict_map_def)

lemma set_fields_ok:
  assumes "set_fields es n h = (n', h')" "bm_ok h"
  shows "bm_ok h' \<and> bm_get h' = bm_get h ++ map_of (rev es) \<and> (es \<noteq> [] \<longrightarrow> h' \<noteq> [])"
proof -
  have "h' = fold (\<lambda>(k, v). bm_insert k v) es h"
    using assms(1) by (induction es n h rule: set_fields.induct) auto
  then have h': "h' = bm.insert_all es h" by (simp add: bm.insert_all_def)
  have g: "bm_get h' = bm_get h ++ map_of (rev es)" unfolding h' by (rule bm.get_insert_all [OF assms(2)])
  have "h' \<noteq> []" if "es \<noteq> []"
  proof
    assume "h' = []"
    with g have "bm_get h ++ map_of (rev es) = Map.empty" by simp
    with that show False by (cases es rule: rev_cases) (auto simp: fun_eq_iff split: if_splits)
  qed
  with g h' bm.ok_insert_all [OF assms(2)] show ?thesis by simp
qed

lemma zadd_all_ok:
  assumes "zadd_all es n c z = (n', c', z')" "zs_ok z"
  shows "zs_ok z' \<and> bm_get (zs_members z') = bm_get (zs_members z) ++ map_of (rev (map prod.swap es))
    \<and> (es \<noteq> [] \<longrightarrow> zs_members z' \<noteq> [])"
  using assms
proof (induction es arbitrary: n c z)
  case (Cons sm es)
  obtain score m where sm: "sm = (score, m)" by (cases sm)
  obtain nw up z1 where z1: "zs_insert m score z = ((nw, up), z1)" by (metis surj_pair)
  note i = zs_insert_ok [OF Cons.prems(2), of m score]
  have ok: "zs_ok z1" and get1: "bm_get (zs_members z1) = (bm_get (zs_members z))(m \<mapsto> score)"
    using i(1,2) z1 by simp_all
  have run: "zadd_all es (n + of_bool nw) (c \<or> up) z1 = (n', c', z')"
    using Cons.prems(1) z1 sm by simp
  have IH: "zs_ok z' \<and> bm_get (zs_members z') = bm_get (zs_members z1) ++ map_of (rev (map prod.swap es))"
    using Cons.IH [OF run ok] by simp
  then have g: "bm_get (zs_members z') = bm_get (zs_members z) ++ map_of (rev (map prod.swap ((score, m) # es)))"
    by (simp add: get1 map_add_upd_left)
  then have "bm_get (zs_members z') m \<noteq> None" by (simp add: map_add_def split: option.split)
  then have "zs_members z' \<noteq> []" by auto
  with IH g sm show ?case by simp
qed simp

lemma zrem_all_ok:
  assumes "zrem_all ms n z = (n', z')" "zs_ok z"
  shows "zs_ok z' \<and> bm_get (zs_members z') = (bm_get (zs_members z)) |` (- set ms)
    \<and> sum_list (map g (zs_ordered z')) \<le> (sum_list (map g (zs_ordered z)) :: nat)"
  using assms
proof (induction ms arbitrary: n z)
  case (Cons m ms)
  obtain was z1 where z1: "zs_remove m z = (was, z1)" by (metis surj_pair)
  note r = zs_remove_ok [OF Cons.prems(2), of m]
  have ok: "zs_ok z1" and get1: "bm_get (zs_members z1) = (bm_get (zs_members z))(m := None)"
    using r(1,2) z1 by simp_all
  have le: "sum_list (map g (zs_ordered z1)) \<le> sum_list (map g (zs_ordered z))"
    using z1 sum_bs_remove_le by (auto simp: zs_remove_def split: option.splits)
  have run: "zrem_all ms (n + of_bool was) z1 = (n', z')" using Cons.prems(1) z1 by simp
  have IH: "zs_ok z' \<and> bm_get (zs_members z') = (bm_get (zs_members z1)) |` (- set ms)
      \<and> sum_list (map g (zs_ordered z')) \<le> sum_list (map g (zs_ordered z1))"
    by (rule Cons.IH [OF run ok])
  moreover have "((bm_get (zs_members z))(m := None)) |` (- set ms) = (bm_get (zs_members z)) |` (- set (m # ms))"
    by (auto simp: restrict_map_def fun_eq_iff)
  ultimately have "zs_ok z' \<and> bm_get (zs_members z') = (bm_get (zs_members z)) |` (- set (m # ms))
      \<and> sum_list (map g (zs_ordered z')) \<le> sum_list (map g (zs_ordered z1))"
    using get1 by (simp only:)
  with le show ?case by (blast intro: order_trans)
qed (simp add: restrict_map_def)


lemma after_removal_ok:
  assumes "value_ok v \<or> emptied" "sum_list (value_sizes v) \<le> sum_list (value_sizes v0)" "\<not> is_memory v"
  shows "action_ok (Some (v0, du)) (after_removal n emptied v x)"
  using assms by (auto simp: after_removal_def action_ok_def)

lemma set_collection_ok: "handler_ok (set_collection oper)"
proof -
  have new: "action_ok None (snd (set_operation oper [] x))" for x
    using add_all_ok [of _ 0 "[]"] remove_all_ok [of _ 0 "[]"]
    by (cases oper)
      (auto simp: set_operation_def action_ok_def after_removal_def Let_def split: prod.split if_splits)
  have old: "action_ok (Some (VSet ms, du)) (snd (set_operation oper ms x))" if "bs_ok ms" for ms du x
  proof (cases oper)
    case (SRemove inc)
    obtain n s' where r: "remove_all inc 0 ms = (n, s')" by fastforce
    from remove_all_ok [OF r that, of "\<lambda>m. length m + 64"] show ?thesis
      using after_removal_ok [of "VSet s'" "s' = []" "VSet ms"] r
      by (simp add: SRemove set_operation_def sum_concat_map)
  next
    case (SAdd inc)
    obtain n s' where r: "add_all inc 0 ms = (n, s')" by fastforce
    from add_all_ok [OF r that] r SAdd show ?thesis by (simp add: set_operation_def action_ok_def)
  qed (simp_all add: set_operation_def action_ok_def)
  show ?thesis
    unfolding handler_ok_def
  proof (intro allI impI)
    fix current r act
    assume "data_ok current" "set_collection oper current = Some (r, act)"
    with new old show "action_ok current act"
      by (cases current) (auto simp: set_collection_def data_ok_def action_ok_def [of _ Leave] split: value_splits
        dest!: arg_cong [of _ _ snd])
  qed
qed


lemma list_collection_ok: "handler_ok (list_collection oper)"
proof -
  have sub: "sum_list (value_sizes (VList (tl vs))) \<le> sum_list (value_sizes (VList vs))"
    "sum_list (value_sizes (VList (butlast vs))) \<le> sum_list (value_sizes (VList vs))" for vs
  proof -
    show "sum_list (value_sizes (VList (tl vs))) \<le> sum_list (value_sizes (VList vs))" by (cases vs) simp_all
    show "sum_list (value_sizes (VList (butlast vs))) \<le> sum_list (value_sizes (VList vs))"
      by (cases vs rule: rev_cases) simp_all
  qed
  have push: "push_all left inc vs \<noteq> []" if "inc \<noteq> []" for left inc vs
  proof -
    have "length (push_all left inc vs) = length vs + length inc"
      unfolding push_all_def by (induction inc arbitrary: vs) (auto simp: fun_eq_iff)
    with that show ?thesis by (cases inc) auto
  qed
  have op: "action_ok cur (snd (list_operation oper vs x))" if "cur = Some (VList vs, du) \<or> (cur = None \<and> vs = [])" for cur vs du x
    using that push sub [of vs]
    by (cases oper) (auto simp: list_operation_def action_ok_def pop_value_def Let_def split: if_splits)
  show ?thesis
    unfolding handler_ok_def
  proof (intro allI impI)
    fix current r act
    assume "data_ok current" "list_collection oper current = Some (r, act)"
    with op show "action_ok current act"
      by (cases current) (auto simp: list_collection_def data_ok_def action_ok_def [of _ Leave] split: value_splits
        dest!: arg_cong [of _ _ snd])
  qed
qed

lemma hash_collection_ok: "handler_ok (hash_collection oper)"
proof -
  have op: "action_ok cur (snd (hash_operation oper h x))"
    if cur: "cur = Some (VHash h, du) \<or> (cur = None \<and> h = [])" and ok: "bm_ok h" for cur h du x
  proof (cases oper)
    case (HSet es)
    obtain n h' where r: "set_fields es 0 h = (n, h')" by fastforce
    from set_fields_ok [OF r ok] r HSet show ?thesis by (simp add: hash_operation_def action_ok_def)
  next
    case (HDelete fs)
    obtain n h' where r: "delete_fields fs 0 h = (n, h')" by fastforce
    have none: "n = 0" if "h = []" using r that by (induction fs) simp_all
    from delete_fields_ok [OF r ok, of "\<lambda>(f, v). length f + length v + 64"]
    have "bm_ok h'" "sum_list (value_sizes (VHash h')) \<le> sum_list (value_sizes (VHash h))"
      by (simp_all add: sum_concat_map case_prod_unfold add.assoc)
    then show ?thesis
      using r cur none by (auto simp: HDelete hash_operation_def action_ok_def after_removal_def)
  qed (simp_all add: hash_operation_def action_ok_def)
  show ?thesis
    unfolding handler_ok_def
  proof (intro allI impI)
    fix current r act
    assume "data_ok current" "hash_collection oper current = Some (r, act)"
    with op show "action_ok current act"
      by (cases current) (auto simp: hash_collection_def data_ok_def action_ok_def [of _ Leave] split: value_splits
        dest!: arg_cong [of _ _ snd])
  qed
qed

lemma sorted_set_collection_ok: "handler_ok (sorted_set_collection oper)"
proof -
  have op: "action_ok cur act"
    if cur: "cur = Some (VSortedSet z, du) \<or> (cur = None \<and> z = zs_empty)" and ok: "zs_ok z"
      and r: "sorted_set_operation oper z x = Some (r, act)" for cur z du x r act
  proof (cases oper)
    case (ZAdd es)
    obtain n c z' where a: "zadd_all es 0 False z = (n, c, z')" by (metis surj_pair)
    have "es = [] \<Longrightarrow> \<not> c" using a by simp
    with zadd_all_ok [OF a ok] a ZAdd r show ?thesis
      by (auto simp: sorted_set_operation_def action_ok_def)
  next
    case (ZRemove ms)
    obtain n z' where a: "zrem_all ms 0 z = (n, z')" by fastforce
    have none: "n = 0" if "z = zs_empty"
      using a that by (induction ms) (simp_all add: zs_remove_def zs_empty_def)
    from zrem_all_ok [OF a ok, of "\<lambda>(_, m). length m + 96"]
    have "zs_ok z'" "sum_list (value_sizes (VSortedSet z')) \<le> sum_list (value_sizes (VSortedSet z))"
      by (simp_all add: sum_concat_map case_prod_unfold)
    then show ?thesis
      using a cur none r by (auto simp: ZRemove sorted_set_operation_def action_ok_def after_removal_def)
  qed (use r in \<open>auto simp: sorted_set_operation_def action_ok_def split: option.splits\<close>)
  show ?thesis
    unfolding handler_ok_def
  proof (intro allI impI)
    fix current r act
    assume "data_ok current" "sorted_set_collection oper current = Some (r, act)"
    with op [of None zs_empty] op show "action_ok current act"
      by (cases current) (auto simp: sorted_set_collection_def data_ok_def action_ok_def [of _ Leave] split: value_splits)
  qed
qed

lemma string_handlers_ok:
  "handler_ok get_handler" "handler_ok (increment delta)" "handler_ok (set_handler v options resolved)"
  "handler_ok (ttl_handler t ms)" "handler_ok persist_handler" "handler_ok (expire_handler millis resolved)"
  by (auto simp: handler_ok_def action_ok_def data_ok_def get_handler_def increment_def set_handler_def ttl_handler_def
      persist_handler_def expire_handler_def Let_def split: option.splits if_splits sum.splits prod.splits)


lemmas handlers_ok = set_collection_ok list_collection_ok hash_collection_ok sorted_set_collection_ok string_handlers_ok

end
