(* ===== verification/Keyspace.thy ===== *)
theory Keyspace
  imports Store_Correct
begin

text \<open>
  The abstract keyspace: a map from keys to the data a client can see at an instant,
  with the commands as functions on it, and the refinement of this specification
  by \<open>execute_inner\<close>. Deadlines that have passed, physical removal, indexes,
  generations and accounting do not appear; the quota appears only as the
  possibility of an \<open>OutOfMemory\<close> reply that changes nothing.
\<close>

section \<open>Specification\<close>

type_synonym keyspace = "bytes \<Rightarrow> data option"

definition live :: "int \<Rightarrow> data \<Rightarrow> bool" where
  "live now = (\<lambda>(_, d, _). case d of None \<Rightarrow> True | Some x \<Rightarrow> now < x)"

definition visible :: "int \<Rightarrow> store \<Rightarrow> keyspace" where
  "visible now st k = opt_filter (live now) (store_data st k)"

definition spec_update ::
  "sample \<Rightarrow> bytes \<Rightarrow> (data option \<Rightarrow> (reply \<times> action) option) \<Rightarrow> keyspace \<Rightarrow> (reply \<times> keyspace) option" where
  "spec_update t key h m =
     map_option (\<lambda>(r, act). (r, m(key := opt_filter (live (t_now t)) (action_effect act (m key))))) (h (m key))"

definition spec_set :: "sample \<Rightarrow> bytes \<Rightarrow> bytes \<Rightarrow> set_options \<Rightarrow> keyspace \<Rightarrow> (reply \<times> keyspace) option" where
  "spec_set t key v options m =
     (case set_deadline t (expiry options) of
        None \<Rightarrow> Some (RError EInvalidSetExpiry, m)
      | Some resolved \<Rightarrow> spec_update t key (set_handler v options resolved) m)"

definition spec_expire :: "sample \<Rightarrow> bytes \<Rightarrow> int \<Rightarrow> expiry_unit \<Rightarrow> keyspace \<Rightarrow> (reply \<times> keyspace) option" where
  "spec_expire t key v unit m =
     (let name = (if unit = Seconds then ''expire'' else ''pexpire'');
          millis = (if unit = Seconds then v * 1000 else v)
      in if unit = Seconds \<and> \<not> i64_ok millis then Some (RError (EInvalidExpiry name), m)
         else if millis \<le> 0 then spec_update t key (expire_handler millis None) m
         else (case deadline t millis of
             None \<Rightarrow> Some (RError (EInvalidExpiry name), m)
           | Some d \<Rightarrow> spec_update t key (expire_handler millis (Some d)) m))"

definition string_at :: "keyspace \<Rightarrow> bytes \<Rightarrow> bytes option" where
  "string_at m k = Option.bind (m k) (\<lambda>(v, _). as_string v)"

definition spec_mset :: "(bytes \<times> bytes) list \<Rightarrow> keyspace \<Rightarrow> keyspace" where
  "spec_mset pairs m = m ++ (\<lambda>k. map_option (\<lambda>v. (VString v, None, None)) (map_of (rev pairs) k))"

fun spec_execute :: "sample \<Rightarrow> command \<Rightarrow> keyspace \<Rightarrow> (reply \<times> keyspace) option" where
  "spec_execute t (CMemory _ _) m = Some (RError (EMemory native_only), m)"
| "spec_execute t (CHash key oper) m = spec_update t key (hash_collection oper) m"
| "spec_execute t (CList key oper) m = spec_update t key (list_collection oper) m"
| "spec_execute t (CSetCollection key oper) m = spec_update t key (set_collection oper) m"
| "spec_execute t (CSortedSet key oper) m = spec_update t key (sorted_set_collection oper) m"
| "spec_execute t (CPing None) m = Some (RPong, m)"
| "spec_execute t (CPing (Some message)) m = Some (bulk message, m)"
| "spec_execute t (CEcho message) m = Some (bulk message, m)"
| "spec_execute t (CGet key) m = spec_update t key get_handler m"
| "spec_execute t (CSet key v) m = spec_set t key v default_options m"
| "spec_execute t (CSetWithOptions key v options) m = spec_set t key v options m"
| "spec_execute t (CDel keys) m = Some (RInteger (int (card (set keys \<inter> dom m))), m |` (- set keys))"
| "spec_execute t (CExists keys) m = Some (RInteger (int (length (filter (\<lambda>k. m k \<noteq> None) keys))), m)"
| "spec_execute t (CMGet keys) m = Some (RArray (map (\<lambda>k. RBulk (string_at m k)) keys), m)"
| "spec_execute t (CMSet entries) m = Some (ROk, spec_mset entries m)"
| "spec_execute t (CIncr key) m = spec_update t key (increment 1) m"
| "spec_execute t (CDecr key) m = spec_update t key (increment (- 1)) m"
| "spec_execute t (CExpire key v unit) m = spec_expire t key v unit m"
| "spec_execute t (CTtl key milliseconds) m = spec_update t key (ttl_handler t milliseconds) m"
| "spec_execute t (CPersist key) m = spec_update t key persist_handler m"
| "spec_execute t _ m = Some (RError EConnectionOnly, m)"

section \<open>Refinement\<close>

text \<open>\<open>refines\<close>: the concrete operation returns, keeps the invariant and stays within
  the quota (or below what it used before), and does to the visible keyspace what the
  specification does, unless it replies \<open>OutOfMemory\<close> and the keyspace is unchanged.\<close>

definition refines :: "int \<Rightarrow> store \<Rightarrow> (reply \<times> keyspace) option \<Rightarrow> (reply \<times> store) option \<Rightarrow> bool" where
  "refines now st spec result \<longleftrightarrow>
     (\<exists>r st'. result = Some (r, st') \<and> store_ok st' \<and> st_quota st' = st_quota st
        \<and> st_used st' \<le> max (st_quota st) (st_used st)
        \<and> (spec = Some (r, visible now st') \<or> (r = RError EOutOfMemory \<and> visible now st' = visible now st)))"

lemma refinesI:
  "result = Some (r, st') \<Longrightarrow> store_ok st' \<Longrightarrow> st_quota st' = st_quota st \<Longrightarrow>
     st_used st' \<le> max (st_quota st) (st_used st) \<Longrightarrow>
     spec = Some (r, visible now st') \<or> (r = RError EOutOfMemory \<and> visible now st' = visible now st) \<Longrightarrow>
     refines now st spec result"
  by (auto simp: refines_def)

lemma entry_expired_live: "live now (entry_data e) \<longleftrightarrow> \<not> entry_expired now e"
  by (auto simp: live_def entry_data_def entry_expired_def split: option.split)

lemma visible_expire_key:
  assumes "bm_get (st_values st') = (bm_get (st_values st))(key := opt_filter (\<lambda>e. \<not> entry_expired now e) (bm_get (st_values st) key))"
  shows "store_data st' = (store_data st)(key := visible now st key)" "visible now st' = visible now st"
proof -
  show "store_data st' = (store_data st)(key := visible now st key)"
    using assms by (cases "bm_get (st_values st) key")
      (auto simp: store_data_def visible_def fun_eq_iff entry_expired_live)
  then show "visible now st' = visible now st"
    by (cases "store_data st key") (auto simp: visible_def fun_eq_iff)
qed

lemma run_update_refines:
  assumes ok: "store_ok st" and h: "handler_ok h" and ret: "h (visible (t_now t) st key) \<noteq> None"
  shows "refines (t_now t) st (spec_update t key h (visible (t_now t) st)) (run_update t key h st)"
proof -
  let ?n = "t_now t"
  obtain st1 j where e: "expire_key ?n key st = Some st1" and ok1: "store_ok st1"
    and v1: "bm_get (st_values st1) = (bm_get (st_values st))(key := opt_filter (\<lambda>e. \<not> entry_expired ?n e) (bm_get (st_values st) key))"
    and u1: "st_used st1 \<le> st_used st" and q1: "st_quota st1 = st_quota st"
    by (rule expire_key_ok [OF ok])
  note vis = visible_expire_key [OF v1]
  obtain r0 act where r0: "h (visible ?n st key) = Some (r0, act)" using ret by auto
  have d1: "store_data st1 key = visible ?n st key" using vis(1) by simp
  have "action_ok (store_data st1 key) act"
    using h r0 store_data_ok [OF ok1, of key] d1 unfolding handler_ok_def by metis
  then obtain r st' where p: "perform t key r0 act st1 = Some (r, st')" and ok': "store_ok st'"
    and q': "st_quota st' = st_quota st1" and u': "st_used st' \<le> max (st_quota st1) (st_used st1)"
    and d': "(r = r0 \<and> store_data st' = (store_data st1)(key := action_effect act (store_data st1 key)))
     \<or> (r = RError EOutOfMemory \<and> st' = st1 \<and> (\<exists>v x. act = Replace_Checked v x \<and> \<not> can_replace key v st1))"
    by (rule perform_ok [OF ok1])
  have "run_update t key h st = Some (r, st')"
    using e p r0 d1 by (simp add: run_update_def store_data_def)
  moreover have "spec_update t key h (visible ?n st) = Some (r, visible ?n st')
      \<or> (r = RError EOutOfMemory \<and> visible ?n st' = visible ?n st)"
    using d' r0 vis by (auto simp: spec_update_def visible_def fun_eq_iff)
  ultimately show ?thesis
    using ok' q' q1 u' u1 by (intro refinesI) auto
qed


subsection \<open>Commands on several keys\<close>

definition shrinks :: "store \<Rightarrow> store \<Rightarrow> bool" where
  "shrinks st st' \<longleftrightarrow> store_ok st' \<and> st_quota st' = st_quota st \<and> st_used st' \<le> st_used st"

lemma shrinks_refl: "store_ok st \<Longrightarrow> shrinks st st"
  by (simp add: shrinks_def)

lemma shrinks_trans: "shrinks st st' \<Longrightarrow> shrinks st' st'' \<Longrightarrow> shrinks st st''"
  by (auto simp: shrinks_def)

lemma refines_shrinks:
  "result = Some (r, st') \<Longrightarrow> shrinks st st' \<Longrightarrow> spec = Some (r, visible now st') \<Longrightarrow> refines now st spec result"
  by (auto simp: refines_def shrinks_def)

lemma expire_key_shrinks:
  assumes "store_ok st"
  obtains st' where "expire_key now key st = Some st'" "shrinks st st'" "visible now st' = visible now st"
    "bm_get (st_values st') = (bm_get (st_values st))(key := opt_filter (\<lambda>e. \<not> entry_expired now e) (bm_get (st_values st) key))"
    "store_data st' key = visible now st key"
  by (rule expire_key_ok [OF assms, of now key])
    (use that visible_expire_key in \<open>auto simp: shrinks_def\<close>)

lemma remove_shrinks:
  assumes ok: "store_ok st"
  obtains st' where "remove key st = Some (bm_get (st_values st) key, st')" "shrinks st st'"
    "bm_get (st_values st') = (bm_get (st_values st))(key := None)" "st_used st = key_size key st + st_used st'"
    "visible now st' = (visible now st)(key := None)"
  by (rule remove_any [OF ok, of key])
    (use that bm_get_remove_ok [OF ok] in \<open>auto simp: shrinks_def visible_def store_data_def fun_eq_iff\<close>)

lemma card_insert_dom:
  "int (card (set (k # ks) \<inter> dom m)) = of_bool (m k \<noteq> None) + int (card (set ks \<inter> dom (m(k := None))))"
proof -
  have "set (k # ks) \<inter> dom m = (if m k = None then {} else {k}) \<union> (set ks \<inter> dom (m(k := None)))"
    by auto
  then show ?thesis by simp
qed

lemma del_keys_refines:
  assumes "store_ok st"
  shows "\<exists>st'. del_keys t keys n st = Some (RInteger (n + int (card (set keys \<inter> dom (visible (t_now t) st)))), st')
    \<and> shrinks st st' \<and> visible (t_now t) st' = visible (t_now t) st |` (- set keys)"
  using assms
proof (induction keys arbitrary: n st)
  case Nil
  then show ?case by (simp add: shrinks_refl restrict_map_def)
next
  case (Cons key keys)
  let ?n = "t_now t"
  obtain st1 where 1: "expire_key ?n key st = Some st1" "shrinks st st1" "visible ?n st1 = visible ?n st"
    "store_data st1 key = visible ?n st key"
    by (rule expire_key_shrinks [OF Cons.prems, of ?n key])
  then have ok1: "store_ok st1" by (simp add: shrinks_def)
  obtain st2 where 2: "remove key st1 = Some (bm_get (st_values st1) key, st2)" "shrinks st1 st2"
    "visible ?n st2 = (visible ?n st1)(key := None)"
    by (rule remove_shrinks [OF ok1, of key ?n])
  have old: "bm_get (st_values st1) key \<noteq> None \<longleftrightarrow> visible ?n st key \<noteq> None"
    by (simp add: 1(4) [symmetric] store_data_def)
  have "store_ok st2" using 2(2) by (simp add: shrinks_def)
  then obtain st' where "del_keys t keys (n + of_bool (visible ?n st key \<noteq> None)) st2 =
      Some (RInteger (n + of_bool (visible ?n st key \<noteq> None) + int (card (set keys \<inter> dom (visible ?n st2)))), st')"
    "shrinks st2 st'" "visible ?n st' = visible ?n st2 |` (- set keys)"
    using Cons.IH [of st2 "n + of_bool (visible ?n st key \<noteq> None)"] by blast
  moreover have "(visible ?n st)(key := None) |` (- set keys) = visible ?n st |` (- set (key # keys))"
    by (auto simp: restrict_map_def fun_eq_iff)
  ultimately show ?case
    using 1 2 old card_insert_dom [of key keys "visible ?n st"]
    by (auto simp: add.assoc intro: shrinks_trans simp del: restrict_upd_same)
qed

lemma exists_keys_refines:
  assumes "store_ok st"
  shows "\<exists>st'. exists_keys t keys n st
      = Some (RInteger (n + int (length (filter (\<lambda>k. visible (t_now t) st k \<noteq> None) keys))), st')
    \<and> shrinks st st' \<and> visible (t_now t) st' = visible (t_now t) st"
  using assms
proof (induction keys arbitrary: n st)
  case Nil
  then show ?case by (simp add: shrinks_refl)
next
  case (Cons key keys)
  let ?n = "t_now t"
  obtain st1 where 1: "expire_key ?n key st = Some st1" "shrinks st st1" "visible ?n st1 = visible ?n st"
    "store_data st1 key = visible ?n st key"
    by (rule expire_key_shrinks [OF Cons.prems, of ?n key])
  then have ok1: "store_ok st1" by (simp add: shrinks_def)
  have old: "bm_get (st_values st1) key \<noteq> None \<longleftrightarrow> visible ?n st key \<noteq> None"
    by (simp add: 1(4) [symmetric] store_data_def)
  with Cons.IH [OF ok1, of "n + of_bool (visible ?n st key \<noteq> None)"] 1 show ?case
    by (auto intro: shrinks_trans)
qed

lemma mget_keys_refines:
  assumes "store_ok st"
  shows "\<exists>st'. mget_keys t keys acc st
      = Some (RArray (rev acc @ map (\<lambda>k. RBulk (string_at (visible (t_now t) st) k)) keys), st')
    \<and> shrinks st st' \<and> visible (t_now t) st' = visible (t_now t) st"
  using assms
proof (induction keys arbitrary: acc st)
  case Nil
  then show ?case by (simp add: shrinks_refl)
next
  case (Cons key keys)
  let ?n = "t_now t"
  obtain st1 where 1: "expire_key ?n key st = Some st1" "shrinks st st1" "visible ?n st1 = visible ?n st"
    "store_data st1 key = visible ?n st key"
    by (rule expire_key_shrinks [OF Cons.prems, of ?n key])
  then have ok1: "store_ok st1" by (simp add: shrinks_def)
  have old: "Option.bind (bm_get (st_values st1) key) (\<lambda>e. as_string (ent_value e)) = string_at (visible ?n st) key"
    by (cases "bm_get (st_values st1) key") (simp_all add: 1(4) [symmetric] store_data_def string_at_def entry_data_def)
  with Cons.IH [OF ok1, of "RBulk (string_at (visible ?n st) key) # acc"] 1 show ?case
    by (auto intro: shrinks_trans)
qed


subsection \<open>MSET\<close>

lemma expire_keys_shrinks:
  assumes "store_ok st"
  shows "\<exists>st'. expire_keys now keys st = Some st' \<and> shrinks st st' \<and> visible now st' = visible now st"
  using assms
proof (induction keys arbitrary: st)
  case Nil
  then show ?case by (simp add: shrinks_refl)
next
  case (Cons key keys)
  obtain st1 where 1: "expire_key now key st = Some st1" "shrinks st st1" "visible now st1 = visible now st"
    by (rule expire_key_shrinks [OF Cons.prems, of now key])
  then have "store_ok st1" by (simp add: shrinks_def)
  from Cons.IH [OF this] 1 show ?case by (auto intro: shrinks_trans)
qed

abbreviation keys_size :: "bytes list \<Rightarrow> store \<Rightarrow> nat" where
  "keys_size keys st \<equiv> sum_list (map (\<lambda>k. key_size k st) keys)"

lemma remove_keys_shrinks:
  assumes "store_ok st" "distinct keys"
  shows "\<exists>st'. remove_keys keys st = Some st' \<and> shrinks st st'
    \<and> bm_get (st_values st') = bm_get (st_values st) |` (- set keys)
    \<and> st_used st = keys_size keys st + st_used st'"
  using assms
proof (induction keys arbitrary: st)
  case Nil
  then show ?case by (simp add: shrinks_refl restrict_map_def)
next
  case (Cons key keys)
  obtain st1 where 1: "remove key st = Some (bm_get (st_values st) key, st1)" "shrinks st st1"
    "bm_get (st_values st1) = (bm_get (st_values st))(key := None)" "st_used st = key_size key st + st_used st1"
    by (rule remove_shrinks [OF Cons.prems(1), of key])
  have same: "keys_size keys st1 = keys_size keys st"
    using Cons.prems(2) by (intro arg_cong [of _ _ sum_list] map_cong) (auto simp: key_size_def 1(3))
  have "store_ok st1" using 1(2) by (simp add: shrinks_def)
  from Cons.IH [OF this] Cons.prems(2) obtain st' where
    2: "remove_keys keys st1 = Some st'" "shrinks st1 st'"
       "bm_get (st_values st') = bm_get (st_values st1) |` (- set keys)" "st_used st1 = keys_size keys st1 + st_used st'"
    by auto
  have "bm_get (st_values st') = bm_get (st_values st) |` (- set (key # keys))"
    unfolding 2(3) 1(3) by (auto simp: restrict_map_def fun_eq_iff)
  with 1 2 same show ?case by (auto intro: shrinks_trans)
qed

lemma mset_base_eq:
  assumes "store_ok st" "keys_size keys st \<le> base" "base \<le> USIZE_MAX"
  shows "mset_base keys st base = Some (base - keys_size keys st)"
  using assms(2,3)
proof (induction keys arbitrary: base)
  case (Cons key keys)
  show ?case
  proof (cases "bm_get (st_values st) key")
    case None
    with Cons show ?thesis by (simp add: key_size_def)
  next
    case (Some e)
    have "entry_bytes key (ent_value e) = Some (key_size key st)"
      using entry_ok_bytes [OF store_okD(4) [OF assms(1) Some]] Some by (simp add: key_size_def)
    with Cons Some show ?thesis by (simp add: wrapping_sub_ok)
  qed
qed simp

abbreviation strings_size :: "(bytes \<times> bytes) list \<Rightarrow> nat" where
  "strings_size es \<equiv> sum_list (map (\<lambda>(k, v). entry_size k (VString v)) es)"

lemma mset_usage_Some: "mset_usage es usage = Some u \<Longrightarrow> u = usage + strings_size es"
proof (induction es arbitrary: usage)
  case (Cons kv es)
  obtain k v where kv: "kv = (k, v)" by (cases kv)
  from Cons.prems obtain n where "entry_bytes k (VString v) = Some n" "mset_usage es (usage + n) = Some u"
    by (auto simp: kv bind_eq_Some_conv checked_simps)
  with Cons.IH [of "usage + n"] entry_bytes_Some [of k "VString v" n] kv show ?case by simp
qed simp

lemma insert_strings_ok:
  assumes "store_ok st" "distinct (map fst es)" "\<forall>k\<in>fst ` set es. bm_get (st_values st) k = None"
    and "st_used st + strings_size es \<le> USIZE_MAX"
  shows "\<exists>st'. insert_strings t es st = Some st' \<and> store_ok st' \<and> st_quota st' = st_quota st
    \<and> st_used st' = st_used st + strings_size es
    \<and> store_data st' = store_data st ++ (\<lambda>k. map_option (\<lambda>v. (VString v, None, None)) (map_of es k))"
  using assms
proof (induction es arbitrary: st)
  case Nil
  then show ?case by (simp add: map_add_def)
next
  case (Cons kv es)
  obtain k v where kv: "kv = (k, v)" by (cases kv)
  have abs: "bm_get (st_values st) k = None" using Cons.prems(3) kv by auto
  have ks: "key_size k st = 0" using abs by (simp add: key_size_def)
  have room: "st_used st - key_size k st + entry_size k (VString v) \<le> USIZE_MAX" using Cons.prems(4) ks kv by simp
  have v: "value_ok (VString v)" "memory_key_ok k (VString v)" "resolve_member_deadlines t k (VString v) st = Inr []"
    by (simp_all add: memory_key_ok_def resolve_member_deadlines_def)
  obtain st1 j where 1: "insert_value t k (VString v) None st = Some st1" "store_ok st1"
    "st_values st1 = bm_insert k \<lparr>ent_value = VString v, ent_expires = map_option fst (None :: (int \<times> int) option),
       ent_unix = map_option snd (None :: (int \<times> int) option),
       ent_generation = st_generation st1, ent_deadlines = []\<rparr> (st_values st)"
    "st_used st1 = st_used st - key_size k st + entry_size k (VString v)"
    "st_generation st1 = st_generation st + of_nat j" "1 \<le> j" "j \<le> 2" "st_quota st1 = st_quota st"
    by (rule insert_value_ok [OF Cons.prems(1) v(1,2) room v(3), where x = None])
  have d1: "store_data st1 = (store_data st)(k \<mapsto> (VString v, None, None))"
    by (auto simp: store_data_def 1(3) fun_eq_iff entry_data_def)
  have dist: "distinct (map fst es)" and new: "k \<notin> fst ` set es" using Cons.prems(2) kv by auto
  have abs1: "\<forall>k'\<in>fst ` set es. bm_get (st_values st1) k' = None"
    using Cons.prems(3) kv new by (auto simp: 1(3))
  have u1: "st_used st1 + strings_size es = st_used st + strings_size (kv # es)" using 1(4) ks kv by simp
  then have "st_used st1 + strings_size es \<le> USIZE_MAX" using Cons.prems(4) by (simp only:)
  from Cons.IH [OF 1(2) dist abs1 this] obtain st' where
    2: "insert_strings t es st1 = Some st'" "store_ok st'" "st_quota st' = st_quota st1"
       "st_used st' = st_used st1 + strings_size es"
       "store_data st' = store_data st1 ++ (\<lambda>k. map_option (\<lambda>v. (VString v, None, None)) (map_of es k))"
    by blast
  have "map_of es k = None" using new by (simp add: map_of_eq_None_iff)
  then have "store_data st' = store_data st ++ (\<lambda>k. map_option (\<lambda>v. (VString v, None, None)) (map_of (kv # es) k))"
    unfolding 2(5) d1 kv by (auto simp: map_add_def fun_eq_iff split: option.split)
  moreover have "insert_strings t (kv # es) st = Some st'" using 1(1) 2(1) by (simp add: kv)
  ultimately show ?case using 2(2-4) 1(8) u1 by (intro exI [of _ st']) simp
qed

lemma mset_refines:
  assumes ok: "store_ok st"
  shows "refines (t_now t) st (Some (ROk, spec_mset pairs (visible (t_now t) st))) (mset t pairs st)"
proof -
  let ?n = "t_now t"
  define es where "es = bm.insert_all pairs []"
  let ?ks = "map fst es"
  have es_fold: "fold (\<lambda>(k, v). bm_insert k v) pairs [] = es" by (simp add: es_def bm.insert_all_def)
  have es_ok: "bm_ok es" unfolding es_def by (rule bm.ok_insert_all) simp
  have dist: "distinct ?ks" using es_ok by (rule bm_ok_distinct)
  have get: "map_of es = map_of (rev pairs)"
    using bm.get_insert_all [of "[]" pairs] by (simp add: es_def)
  obtain st1 where 1: "expire_keys ?n ?ks st = Some st1" "shrinks st st1" "visible ?n st1 = visible ?n st"
    using expire_keys_shrinks [OF ok] by blast
  then have ok1: "store_ok st1" and q1: "st_quota st1 = st_quota st" and u1: "st_used st1 \<le> st_used st"
    by (auto simp: shrinks_def)
  obtain st2 where 2: "remove_keys ?ks st1 = Some st2" "shrinks st1 st2"
    "bm_get (st_values st2) = bm_get (st_values st1) |` (- set ?ks)" "st_used st1 = keys_size ?ks st1 + st_used st2"
    using remove_keys_shrinks [OF ok1 dist] by blast
  have base: "mset_base ?ks st1 (st_used st1) = Some (st_used st2)"
    using mset_base_eq [OF ok1, of ?ks "st_used st1"] 2(4) store_okD(8) [OF ok1] by simp
  show ?thesis
  proof (cases "within_quota st1 (mset_usage es (st_used st2))")
    case False
    with 1 base q1 u1 ok1 show ?thesis
      by (intro refinesI [of _ "RError EOutOfMemory" st1]) (auto simp: mset_def es_fold Let_def)
  next
    case True
    then obtain u where u: "mset_usage es (st_used st2) = Some u" "u \<le> st_quota st1 \<or> u \<le> st_used st1"
      by (auto simp: within_quota_def split: option.splits)
    have us: "u = st_used st2 + strings_size es" by (rule mset_usage_Some [OF u(1)])
    have bound: "u \<le> max (st_quota st) (st_used st)" using u(2) u1 q1 by auto
    have room: "st_used st2 + strings_size es \<le> USIZE_MAX"
      using bound us store_okD(8,10) [OF ok] by (auto simp: USIZE_MAX_def ISIZE_MAX_def)
    have ok2: "store_ok st2" and q2: "st_quota st2 = st_quota st" using 2(2) q1 by (auto simp: shrinks_def)
    obtain st3 where 3: "insert_strings t es st2 = Some st3" "store_ok st3" "st_quota st3 = st_quota st2"
      "st_used st3 = st_used st2 + strings_size es"
      "store_data st3 = store_data st2 ++ (\<lambda>k. map_option (\<lambda>v. (VString v, None, None)) (map_of es k))"
      using insert_strings_ok [OF ok2 dist _ room] 2(3) by auto
    have "visible ?n st3 = spec_mset pairs (visible ?n st)"
    proof
      fix k
      have "k \<in> set ?ks \<longleftrightarrow> map_of es k \<noteq> None" by (simp add: map_of_eq_None_iff)
      then show "visible ?n st3 k = spec_mset pairs (visible ?n st) k"
        unfolding 1(3) [symmetric] spec_mset_def get [symmetric]
        by (auto simp: visible_def 3(5) map_add_def store_data_def 2(3) restrict_map_def live_def split: option.split)
    qed
    with 1 2 3 base True us bound q2 show ?thesis
      by (intro refinesI [of _ ROk st3]) (auto simp: mset_def es_fold Let_def)
  qed
qed

subsection \<open>Every command\<close>

text \<open>A sorted set whose scores have a text.\<close>

definition printable :: "data option \<Rightarrow> bool" where
  "printable current \<longleftrightarrow>
     (case current of
        Some (VSortedSet z, _) \<Rightarrow>
          (\<forall>sm\<in>set (zs_ordered z). score_to_bytes (fst sm) \<noteq> None)
      | _ \<Rightarrow> True)"

definition command_printable :: "command \<Rightarrow> keyspace \<Rightarrow> bool" where
  "command_printable c m \<longleftrightarrow> (case c of CSortedSet key _ \<Rightarrow> printable (m key) | _ \<Rightarrow> True)"

lemma range_replies_total:
  "\<forall>sm\<in>set xs. score_to_bytes (fst sm) \<noteq> None \<Longrightarrow> range_replies w xs \<noteq> None"
  by (induction w xs rule: range_replies.induct) (auto simp: bind_eq_None_conv)

lemma set_slice: "set (slice n a b xs) \<subseteq> set xs"
  by (auto simp: slice_def split: option.split dest: in_set_takeD in_set_dropD)

lemma sorted_set_collection_total:
  assumes "printable current" "data_ok current"
  shows "sorted_set_collection oper current \<noteq> None"
proof -
  have "sorted_set_operation oper z x \<noteq> None"
    if ok: "zs_ok z" and p: "\<forall>sm\<in>set (zs_ordered z). score_to_bytes (fst sm) \<noteq> None" for z x
  proof (cases oper)
    case (ZRange a b w)
    then show ?thesis
      using range_replies_total [of "slice (length (zs_members z)) a b (zs_ordered z)" w] p set_slice
      by (fastforce simp: sorted_set_operation_def)
  next
    case (ZScore m)
    have "score_to_bytes s \<noteq> None" if "bm_get (zs_members z) m = Some s" for s
      using p ok that by (force simp: zs_ok_def)
    with ZScore show ?thesis by (auto simp: sorted_set_operation_def split: option.split)
  qed (auto simp: sorted_set_operation_def split: prod.split)
  then show ?thesis
    using assms by (auto simp: sorted_set_collection_def printable_def data_ok_def zs_empty_def zs_ok_empty [unfolded zs_empty_def]
        split: option.splits value_splits)
qed


lemma handlers_total:
  "get_handler d \<noteq> None" "increment delta d \<noteq> None" "set_handler v options resolved d \<noteq> None"
  "expire_handler millis x d \<noteq> None" "ttl_handler t ms d \<noteq> None" "persist_handler d \<noteq> None"
  "set_collection s d \<noteq> None" "list_collection l d \<noteq> None" "hash_collection h d \<noteq> None"
  by (auto simp: get_handler_def increment_def set_handler_def expire_handler_def ttl_handler_def persist_handler_def
      set_collection_def list_collection_def hash_collection_def Let_def split: option.split sum.split value_split)

lemma visible_data_ok: "store_ok st \<Longrightarrow> data_ok (visible now st k)"
  using store_data_ok [of st k] by (cases "store_data st k") (auto simp: visible_def data_ok_def)

lemmas run_refines = run_update_refines [OF _ handlers_ok(1) handlers_total(7)]
  run_update_refines [OF _ handlers_ok(2) handlers_total(8)] run_update_refines [OF _ handlers_ok(3) handlers_total(9)]
  run_update_refines [OF _ handlers_ok(5) handlers_total(1)] run_update_refines [OF _ handlers_ok(6) handlers_total(2)]
  run_update_refines [OF _ handlers_ok(7) handlers_total(3)] run_update_refines [OF _ handlers_ok(8) handlers_total(5)]
  run_update_refines [OF _ handlers_ok(9) handlers_total(6)] run_update_refines [OF _ handlers_ok(10) handlers_total(4)]

lemma refines_same: "store_ok st \<Longrightarrow> refines now st (Some (r, visible now st)) (Some (r, st))"
  by (auto simp: refines_def)

lemma set_string_refines:
  "store_ok st \<Longrightarrow> refines (t_now t) st (spec_set t key v options (visible (t_now t) st)) (set_string t key v options st)"
  by (auto simp: spec_set_def set_string_def run_refines refines_same split: option.split)

lemma expire_command_refines:
  "store_ok st \<Longrightarrow>
     refines (t_now t) st (spec_expire t key v unit (visible (t_now t) st)) (expire_command t key v unit st)"
  by (auto simp: spec_expire_def expire_command_def i64_checked_def run_refines refines_same Let_def split: option.split)

lemma execute_inner_refines:
  assumes ok: "store_ok st" and p: "command_printable c (visible (t_now t) st)"
  shows "refines (t_now t) st (spec_execute t c (visible (t_now t) st)) (execute_inner t c st)"
proof (cases c)
  case (CSortedSet key oper)
  then have "sorted_set_collection oper (visible (t_now t) st key) \<noteq> None"
    using p sorted_set_collection_total [OF _ visible_data_ok [OF ok]] by (simp add: command_printable_def)
  with run_update_refines [OF ok handlers_ok(4)] CSortedSet show ?thesis by simp
next
  case (CPing m)
  then show ?thesis by (cases m) (simp_all add: refines_same [OF ok])
next
  case (CDel keys)
  with del_keys_refines [OF ok, of t keys 0] show ?thesis by (auto intro!: refines_shrinks)
next
  case (CExists keys)
  with exists_keys_refines [OF ok, of t keys 0] show ?thesis by (auto intro!: refines_shrinks)
next
  case (CMGet keys)
  with mget_keys_refines [OF ok, of t keys "[]"] show ?thesis by (auto intro!: refines_shrinks)
qed (simp_all add: refines_same [OF ok] run_refines [OF ok] set_string_refines [OF ok] expire_command_refines [OF ok]
    mset_refines [OF ok])


text \<open>A store with one string that expires and one that does not.\<close>

definition sample_entry :: "bytes \<Rightarrow> int option \<Rightarrow> u64 \<Rightarrow> entry" where
  "sample_entry v d g = \<lparr>ent_value = VString v, ent_expires = d, ent_unix = d, ent_generation = g, ent_deadlines = []\<rparr>"

definition sample_store :: store where
  "sample_store = \<lparr>st_values = [(''a'', sample_entry ''41'' None 1), (''b'', sample_entry ''x'' (Some 7) 2)],
     st_expirations = [(7, 2, ''b'')], st_members = [], st_generation = 2, st_quota = 1000, st_used = 261,
     st_watches = registry_default 0\<rparr>"

lemma sample_store_ok: "store_ok sample_store"
proof -
  have "''a'' < ''b''" by (simp add: list_less_def lexordp_simps less_char_def)
  moreover have "entry_ok k e" if "bm_get (st_values sample_store) k = Some e" for k e
    using that by (auto simp: sample_store_def sample_entry_def entry_ok_def memory_key_ok_def deadline_ids_def
        entry_bytes_def checked_add_def ENTRY_OVERHEAD_BYTES_def USIZE_MAX_def split: if_splits)
  ultimately show ?thesis
    unfolding store_ok_def
    by (auto simp: sample_store_def sample_entry_def key_index_def member_index_def total_size_def entry_size_def
        ENTRY_OVERHEAD_BYTES_def USIZE_MAX_def ISIZE_MAX_def split: if_splits)
qed

section \<open>Active expiry\<close>

definition expired_keys :: "int \<Rightarrow> store \<Rightarrow> bytes set" where
  "expired_keys now st = {k. \<exists>e. bm_get (st_values st) k = Some e \<and> entry_expired now e}"

lemma finite_expired_keys: "finite (expired_keys now st)"
  by (rule finite_subset [of _ "dom (bm_get (st_values st))"]) (auto simp: expired_keys_def finite_dom_map_of)

lemma no_expired_keys:
  assumes ok: "store_ok st" and h: "case st_expirations st of [] \<Rightarrow> True | (d, g, k) # _ \<Rightarrow> now < d"
  shows "expired_keys now st = {}"
proof -
  have "now < d" if "(d, g, k) \<in> set (st_expirations st)" for d g k
    using that h store_okD(2) [OF ok] by (cases "st_expirations st") (auto simp: less_prod_def)
  then have "\<not> entry_expired now e" if "bm_get (st_values st) k = Some e" for k e
    using that store_okD(5) [OF ok] by (fastforce simp: key_index_def entry_expired_def split: option.splits)
  then show ?thesis by (auto simp: expired_keys_def)
qed

lemma due_entry:
  assumes ok: "store_ok st" and h: "st_expirations st = (d, g, key) # later"
  obtains e where "bm_get (st_values st) key = Some e" "ent_generation e = g" "ent_expires e = Some d"
    "remove key (st\<lparr>st_expirations := later\<rparr>) = remove key st"
proof -
  have "(d, g, key) \<in> key_index (bm_get (st_values st))" using store_okD(5) [OF ok] h by (metis list.set_intros(1))
  then obtain e where e: "bm_get (st_values st) key = Some e" "ent_generation e = g" "ent_expires e = Some d"
    by (auto simp: key_index_def)
  moreover have "bs_remove (d, g, key) later = later" "bs_remove (d, g, key) (st_expirations st) = later"
    using store_okD(2) [OF ok] h by (auto simp: bs_remove_absent)
  ultimately have "remove key (st\<lparr>st_expirations := later\<rparr>) = remove key st"
    by (auto simp: remove_def drop_expiration_def drop_member_expirations_def Let_def)
  with e that show ?thesis by blast
qed

lemma expire_due_step:
  assumes ok: "store_ok st" and h: "st_expirations st = (d, g, key) # later" and d: "d \<le> now"
  obtains st' where "expire_due (Suc budget) now n st = expire_due budget now (n + 1) st'" "shrinks st st'"
    "visible now st' = visible now st" "expired_keys now st' = expired_keys now st - {key}" "key \<in> expired_keys now st"
proof -
  obtain e where e: "bm_get (st_values st) key = Some e" "ent_generation e = g" "ent_expires e = Some d"
    "remove key (st\<lparr>st_expirations := later\<rparr>) = remove key st"
    by (rule due_entry [OF ok h])
  have ex: "entry_expired now e" using e(3) d by (simp add: entry_expired_def)
  obtain st' where r: "remove key st = Some (bm_get (st_values st) key, st')" "shrinks st st'"
    "bm_get (st_values st') = (bm_get (st_values st))(key := None)" "visible now st' = (visible now st)(key := None)"
    by (rule remove_shrinks [OF ok, of key now])
  have none: "visible now st key = None"
    using e(1) ex entry_expired_live [of now e] by (simp add: visible_def store_data_def)
  show ?thesis
  proof (rule that [of st'])
    show "expire_due (Suc budget) now n st = expire_due budget now (n + 1) st'"
      using e r(1) h d by (simp add: Let_def)
    show "expired_keys now st' = expired_keys now st - {key}" by (auto simp: expired_keys_def r(3))
    show "visible now st' = visible now st" using r(4) none by (simp add: fun_upd_idem)
  qed (use r(2) e(1) ex in \<open>auto simp: expired_keys_def\<close>)
qed

lemma expire_due_counts:
  assumes "store_ok st"
  shows "\<exists>st'. expire_due budget now n st = Some (n + min budget (card (expired_keys now st)), st')
    \<and> shrinks st st' \<and> visible now st' = visible now st
    \<and> card (expired_keys now st') = card (expired_keys now st) - budget"
  using assms
proof (induction budget arbitrary: n st)
  case 0
  then show ?case by (simp add: shrinks_refl)
next
  case (Suc budget)
  show ?case
  proof (cases "case st_expirations st of [] \<Rightarrow> True | (d, g, k) # _ \<Rightarrow> now < d")
    case True
    then have "expire_due (Suc budget) now n st = Some (n, st)" by (auto split: list.splits)
    with no_expired_keys [OF Suc.prems True] Suc.prems show ?thesis by (simp add: shrinks_refl)
  next
    case False
    then obtain d g key later where h: "st_expirations st = (d, g, key) # later" "d \<le> now"
      by (auto split: list.splits)
    obtain st1 where 1: "expire_due (Suc budget) now n st = expire_due budget now (n + 1) st1" "shrinks st st1"
      "visible now st1 = visible now st" "expired_keys now st1 = expired_keys now st - {key}" "key \<in> expired_keys now st"
      by (rule expire_due_step [OF Suc.prems h])
    have c: "card (expired_keys now st) = Suc (card (expired_keys now st1))"
      using 1(4,5) finite_expired_keys [of now st] by (metis card.remove)
    have "store_ok st1" using 1(2) by (simp add: shrinks_def)
    from Suc.IH [OF this, of "n + 1"] 1(1-3) c show ?thesis by (auto intro: shrinks_trans)
  qed
qed

text \<open>
  C15. Active expiry is exact and makes progress: a call with a budget removes as many
  entries as have passed their deadline, up to the budget; it never changes what is
  visible, keeps the invariant, and a budget that covers the expired entries leaves none.
\<close>

theorem expire_due_exact:
  assumes "store_ok st"
  shows "\<exists>st'. expire_due budget now 0 st = Some (min budget (card (expired_keys now st)), st')
    \<and> store_ok st' \<and> st_used st' \<le> st_used st \<and> visible now st' = visible now st
    \<and> (card (expired_keys now st) \<le> budget \<longrightarrow> expired_keys now st' = {})"
proof -
  obtain st' where "expire_due budget now 0 st = Some (min budget (card (expired_keys now st)), st')"
    "shrinks st st'" "visible now st' = visible now st"
    "card (expired_keys now st') = card (expired_keys now st) - budget"
    using expire_due_counts [OF assms, of budget now 0] by auto
  then show ?thesis using finite_expired_keys [of now st'] by (auto simp: shrinks_def)
qed

theorem expire_due_exact_witness:
  "\<exists>st'. expire_due 3 9 0 sample_store = Some (1, st') \<and> store_ok st' \<and> expired_keys 9 st' = {}"
proof -
  have "expired_keys 9 sample_store = {''b''}"
    by (auto simp: expired_keys_def sample_store_def sample_entry_def entry_expired_def split: if_splits)
  with expire_due_exact [OF sample_store_ok, of 3 9] show ?thesis by auto
qed

end
