(* ===== verification/Store_Watch.thy ===== *)
theory Store_Watch
  imports Store
begin

text \<open>
  Optimistic locking: the store and its registry of observations together. Every
  operation that writes a key reports it to the registry, so a token that is still
  valid proves that its key was not written since.
\<close>

section \<open>Every write is reported\<close>

definition reports :: "store \<Rightarrow> store \<Rightarrow> bool" where
  "reports st st' \<longleftrightarrow>
     (\<exists>ks. st_watches st' = fold registry_invalidate ks (st_watches st)
        \<and> (\<forall>k. bm_get (st_values st') k \<noteq> bm_get (st_values st) k \<longrightarrow> k \<in> set ks))"

lemma reports_refl: "reports st st"
  unfolding reports_def by (rule exI [of _ "[]"]) simp

lemma reports_trans [trans]:
  assumes "reports st st'" "reports st' st''"
  shows "reports st st''"
proof -
  obtain ks where ks: "st_watches st' = fold registry_invalidate ks (st_watches st)"
    "\<And>k. bm_get (st_values st') k \<noteq> bm_get (st_values st) k \<Longrightarrow> k \<in> set ks"
    using assms(1) by (auto simp: reports_def)
  obtain ls where ls: "st_watches st'' = fold registry_invalidate ls (st_watches st')"
    "\<And>k. bm_get (st_values st'') k \<noteq> bm_get (st_values st') k \<Longrightarrow> k \<in> set ls"
    using assms(2) by (auto simp: reports_def)
  have "k \<in> set (ks @ ls)" if "bm_get (st_values st'') k \<noteq> bm_get (st_values st) k" for k
    using that ks(2) [of k] ls(2) [of k] by (cases "bm_get (st_values st') k = bm_get (st_values st) k") auto
  then show ?thesis
    unfolding reports_def using ks(1) ls(1) by (intro exI [of _ "ks @ ls"]) simp
qed

lemma bm_get_remove_other: "k \<noteq> key \<Longrightarrow> bm_get (bm_remove key m) k = bm_get m k"
  by (induction key m rule: bm_remove.induct) auto

lemma remove_reports:
  assumes "remove key st = Some (old, st')"
  shows "reports st st'"
proof (cases "bm_get (st_values st) key")
  case None
  with assms show ?thesis by (simp add: remove_def reports_refl)
next
  case (Some e)
  with assms have "st_watches st' = fold registry_invalidate [key] (st_watches st)"
    "st_values st' = bm_remove key (st_values st)"
    by (auto simp: remove_def bind_eq_Some_conv drop_member_expirations_def drop_expiration_def Let_def split: option.splits)
  then show ?thesis unfolding reports_def using bm_get_remove_other by (intro exI [of _ "[key]"]) force
qed

lemma install_entry_reports:
  assumes "install_entry key e st = Some st'"
  shows "reports st st'"
proof -
  define st0 where "st0 = st\<lparr>st_watches := registry_invalidate key (st_watches st)\<rparr>"
  obtain old st1 g e' where r: "remove key st0 = Some (old, st1)"
    and w: "st_watches st' = st_watches st1" and v: "st_values st' = bm_insert key e' (st_values st1)"
    using assms
    by (auto simp: install_entry_def bind_eq_Some_conv st0_def [symmetric] add_expirations_def Let_def)
  obtain ks where ks: "st_watches st1 = fold registry_invalidate ks (st_watches st0)"
    "\<And>k. bm_get (st_values st1) k \<noteq> bm_get (st_values st0) k \<Longrightarrow> k \<in> set ks"
    using remove_reports [OF r] by (auto simp: reports_def)
  have "k \<in> set (key # ks)" if "bm_get (st_values st') k \<noteq> bm_get (st_values st) k" for k
    using that ks(2) [of k] by (auto simp: v st0_def split: if_splits)
  then show ?thesis
    unfolding reports_def using ks(1) w by (intro exI [of _ "key # ks"]) (simp add: st0_def)
qed

lemma insert_value_reports: "insert_value t key v x st = Some st' \<Longrightarrow> reports st st'"
  by (auto simp: insert_value_def split: sum.splits intro: install_entry_reports)

lemma expire_key_reports: "expire_key now key st = Some st' \<Longrightarrow> reports st st'"
  by (auto simp: expire_key_def reports_refl split: option.splits if_splits intro: remove_reports)

lemma perform_reports: "perform t key r0 act st = Some (r, st') \<Longrightarrow> reports st st'"
  by (auto simp: perform_def reports_refl split: action.splits if_splits intro: remove_reports insert_value_reports)

lemma run_update_reports: "run_update t key h st = Some (r, st') \<Longrightarrow> reports st st'"
  by (auto simp: run_update_def bind_eq_Some_conv
      intro: reports_trans [OF expire_key_reports perform_reports])

lemma del_keys_reports: "del_keys t keys n st = Some (r, st') \<Longrightarrow> reports st st'"
  by (induction t keys n st rule: del_keys.induct)
    (auto simp: bind_eq_Some_conv reports_refl
      intro: reports_trans [OF expire_key_reports reports_trans [OF remove_reports]])

lemma exists_keys_reports: "exists_keys t keys n st = Some (r, st') \<Longrightarrow> reports st st'"
  by (induction t keys n st rule: exists_keys.induct)
    (auto simp: bind_eq_Some_conv reports_refl intro: reports_trans [OF expire_key_reports])

lemma mget_keys_reports: "mget_keys t keys acc st = Some (r, st') \<Longrightarrow> reports st st'"
  by (induction t keys acc st rule: mget_keys.induct)
    (auto simp: bind_eq_Some_conv reports_refl intro: reports_trans [OF expire_key_reports])

lemma expire_keys_reports: "expire_keys now keys st = Some st' \<Longrightarrow> reports st st'"
  by (induction now keys st rule: expire_keys.induct)
    (auto simp: bind_eq_Some_conv reports_refl intro: reports_trans [OF expire_key_reports])

lemma remove_keys_reports: "remove_keys keys st = Some st' \<Longrightarrow> reports st st'"
  by (induction keys st rule: remove_keys.induct)
    (auto simp: bind_eq_Some_conv reports_refl intro: reports_trans [OF remove_reports])

lemma insert_strings_reports: "insert_strings t es st = Some st' \<Longrightarrow> reports st st'"
  by (induction t es st rule: insert_strings.induct)
    (auto simp: bind_eq_Some_conv reports_refl intro: reports_trans [OF insert_value_reports])

lemma mset_reports: "mset t pairs st = Some (r, st') \<Longrightarrow> reports st st'"
  by (auto simp: mset_def bind_eq_Some_conv Let_def split: if_splits
      intro: expire_keys_reports
        reports_trans [OF expire_keys_reports reports_trans [OF remove_keys_reports insert_strings_reports]])

lemma execute_inner_reports: "execute_inner t c st = Some (r, st') \<Longrightarrow> reports st st'"
  by (induction t c st rule: execute_inner.induct)
    (auto simp: reports_refl set_string_def expire_command_def Let_def split: option.splits if_splits
      intro: run_update_reports del_keys_reports exists_keys_reports mget_keys_reports mset_reports)

section \<open>Valid observations\<close>

fun execute_all :: "(sample \<times> command) list \<Rightarrow> store \<Rightarrow> store option" where
  "execute_all [] st = Some st"
| "execute_all ((t, c) # cs) st = do { (_, st) \<leftarrow> execute_inner t c st; execute_all cs st }"

lemma execute_all_reports: "execute_all cs st = Some st' \<Longrightarrow> reports st st'"
  by (induction cs st rule: execute_all.induct)
    (auto simp: bind_eq_Some_conv reports_refl intro: reports_trans [OF execute_inner_reports])

lemma watch_run_invalidate:
  "\<exists>s'. watch_run s (map Invalidate ks) s' \<and> ws_registry s' = fold registry_invalidate ks (ws_registry s)"
proof (induction ks arbitrary: s)
  case Nil
  then show ?case using run_nil by fastforce
next
  case (Cons k ks)
  let ?s = "s\<lparr>ws_registry := registry_invalidate k (ws_registry s)\<rparr>"
  obtain s' where "watch_run ?s (map Invalidate ks) s'" "ws_registry s' = fold registry_invalidate ks (ws_registry ?s)"
    using Cons.IH by blast
  then show ?case using watch_run_Cons [OF invalidate] by (intro exI [of _ s']) simp
qed

text \<open>The tokens of \<open>watch_keys\<close> are held under the numbers from \<open>n\<close> on.\<close>

lemma watch_keys_run:
  assumes "watch_keys now keys st = (toks, st1)" "ws_registry s = st_watches st"
    "\<And>m. n \<le> m \<Longrightarrow> ws_held s m = None \<and> ws_dropping s m = None"
  shows "\<exists>es s1. watch_run s es s1 \<and> ws_registry s1 = st_watches st1 \<and> st_values st1 = st_values st
    \<and> map token_key toks = keys \<and> (\<forall>i<length toks. ws_held s1 (n + i) = Some (toks ! i))
    \<and> (\<forall>m<n. ws_held s1 m = ws_held s m)"
  using assms
proof (induction keys arbitrary: toks st s n)
  case Nil
  then show ?case using run_nil by fastforce
next
  case (Cons key keys)
  let ?d = "Option.bind (bm_get (st_values st) key) (watch_deadline now)"
  obtain tok reg where t: "registry_token key ?d (st_watches st) = (tok, reg)" by fastforce
  obtain toks' where w: "watch_keys now keys (st\<lparr>st_watches := reg\<rparr>) = (toks', st1)" and toks: "toks = tok # toks'"
    using Cons.prems(1) t by (auto simp: Let_def split: prod.splits)
  let ?s = "s\<lparr>ws_registry := reg, ws_held := (ws_held s)(n \<mapsto> tok)\<rparr>"
  have step: "watch_step s (Acquire n key ?d) ?s"
    by (rule acquire) (use Cons.prems(2,3) t in auto)
  obtain es s1 where r: "watch_run ?s es s1" "ws_registry s1 = st_watches st1" "st_values st1 = st_values st"
    "map token_key toks' = keys" "\<forall>i<length toks'. ws_held s1 (Suc n + i) = Some (toks' ! i)"
    "\<forall>m<Suc n. ws_held s1 m = ws_held ?s m"
    using Cons.IH [OF w, of ?s "Suc n"] Cons.prems(3) by auto
  have "token_key tok = key" using registry_token_cases(1) [OF t] by simp
  moreover have "ws_held s1 (n + i) = Some (toks ! i)" if "i < length toks" for i
    using that r(5,6) toks by (cases i) auto
  ultimately show ?case
    using watch_run_Cons [OF step r(1)] r(2,3,4,6) toks by (intro exI [of _ "Acquire n key ?d # es"] exI [of _ s1]) simp
qed

text \<open>A token that is not marked proves that its key was not written.\<close>

lemma unmarked_unchanged:
  assumes "watch_run (watch_init rid) es s" "ws_registry s = st_watches st"
    "\<And>m. n \<le> m \<Longrightarrow> ws_held s m = None \<and> ws_dropping s m = None"
    and w: "watch_keys now keys st = (toks, st1)" and rep: "reports st1 st2"
    and i: "tok \<in> set toks" "\<not> token_invalidated (st_watches st2) tok"
  shows "bm_get (st_values st2) (token_key tok) = bm_get (st_values st) (token_key tok)"
proof -
  obtain es1 s1 where 1: "watch_run s es1 s1" "ws_registry s1 = st_watches st1" "st_values st1 = st_values st"
    "map token_key toks = keys" "\<forall>i<length toks. ws_held s1 (n + i) = Some (toks ! i)"
    using watch_keys_run [OF w assms(2,3)] by blast
  obtain j where j: "j < length toks" "toks ! j = tok" using i(1) by (auto simp: in_set_conv_nth)
  obtain ks where ks: "st_watches st2 = fold registry_invalidate ks (st_watches st1)"
    "\<And>k. bm_get (st_values st2) k \<noteq> bm_get (st_values st1) k \<Longrightarrow> k \<in> set ks"
    using rep by (auto simp: reports_def)
  obtain s2 where 2: "watch_run s1 (map Invalidate ks) s2" "ws_registry s2 = st_watches st2"
    using watch_run_invalidate [of s1 ks] ks(1) 1(2) by auto
  have "watch_inv s1" using watch_run_inv [OF 1(1)] watch_run_inv [OF assms(1) watch_inv_init] by blast
  then have "Invalidate (token_key tok) \<notin> set (map Invalidate ks)"
    using watch_run_flag [OF 2(1), of "n + j" tok] 1(5) j i(2) 2(2) by auto
  then have "token_key tok \<notin> set ks" by auto
  with ks(2) [of "token_key tok"] 1(3) show ?thesis by auto
qed

lemma watch_keys_tokens:
  "watch_keys now keys st = (toks, st1) \<Longrightarrow> map token_key toks = keys"
proof (induction keys arbitrary: toks st)
  case (Cons key keys)
  let ?d = "Option.bind (bm_get (st_values st) key) (watch_deadline now)"
  obtain tok reg where t: "registry_token key ?d (st_watches st) = (tok, reg)" by fastforce
  obtain toks' where "watch_keys now keys (st\<lparr>st_watches := reg\<rparr>) = (toks', st1)" "toks = tok # toks'"
    using Cons.prems t by (auto simp: Let_def split: prod.splits)
  with Cons.IH registry_token_cases(1) [OF t] show ?case by simp
qed simp


definition observed_store :: store where
  "observed_store = \<lparr>st_values = [], st_expirations = [], st_members = [], st_generation = 0, st_quota = 1000,
     st_used = 0, st_watches = registry_default 0\<rparr>"


end
