(* ===== verification/Mutation.thy ===== *)
theory Mutation
  imports Store_Correct
begin

text \<open>
  Preparation and application (\<open>src/src/storage/mutation.rs\<close>). A command first runs on
  a shadow store that holds copies of the entries it names; the keys whose generation
  changed, with their new entries, form a prepared batch, which is applied to the
  store later. \<open>replay\<close> installs a batch of resolved mutations.
\<close>

section \<open>Batches\<close>

datatype mutation = Put bytes "value" "int option" | Delete bytes

fun mutation_key :: "mutation \<Rightarrow> bytes" where
  "mutation_key (Put key _ _) = key"
| "mutation_key (Delete key) = key"

datatype mutation_origin = Client | Expiration

record resolved_batch =
  batch_origin :: mutation_origin
  batch_mutations :: "mutation list"

record prepared =
  pr_reply :: reply
  pr_batch :: resolved_batch
  pr_generation :: u64
  pr_entries :: "(bytes \<times> entry option) list"

datatype replay_error = ReMemory memory_error | ReDuplicateKey | ReQuota | ReDeadline

definition charge :: "bytes \<Rightarrow> entry option \<Rightarrow> replay_error + nat" where
  "charge key e = (case e of None \<Rightarrow> Inr 0 | Some e \<Rightarrow> ok_or (entry_bytes key (ent_value e)) ReQuota)"

definition usage_deltas :: "prepared \<Rightarrow> store \<Rightarrow> replay_error + (bytes \<times> nat \<times> nat) list" where
  "usage_deltas p st =
     res_mapM (\<lambda>(key, after).
       res_bind (charge key (bm_get (st_values st) key)) (\<lambda>b.
         res_bind (charge key after) (\<lambda>a. Inr (key, b, a)))) (pr_entries p)"

fun entry_mutation :: "bytes \<times> entry option \<Rightarrow> mutation" where
  "entry_mutation (key, Some e) = Put key (ent_value e) (ent_unix e)"
| "entry_mutation (key, None) = Delete key"

definition prepared_of :: "reply \<Rightarrow> (bytes \<times> entry option) list \<Rightarrow> mutation_origin \<Rightarrow> store \<Rightarrow> prepared" where
  "prepared_of r entries origin st =
     \<lparr>pr_reply = r, pr_batch = \<lparr>batch_origin = origin, batch_mutations = map entry_mutation entries\<rparr>,
      pr_generation = st_generation st, pr_entries = entries\<rparr>"

section \<open>Preparation\<close>

fun command_origin :: "command \<Rightarrow> mutation_origin" where
  "command_origin (CGet _) = Expiration"
| "command_origin (CMGet _) = Expiration"
| "command_origin (CExists _) = Expiration"
| "command_origin (CTtl _ _) = Expiration"
| "command_origin (CHash _ oper) =
     (case oper of HGet _ \<Rightarrow> Expiration | HExists _ \<Rightarrow> Expiration | HLen \<Rightarrow> Expiration | HGetAll \<Rightarrow> Expiration | _ \<Rightarrow> Client)"
| "command_origin (CList _ oper) = (case oper of LLen \<Rightarrow> Expiration | LRange _ _ \<Rightarrow> Expiration | _ \<Rightarrow> Client)"
| "command_origin (CSetCollection _ oper) =
     (case oper of SIsMember _ \<Rightarrow> Expiration | SCard \<Rightarrow> Expiration | SMembers \<Rightarrow> Expiration | _ \<Rightarrow> Client)"
| "command_origin (CSortedSet _ oper) =
     (case oper of ZScore _ \<Rightarrow> Expiration | ZCard \<Rightarrow> Expiration | ZRange _ _ _ \<Rightarrow> Expiration | _ \<Rightarrow> Client)"
| "command_origin _ = Client"

text \<open>An empty store with the configuration, usage and generation of another; its
  registry is a new one.\<close>

definition shadow_base :: "store \<Rightarrow> store option" where
  "shadow_base st =
     (case store_with_config (st_quota st) (reg_id (st_watches st) + 1) of
        Inl _ \<Rightarrow> None
      | Inr shadow \<Rightarrow> Some (shadow\<lparr>st_used := st_used st, st_generation := st_generation st\<rparr>))"

definition copy_entry :: "bytes \<Rightarrow> entry \<Rightarrow> store \<Rightarrow> store" where
  "copy_entry key e shadow =
     shadow\<lparr>st_values := bm_insert key e (st_values shadow),
       st_expirations := (case ent_expires e of
            None \<Rightarrow> st_expirations shadow
          | Some d \<Rightarrow> bs_insert (d, ent_generation e, key) (st_expirations shadow))\<rparr>"

fun copy_keys :: "store \<Rightarrow> bytes list \<Rightarrow> store \<Rightarrow> store" where
  "copy_keys st [] shadow = shadow"
| "copy_keys st (key # keys) shadow =
     copy_keys st keys (case bm_get (st_values st) key of None \<Rightarrow> shadow | Some e \<Rightarrow> copy_entry key e shadow)"

fun changed_entries :: "store \<Rightarrow> store \<Rightarrow> bytes list \<Rightarrow> (bytes \<times> entry option) list" where
  "changed_entries st shadow [] = []"
| "changed_entries st shadow (key # keys) =
     (let before = bm_get (st_values st) key; after = bm_get (st_values shadow) key
      in (if map_option ent_generation before \<noteq> map_option ent_generation after then [(key, after)] else [])
           @ changed_entries st shadow keys)"

fun is_memory_command :: "command \<Rightarrow> bool" where
  "is_memory_command (CMemory _ _) = True"
| "is_memory_command _ = False"

definition prepare :: "sample \<Rightarrow> command \<Rightarrow> store \<Rightarrow> prepared option" where
  "prepare t c st =
     (if is_memory_command c then Some (prepared_of (RError (EMemory native_only)) [] Client st)
      else do {
        let keys = bs_of_list (visit_keys c);
        shadow \<leftarrow> shadow_base st;
        (r, shadow) \<leftarrow> execute_inner t c (copy_keys st keys shadow);
        Some (prepared_of r (changed_entries st shadow keys) (command_origin c) st)
      })"

subsection \<open>Expiry\<close>

definition due_keys :: "int \<Rightarrow> nat \<Rightarrow> store \<Rightarrow> bytes list" where
  "due_keys now budget st =
     map (\<lambda>(_, _, key). key)
       (filter (\<lambda>(d, g, key). case bm_get (st_values st) key of
            None \<Rightarrow> False | Some e \<Rightarrow> ent_generation e = g \<and> ent_expires e = Some d)
         (takeWhile (\<lambda>(d, _, _). d \<le> now) (take budget (st_expirations st))))"

fun due_members ::
  "nat \<Rightarrow> store \<Rightarrow> bytes list \<Rightarrow> (int \<times> bytes \<times> bytes) list \<Rightarrow> nat \<Rightarrow> (bytes, edit list) btree_map
     \<Rightarrow> nat \<times> (bytes, edit list) btree_map" where
  "due_members budget st expired [] events removals = (events, removals)"
| "due_members budget st expired ((d, key, ident) # rest) events removals =
     (if events \<ge> budget then (events, removals)
      else if key \<in> set expired then due_members budget st expired rest events removals
      else if (case bm_get (st_values st) key of None \<Rightarrow> False | Some e \<Rightarrow> bm_get (ent_deadlines e) ident = Some d)
      then due_members budget st expired rest (events + 1)
             (bm_insert key ((case bm_get removals key of None \<Rightarrow> [] | Some es \<Rightarrow> es) @ [Remove ident]) removals)
      else due_members budget st expired rest events removals)"

definition without_members :: "store \<Rightarrow> bytes \<Rightarrow> edit list \<Rightarrow> entry option" where
  "without_members st key edits = do {
     old \<leftarrow> bm_get (st_values st) key;
     c \<leftarrow> (case ent_value old of VMemory c \<Rightarrow> Some c | _ \<Rightarrow> None);
     candidate \<leftarrow> (case apply_edits c (coll_descriptor c) edits key of Inl _ \<Rightarrow> None | Inr c' \<Rightarrow> Some c');
     Some (old\<lparr>ent_value := VMemory candidate,
              ent_deadlines := fold (\<lambda>e. bm_remove (edit_id e)) edits (ent_deadlines old)\<rparr>)
   }"

fun expired_member_entries :: "store \<Rightarrow> (bytes \<times> edit list) list \<Rightarrow> (bytes \<times> entry option) list option" where
  "expired_member_entries st [] = Some []"
| "expired_member_entries st ((key, edits) # rest) = do {
     e \<leftarrow> without_members st key (sort_key edit_id edits);
     es \<leftarrow> expired_member_entries st rest;
     Some ((key, Some e) # es)
   }"

definition prepare_expiration :: "sample \<Rightarrow> nat \<Rightarrow> store \<Rightarrow> prepared option" where
  "prepare_expiration t budget st = do {
     let budget = min budget MAX_EDITS;
     let expired = due_keys (t_now t) budget st;
     let (events, removals) =
       due_members budget st expired (takeWhile (\<lambda>(d, _, _). d \<le> t_now t) (st_members st)) (length expired) [];
     es \<leftarrow> expired_member_entries st removals;
     Some (prepared_of (RInteger (int events)) (map (\<lambda>key. (key, None)) expired @ es) Expiration st)
   }"

section \<open>Application\<close>

fun clear_entries :: "(bytes \<times> entry option) list \<Rightarrow> store \<Rightarrow> store option" where
  "clear_entries [] st = Some st"
| "clear_entries ((key, _) # rest) st = do {
     (_, st) \<leftarrow> remove key (st\<lparr>st_watches := registry_invalidate key (st_watches st)\<rparr>);
     clear_entries rest st
   }"

fun install_entries :: "(bytes \<times> entry option) list \<Rightarrow> store \<Rightarrow> store option" where
  "install_entries [] st = Some st"
| "install_entries ((key, Some e) # rest) st = do { st \<leftarrow> install_entry key e st; install_entries rest st }"
| "install_entries ((key, None) # rest) st = install_entries rest st"

definition apply_prepared :: "prepared \<Rightarrow> store \<Rightarrow> (reply \<times> store) option" where
  "apply_prepared p st =
     (if st_generation st = pr_generation p then do {
        st \<leftarrow> clear_entries (pr_entries p) st;
        st \<leftarrow> install_entries (pr_entries p) st;
        Some (pr_reply p, st)
      } else None)"

section \<open>Snapshots and replay\<close>

text \<open>The entries are in key order already.\<close>

definition snapshot :: "store \<Rightarrow> mutation list" where
  "snapshot st = map (\<lambda>(key, e). Put key (ent_value e) (ent_unix e)) (st_values st)"

fun replay_base :: "mutation list \<Rightarrow> bytes btree_set \<Rightarrow> nat \<Rightarrow> store \<Rightarrow> replay_error + nat" where
  "replay_base [] keys used st = Inr used"
| "replay_base (mu # ms) keys used st =
     (let key = mutation_key mu
      in res_bind (ensure (key \<notin> set keys) ReDuplicateKey) (\<lambda>_.
           res_bind
             (case bm_get (st_values st) key of
                None \<Rightarrow> Inr used
              | Some old \<Rightarrow> res_bind (ok_or (entry_bytes key (ent_value old)) ReQuota) (\<lambda>n. Inr (wrapping_sub used n)))
             (\<lambda>used. replay_base ms (bs_insert key keys) used st)))"

definition replay_deadline :: "sample \<Rightarrow> int \<Rightarrow> replay_error + int" where
  "replay_deadline t d =
     (if d \<le> t_unix t then Inr (t_now t)
      else
        let remaining = d - t_unix t
        in res_bind (ensure (remaining \<le> 18446744073709551615) ReDeadline) (\<lambda>_.
             ok_or (instant_checked_add (t_now t) (duration_from_millis remaining)) ReDeadline))"

definition replay_expires :: "sample \<Rightarrow> int option \<Rightarrow> replay_error + int option" where
  "replay_expires t d = (case d of None \<Rightarrow> Inr None | Some d \<Rightarrow> res_bind (replay_deadline t d) (\<lambda>x. Inr (Some x)))"

fun replay_put ::
  "sample \<Rightarrow> store \<Rightarrow> bytes \<Rightarrow> value \<Rightarrow> int option \<Rightarrow> nat \<Rightarrow> replay_error + (entry \<times> nat)" where
  "replay_put t st key v d used =
     res_bind (case v of VMemory c \<Rightarrow> map_err ReMemory (validate_key c key) | _ \<Rightarrow> Inr ()) (\<lambda>_.
     res_bind (replay_expires t d) (\<lambda>expires.
     res_bind (ok_or (entry_bytes key v) ReQuota) (\<lambda>n.
     res_bind (ok_or (checked_add used n) ReQuota) (\<lambda>used.
     res_bind (map_err (\<lambda>_. ReDeadline) (resolve_member_deadlines t key v st)) (\<lambda>deadlines.
       Inr (\<lparr>ent_value = v, ent_expires = expires, ent_unix = d, ent_generation = 0, ent_deadlines = deadlines\<rparr>, used))))))"

definition elapsed :: "sample \<Rightarrow> value \<Rightarrow> int option \<Rightarrow> bool" where
  "elapsed t v d \<longleftrightarrow> (case d of None \<Rightarrow> False | Some d \<Rightarrow> d \<le> t_unix t) \<and> \<not> is_memory v"

fun replay_entries ::
  "sample \<Rightarrow> store \<Rightarrow> mutation list \<Rightarrow> nat \<Rightarrow> replay_error + ((bytes \<times> entry option) list \<times> nat)" where
  "replay_entries t st [] used = Inr ([], used)"
| "replay_entries t st (Delete key # ms) used =
     res_bind (replay_entries t st ms used) (\<lambda>(es, used). Inr ((key, None) # es, used))"
| "replay_entries t st (Put key v d # ms) used =
     (if elapsed t v d
      then res_bind (replay_entries t st ms used) (\<lambda>(es, used). Inr ((key, None) # es, used))
      else res_bind (replay_put t st key v d used) (\<lambda>(e, used).
        res_bind (replay_entries t st ms used) (\<lambda>(es, used). Inr ((key, Some e) # es, used))))"

definition prepare_replay :: "sample \<Rightarrow> mutation list \<Rightarrow> mutation_origin \<Rightarrow> store \<Rightarrow> replay_error + prepared" where
  "prepare_replay t ms origin st =
     res_bind (replay_base ms [] (st_used st) st) (\<lambda>used.
     res_bind (replay_entries t st ms used) (\<lambda>(es, used).
     res_bind (ensure (used \<le> st_quota st) ReQuota) (\<lambda>_.
       Inr (prepared_of ROk es origin st))))"

text \<open>\<open>None\<close> inside the result is a panic while applying.\<close>

definition replay :: "sample \<Rightarrow> mutation list \<Rightarrow> store \<Rightarrow> replay_error + store option" where
  "replay t ms st =
     res_bind (prepare_replay t ms Client st) (\<lambda>p. Inr (map_option snd (apply_prepared p st)))"

end
