(* ===== verification/Mutation_Sim.thy ===== *)
theory Mutation_Sim
  imports Mutation
begin

text \<open>
  What a shadow store must share with the store it stands for. Execution reads the
  entries of the keys a command names, the usage, the generation and the quota,
  and nothing else: two stores that agree on these give the same reply and agree
  again afterwards (\<open>execute_inner_sim\<close>). A command leaves other keys alone, and every
  entry it writes carries a generation later than the store had before
  (\<open>execute_inner_evolves\<close>).
\<close>

section \<open>Agreement\<close>

definition sim :: "bytes set \<Rightarrow> store \<Rightarrow> store \<Rightarrow> bool" where
  "sim K sh st \<longleftrightarrow>
     bm_ok (st_values sh) \<and> bm_ok (st_values st) \<and> (\<forall>k\<in>K. bm_get (st_values sh) k = bm_get (st_values st) k)
     \<and> st_used sh = st_used st \<and> st_generation sh = st_generation st \<and> st_quota sh = st_quota st"

abbreviation sim_result :: "bytes set \<Rightarrow> ('r \<times> store) option \<Rightarrow> ('r \<times> store) option \<Rightarrow> bool" where
  "sim_result K \<equiv> rel_option (rel_prod (=) (sim K))"

lemma sim_get: "sim K sh st \<Longrightarrow> k \<in> K \<Longrightarrow> bm_get (st_values sh) k = bm_get (st_values st) k"
  by (simp add: sim_def)

lemma sim_used: "sim K sh st \<Longrightarrow> st_used sh = st_used st"
  by (simp add: sim_def)

lemma within_quota_sim: "sim K sh st \<Longrightarrow> within_quota sh u = within_quota st u"
  by (auto simp: within_quota_def sim_def split: option.split)

lemma remove_sim: "sim K sh st \<Longrightarrow> key \<in> K \<Longrightarrow> sim_result K (remove key sh) (remove key st)"
  by (auto simp: remove_def sim_def drop_member_expirations_def drop_expiration_def Let_def split: option.split
      bind_split)

lemma invalidate_sim: "sim K sh st \<Longrightarrow> sim K (sh\<lparr>st_watches := w\<rparr>) (st\<lparr>st_watches := w'\<rparr>)"
  by (simp add: sim_def)

lemma rel_bind:
  assumes "rel_option A m m'" "\<And>x x'. A x x' \<Longrightarrow> rel_option B (f x) (f' x')"
  shows "rel_option B (Option.bind m f) (Option.bind m' f')"
  using assms by (cases rule: option.rel_cases) auto

lemma install_entry_sim:
  assumes "sim K sh st" "key \<in> K"
  shows "rel_option (sim K) (install_entry key e sh) (install_entry key e st)"
  unfolding install_entry_def
proof (rule rel_bind [OF remove_sim [OF invalidate_sim [OF assms(1)] assms(2)]])
  fix x x' :: "entry option \<times> store"
  assume "rel_prod (=) (sim K) x x'"
  then show "rel_option (sim K)
      (case x of (_, st) \<Rightarrow> do {
         n \<leftarrow> entry_bytes key (ent_value e);
         let g = st_generation st + 1;
         let e = e\<lparr>ent_generation := g\<rparr>;
         let st = add_expirations key e (st\<lparr>st_used := wrapping_add (st_used st) n, st_generation := g\<rparr>);
         Some (st\<lparr>st_values := bm_insert key e (st_values st)\<rparr>) })
      (case x' of (_, st) \<Rightarrow> do {
         n \<leftarrow> entry_bytes key (ent_value e);
         let g = st_generation st + 1;
         let e = e\<lparr>ent_generation := g\<rparr>;
         let st = add_expirations key e (st\<lparr>st_used := wrapping_add (st_used st) n, st_generation := g\<rparr>);
         Some (st\<lparr>st_values := bm_insert key e (st_values st)\<rparr>) })"
    by (cases "entry_bytes key (ent_value e)") (auto simp: sim_def add_expirations_def Let_def split: prod.split)
qed

lemma resolve_sim:
  "sim K sh st \<Longrightarrow> key \<in> K \<Longrightarrow> resolve_member_deadlines t key v sh = resolve_member_deadlines t key v st"
  by (simp add: resolve_member_deadlines_def sim_get split: value_split)

lemma insert_value_sim:
  "sim K sh st \<Longrightarrow> key \<in> K \<Longrightarrow> rel_option (sim K) (insert_value t key v x sh) (insert_value t key v x st)"
  by (simp add: insert_value_def resolve_sim install_entry_sim split: sum.split)

lemma expire_key_sim:
  "sim K sh st \<Longrightarrow> key \<in> K \<Longrightarrow> rel_option (sim K) (expire_key now key sh) (expire_key now key st)"
  using remove_sim [of K sh st key]
  by (auto simp: expire_key_def sim_get option.rel_map elim!: option.rel_mono_strong split: option.split)

lemma can_replace_sim: "sim K sh st \<Longrightarrow> key \<in> K \<Longrightarrow> can_replace key v sh = can_replace key v st"
  by (simp add: can_replace_def within_quota_sim current_bytes_def sim_get sim_used)

lemma perform_sim:
  assumes "sim K sh st" "key \<in> K"
  shows "sim_result K (perform t key r act sh) (perform t key r act st)"
  using assms remove_sim [OF assms] insert_value_sim [OF assms]
  by (cases act) (auto simp: perform_def can_replace_sim option.rel_map elim!: option.rel_mono_strong)

lemma run_update_sim:
  assumes "sim K sh st" "key \<in> K"
  shows "sim_result K (run_update t key h sh) (run_update t key h st)"
  unfolding run_update_def
  using perform_sim assms(2)
  by (intro rel_bind [OF expire_key_sim [OF assms]])
    (auto simp: sim_get [OF _ assms(2)] split: option.split bind_split)

lemma expire_keys_sim:
  assumes "sim K sh st" "set keys \<subseteq> K"
  shows "rel_option (sim K) (expire_keys now keys sh) (expire_keys now keys st)"
  using assms by (induction keys arbitrary: sh st) (auto intro: rel_bind [OF expire_key_sim])

lemma remove_keys_sim:
  assumes "sim K sh st" "set keys \<subseteq> K"
  shows "rel_option (sim K) (remove_keys keys sh) (remove_keys keys st)"
  using assms by (induction keys arbitrary: sh st) (auto intro!: rel_bind [OF remove_sim])

lemma insert_strings_sim:
  assumes "sim K sh st" "fst ` set es \<subseteq> K"
  shows "rel_option (sim K) (insert_strings t es sh) (insert_strings t es st)"
  using assms
proof (induction es arbitrary: sh st)
  case (Cons kv es)
  then show ?case by (cases kv) (auto intro!: rel_bind [OF insert_value_sim])
qed simp

lemma mset_base_sim: "sim K sh st \<Longrightarrow> set keys \<subseteq> K \<Longrightarrow> mset_base keys sh b = mset_base keys st b"
  by (induction keys arbitrary: b) (auto simp: sim_get split: option.split bind_split)

lemma del_keys_sim:
  assumes "sim K sh st" "set keys \<subseteq> K"
  shows "sim_result K (del_keys t keys n sh) (del_keys t keys n st)"
  using assms
  by (induction keys arbitrary: n sh st) (auto intro!: rel_bind [OF expire_key_sim] rel_bind [OF remove_sim])

lemma exists_keys_sim:
  assumes "sim K sh st" "set keys \<subseteq> K"
  shows "sim_result K (exists_keys t keys n sh) (exists_keys t keys n st)"
  using assms
  by (induction keys arbitrary: n sh st) (auto simp: sim_get intro!: rel_bind [OF expire_key_sim])

lemma mget_keys_sim:
  assumes "sim K sh st" "set keys \<subseteq> K"
  shows "sim_result K (mget_keys t keys acc sh) (mget_keys t keys acc st)"
  using assms
  by (induction keys arbitrary: acc sh st) (auto simp: sim_get intro!: rel_bind [OF expire_key_sim])

lemma keys_insert_all: "fst ` set (fold (\<lambda>(k, v). bm_insert k v) pairs m) = fst ` set pairs \<union> fst ` set m"
proof (induction pairs arbitrary: m)
  case (Cons kv pairs)
  then show ?case by (cases kv) (simp add: keys_bm_insert)
qed simp

lemma mset_sim:
  assumes "sim K sh st" "fst ` set pairs \<subseteq> K"
  shows "sim_result K (mset t pairs sh) (mset t pairs st)"
proof -
  define es where "es = fold (\<lambda>(k, v). bm_insert k v) pairs []"
  have K: "set (map fst es) \<subseteq> K" "fst ` set es \<subseteq> K" using assms(2) by (auto simp: es_def keys_insert_all)
  show ?thesis
    unfolding mset_def es_def [symmetric] Let_def
  proof (rule rel_bind [OF expire_keys_sim [OF assms(1) K(1)]])
    fix sh1 st1
    assume s: "sim K sh1 st1"
    show "sim_result K
        (do { base \<leftarrow> mset_base (map fst es) sh1 (st_used sh1);
              if within_quota sh1 (mset_usage es base) then do {
                st \<leftarrow> remove_keys (map fst es) sh1; st \<leftarrow> insert_strings t es st; Some (ROk, st) }
              else Some (RError EOutOfMemory, sh1) })
        (do { base \<leftarrow> mset_base (map fst es) st1 (st_used st1);
              if within_quota st1 (mset_usage es base) then do {
                st \<leftarrow> remove_keys (map fst es) st1; st \<leftarrow> insert_strings t es st; Some (ROk, st) }
              else Some (RError EOutOfMemory, st1) })"
      using s
      by (cases "mset_base (map fst es) st1 (st_used st1)")
        (auto simp: mset_base_sim [OF s K(1)] within_quota_sim [OF s] sim_used [OF s]
          intro!: rel_bind [OF remove_keys_sim [OF _ K(1)]] rel_bind [OF insert_strings_sim [OF _ K(2)]])
  qed
qed

lemma execute_inner_sim:
  assumes "sim K sh st" "set (visit_keys c) \<subseteq> K"
  shows "sim_result K (execute_inner t c sh) (execute_inner t c st)"
proof (cases c)
  case (CPing m)
  with assms show ?thesis by (cases m) simp_all
qed (use assms in \<open>auto simp: set_string_def expire_command_def Let_def split: option.split
    intro!: run_update_sim del_keys_sim exists_keys_sim mget_keys_sim mset_sim\<close>)

section \<open>Evolution\<close>

text \<open>From \<open>st\<close> to \<open>st'\<close> in at most \<open>n\<close> steps of the generation, writing only keys of \<open>K\<close>.\<close>

definition evolves :: "bytes set \<Rightarrow> nat \<Rightarrow> store \<Rightarrow> store \<Rightarrow> bool" where
  "evolves K n st st' \<longleftrightarrow> (bm_ok (st_values st) \<longrightarrow> bm_ok (st_values st')
     \<and> (\<exists>j\<le>n. st_generation st' = st_generation st + of_nat j
        \<and> (\<forall>k e. bm_get (st_values st') k = Some e \<longrightarrow> bm_get (st_values st) k = Some e
              \<or> (\<exists>i\<in>{1..j}. ent_generation e = st_generation st + of_nat i)))
     \<and> (\<forall>k. k \<notin> K \<longrightarrow> bm_get (st_values st') k = bm_get (st_values st) k))"

lemma evolvesI:
  assumes "bm_ok (st_values st) \<Longrightarrow> bm_ok (st_values st')" "j \<le> n" "st_generation st' = st_generation st + of_nat j"
    "\<And>k e. bm_ok (st_values st) \<Longrightarrow> bm_get (st_values st') k = Some e \<Longrightarrow> bm_get (st_values st) k = Some e
              \<or> (\<exists>i\<in>{1..j}. ent_generation e = st_generation st + of_nat i)"
    "\<And>k. bm_ok (st_values st) \<Longrightarrow> k \<notin> K \<Longrightarrow> bm_get (st_values st') k = bm_get (st_values st) k"
  shows "evolves K n st st'"
  unfolding evolves_def using assms by (intro impI conjI exI [of _ j] allI) simp_all

lemma evolves_refl: "evolves K n st st"
  by (rule evolvesI [where j = 0]) simp_all

lemma evolves_mono: "evolves K n st st' \<Longrightarrow> K \<subseteq> L \<Longrightarrow> n \<le> m \<Longrightarrow> evolves L m st st'"
  unfolding evolves_def by (meson in_mono order_trans)

lemma evolves_trans:
  assumes "evolves K n st st'" "evolves K m st' st''"
  shows "evolves K (n + m) st st''"
  unfolding evolves_def
proof
  assume ok: "bm_ok (st_values st)"
  obtain j where 1: "bm_ok (st_values st')" "j \<le> n" "st_generation st' = st_generation st + of_nat j"
    "\<And>k e. bm_get (st_values st') k = Some e \<Longrightarrow> bm_get (st_values st) k = Some e
        \<or> (\<exists>i\<in>{1..j}. ent_generation e = st_generation st + of_nat i)"
    "\<And>k. k \<notin> K \<Longrightarrow> bm_get (st_values st') k = bm_get (st_values st) k"
    using assms(1) ok by (auto simp: evolves_def)
  obtain l where 2: "bm_ok (st_values st'')" "l \<le> m" "st_generation st'' = st_generation st' + of_nat l"
    "\<And>k e. bm_get (st_values st'') k = Some e \<Longrightarrow> bm_get (st_values st') k = Some e
        \<or> (\<exists>i\<in>{1..l}. ent_generation e = st_generation st' + of_nat i)"
    "\<And>k. k \<notin> K \<Longrightarrow> bm_get (st_values st'') k = bm_get (st_values st') k"
    using assms(2) 1(1) by (auto simp: evolves_def)
  have "bm_get (st_values st) k = Some e \<or> (\<exists>i\<in>{1..j + l}. ent_generation e = st_generation st + of_nat i)"
    if "bm_get (st_values st'') k = Some e" for k e
    using 2(4) [OF that]
  proof
    assume "bm_get (st_values st') k = Some e"
    from 1(4) [OF this] show ?thesis by fastforce
  next
    assume "\<exists>i\<in>{1..l}. ent_generation e = st_generation st' + of_nat i"
    then obtain i where "i \<in> {1..l}" "ent_generation e = st_generation st + of_nat (j + i)" by (auto simp: 1(3) add.assoc)
    then show ?thesis by (intro disjI2 bexI [of _ "j + i"]) auto
  qed
  then show "bm_ok (st_values st'') \<and> (\<exists>j\<le>n + m. st_generation st'' = st_generation st + of_nat j
        \<and> (\<forall>k e. bm_get (st_values st'') k = Some e \<longrightarrow> bm_get (st_values st) k = Some e
              \<or> (\<exists>i\<in>{1..j}. ent_generation e = st_generation st + of_nat i)))
     \<and> (\<forall>k. k \<notin> K \<longrightarrow> bm_get (st_values st'') k = bm_get (st_values st) k)"
    using 1 2 by (intro conjI exI [of _ "j + l"]) (auto simp: add.assoc)
qed

lemma remove_evolves:
  assumes "remove key st = Some (old, st')" "key \<in> K"
  shows "evolves K 1 st st'"
proof (cases "bm_get (st_values st) key")
  case None
  with assms show ?thesis by (simp add: remove_def evolves_refl)
next
  case (Some e)
  with assms have "st_generation st' = st_generation st + of_nat 1" "st_values st' = bm_remove key (st_values st)"
    by (auto simp: remove_def bind_eq_Some_conv drop_member_expirations_def drop_expiration_def Let_def split: option.splits)
  with assms(2) show ?thesis by (intro evolvesI [where j = 1]) (auto split: if_splits)
qed

lemma evolves_watches: "evolves K n (st\<lparr>st_watches := w\<rparr>) st' = evolves K n st st'"
  by (simp add: evolves_def)

lemma install_entry_evolves:
  assumes "install_entry key e st = Some st'" "key \<in> K"
  shows "evolves K 2 st st'"
proof -
  obtain old st1 where r: "remove key (st\<lparr>st_watches := registry_invalidate key (st_watches st)\<rparr>) = Some (old, st1)"
    and g: "st_generation st' = st_generation st1 + of_nat 1"
    and v: "st_values st' = bm_insert key (e\<lparr>ent_generation := st_generation st1 + 1\<rparr>) (st_values st1)"
    using assms by (auto simp: install_entry_def bind_eq_Some_conv add_expirations_def Let_def)
  have "evolves K 1 st st1" using remove_evolves [OF r assms(2)] by (simp add: evolves_watches)
  moreover have "evolves K 1 st1 st'"
    using g v assms(2) by (intro evolvesI [where j = 1]) (auto split: if_splits)
  ultimately show ?thesis using evolves_trans [of K 1 st st1 1 st'] by (simp add: numeral_2_eq_2)
qed

lemma insert_value_evolves: "insert_value t key v x st = Some st' \<Longrightarrow> key \<in> K \<Longrightarrow> evolves K 2 st st'"
  by (auto simp: insert_value_def split: sum.splits intro: install_entry_evolves)

lemma expire_key_evolves: "expire_key now key st = Some st' \<Longrightarrow> key \<in> K \<Longrightarrow> evolves K 1 st st'"
  by (auto simp: expire_key_def evolves_refl split: option.splits if_splits intro: remove_evolves simp del: One_nat_def)

lemma perform_evolves: "perform t key r0 act st = Some (r, st') \<Longrightarrow> key \<in> K \<Longrightarrow> evolves K 2 st st'"
  by (auto simp: perform_def evolves_refl split: action.splits if_splits
      intro: evolves_mono [OF remove_evolves order_refl] insert_value_evolves)

lemma run_update_evolves: "run_update t key h st = Some (r, st') \<Longrightarrow> key \<in> K \<Longrightarrow> evolves K 4 st st'"
  by (auto simp: run_update_def bind_eq_Some_conv
      intro: evolves_mono [OF evolves_trans [OF expire_key_evolves perform_evolves] order_refl])

lemma evolves_step:
  "evolves K a st st' \<Longrightarrow> evolves K b st' st'' \<Longrightarrow> a + b \<le> n \<Longrightarrow> evolves K n st st''"
  by (rule evolves_mono [OF evolves_trans order_refl])

lemma del_keys_evolves:
  "del_keys t keys n st = Some (r, st') \<Longrightarrow> set keys \<subseteq> K \<Longrightarrow> evolves K (4 * length keys) st st'"
proof (induction keys arbitrary: n st)
  case (Cons key keys)
  then obtain st1 old st2 where "expire_key (t_now t) key st = Some st1" "remove key st1 = Some (old, st2)"
    "del_keys t keys (n + of_bool (old \<noteq> None)) st2 = Some (r, st')"
    by (auto simp: bind_eq_Some_conv)
  with Cons show ?case
    by (intro evolves_step [OF expire_key_evolves evolves_step [OF remove_evolves Cons.IH order_refl]]) auto
qed (simp add: evolves_refl)

lemma exists_keys_evolves:
  "exists_keys t keys n st = Some (r, st') \<Longrightarrow> set keys \<subseteq> K \<Longrightarrow> evolves K (4 * length keys) st st'"
proof (induction keys arbitrary: n st)
  case (Cons key keys)
  then obtain st1 m where "expire_key (t_now t) key st = Some st1" "exists_keys t keys m st1 = Some (r, st')"
    by (auto simp: bind_eq_Some_conv)
  with Cons show ?case by (intro evolves_step [OF expire_key_evolves Cons.IH]) auto
qed (simp add: evolves_refl)

lemma mget_keys_evolves:
  "mget_keys t keys acc st = Some (r, st') \<Longrightarrow> set keys \<subseteq> K \<Longrightarrow> evolves K (4 * length keys) st st'"
proof (induction keys arbitrary: acc st)
  case (Cons key keys)
  then obtain st1 acc' where "expire_key (t_now t) key st = Some st1" "mget_keys t keys acc' st1 = Some (r, st')"
    by (auto simp: bind_eq_Some_conv)
  with Cons show ?case by (intro evolves_step [OF expire_key_evolves Cons.IH]) auto
qed (simp add: evolves_refl)

lemma expire_keys_evolves: "expire_keys now keys st = Some st' \<Longrightarrow> set keys \<subseteq> K \<Longrightarrow> evolves K (length keys) st st'"
proof (induction keys arbitrary: st)
  case (Cons key keys)
  then obtain st1 where "expire_key now key st = Some st1" "expire_keys now keys st1 = Some st'"
    by (auto simp: bind_eq_Some_conv)
  with Cons show ?case by (intro evolves_step [OF expire_key_evolves Cons.IH]) auto
qed (simp add: evolves_refl)

lemma remove_keys_evolves: "remove_keys keys st = Some st' \<Longrightarrow> set keys \<subseteq> K \<Longrightarrow> evolves K (length keys) st st'"
proof (induction keys arbitrary: st)
  case (Cons key keys)
  then obtain st1 old where "remove key st = Some (old, st1)" "remove_keys keys st1 = Some st'"
    by (auto simp: bind_eq_Some_conv)
  with Cons show ?case by (intro evolves_step [OF remove_evolves Cons.IH]) auto
qed (simp add: evolves_refl)

lemma insert_strings_evolves:
  "insert_strings t es st = Some st' \<Longrightarrow> fst ` set es \<subseteq> K \<Longrightarrow> evolves K (2 * length es) st st'"
proof (induction es arbitrary: st)
  case (Cons kv es)
  obtain k v where kv: "kv = (k, v)" by (cases kv)
  with Cons.prems obtain st1 where "insert_value t k (VString v) None st = Some st1" "insert_strings t es st1 = Some st'"
    by (auto simp: bind_eq_Some_conv)
  with Cons kv show ?case by (intro evolves_step [OF insert_value_evolves Cons.IH]) auto
qed (simp add: evolves_refl)

lemma length_insert_all: "length (fold (\<lambda>(k, v). bm_insert k v) pairs m) \<le> length pairs + length m"
proof (induction pairs arbitrary: m)
  case (Cons kv pairs)
  have "length (bm_insert k v m) \<le> Suc (length m)" for k v by (induction k v m rule: bm_insert.induct) auto
  with Cons show ?case by (cases kv) (fastforce intro: order_trans)
qed simp

lemma mset_evolves:
  assumes "mset t pairs st = Some (r, st')" "fst ` set pairs \<subseteq> K"
  shows "evolves K (4 * length pairs) st st'"
proof -
  define es where "es = fold (\<lambda>(k, v). bm_insert k v) pairs []"
  have K: "set (map fst es) \<subseteq> K" "fst ` set es \<subseteq> K" using assms(2) by (auto simp: es_def keys_insert_all)
  have len: "length es \<le> length pairs" using length_insert_all [of pairs "[]"] by (simp add: es_def)
  obtain st1 where 1: "expire_keys (t_now t) (map fst es) st = Some st1"
    and 2: "st' = st1 \<or> (\<exists>st2. remove_keys (map fst es) st1 = Some st2 \<and> insert_strings t es st2 = Some st')"
    using assms(1) by (auto simp: mset_def es_def [symmetric] Let_def bind_eq_Some_conv split: if_splits)
  note e1 = expire_keys_evolves [OF 1 K(1)]
  from 2 have e2: "evolves K (3 * length es) st1 st'"
  proof (elim disjE exE conjE)
    fix st2
    assume r: "remove_keys (map fst es) st1 = Some st2" "insert_strings t es st2 = Some st'"
    show ?thesis
      by (rule evolves_step [OF remove_keys_evolves [OF r(1) K(1)] insert_strings_evolves [OF r(2) K(2)]]) simp
  qed (simp add: evolves_refl)
  show ?thesis by (rule evolves_step [OF e1 e2]) (use len in simp)
qed

lemma execute_inner_evolves:
  assumes "execute_inner t c st = Some (r, st')"
  shows "evolves (set (visit_keys c)) (4 * length (visit_keys c)) st st'"
proof (cases c)
  case (CPing m)
  with assms show ?thesis by (cases m) (auto simp: evolves_refl)
next
  case (CMSet entries)
  with assms show ?thesis using mset_evolves [of t entries st r st' "fst ` set entries"] by simp
qed (use assms in \<open>auto simp: set_string_def expire_command_def evolves_refl Let_def split: option.splits if_splits
    intro: run_update_evolves del_keys_evolves exists_keys_evolves mget_keys_evolves\<close>)

end
