(* ===== verification/Mutation_Correct.thy ===== *)
theory Mutation_Correct
  imports Mutation_Sim Keyspace
begin

text \<open>
  Preparing a command and applying the prepared batch is the same as executing it:
  same reply, same entries up to their generation, same usage.
\<close>

section \<open>Contents up to generations\<close>

definition unstamped :: "entry \<Rightarrow> entry" where
  "unstamped e = e\<lparr>ent_generation := 0\<rparr>"

definition stored :: "store \<Rightarrow> bytes \<Rightarrow> entry option" where
  "stored st k = map_option unstamped (bm_get (st_values st) k)"

lemma unstamped_simps [simp]:
  "unstamped (e\<lparr>ent_generation := g\<rparr>) = unstamped e" "ent_value (unstamped e) = ent_value e"
  "entry_data (unstamped e) = entry_data e" "unstamped (unstamped e) = unstamped e"
  "ent_unix (unstamped e) = ent_unix e"
  by (simp_all add: unstamped_def entry_data_def)

lemma stored_data: "store_data st k = map_option entry_data (stored st k)"
  by (simp add: store_data_def stored_def option.map_comp comp_def)

lemma visible_stored: "stored st = stored st' \<Longrightarrow> visible now st = visible now st'"
  by (simp add: visible_def fun_eq_iff stored_data)

abbreviation option_size :: "bytes \<Rightarrow> entry option \<Rightarrow> nat" where
  "option_size k e \<equiv> (case e of None \<Rightarrow> 0 | Some e \<Rightarrow> entry_size k (ent_value e))"

abbreviation entries_size :: "(bytes \<times> entry option) list \<Rightarrow> nat" where
  "entries_size es \<equiv> sum_list (map (\<lambda>(k, e). option_size k e) es)"

section \<open>Applying a batch\<close>

lemma keys_size_le:
  assumes "store_ok st" "distinct keys"
  shows "keys_size keys st \<le> st_used st"
  using remove_keys_shrinks [OF assms] by auto

lemma clear_entries_shrinks:
  assumes "store_ok st" "distinct (map fst es)"
  shows "\<exists>st'. clear_entries es st = Some st' \<and> shrinks st st'
    \<and> bm_get (st_values st') = bm_get (st_values st) |` (- fst ` set es)
    \<and> st_used st = keys_size (map fst es) st + st_used st'"
  using assms
proof (induction es arbitrary: st)
  case Nil
  then show ?case by (simp add: shrinks_refl restrict_map_def)
next
  case (Cons ke es)
  obtain key e where ke: "ke = (key, e)" by (cases ke)
  let ?st0 = "st\<lparr>st_watches := registry_invalidate key (st_watches st)\<rparr>"
  have ok0: "store_ok ?st0" using Cons.prems(1) by simp
  obtain st1 where r: "remove key ?st0 = Some (bm_get (st_values ?st0) key, st1)" and s: "shrinks ?st0 st1"
    and g: "bm_get (st_values st1) = (bm_get (st_values ?st0))(key := None)" and u: "st_used ?st0 = key_size key ?st0 + st_used st1"
    by (rule remove_shrinks [OF ok0, of key])
  have 1: "shrinks st st1" "bm_get (st_values st1) = (bm_get (st_values st))(key := None)"
    "st_used st = key_size key st + st_used st1"
    using s g u by (simp_all add: shrinks_def key_size_def)
  have same: "keys_size (map fst es) st1 = keys_size (map fst es) st"
    using Cons.prems(2) ke by (intro arg_cong [of _ _ sum_list] map_cong) (auto simp: key_size_def 1(2))
  have "store_ok st1" using 1(1) by (simp add: shrinks_def)
  from Cons.IH [OF this] Cons.prems(2) obtain st' where
    2: "clear_entries es st1 = Some st'" "shrinks st1 st'"
       "bm_get (st_values st') = bm_get (st_values st1) |` (- fst ` set es)"
       "st_used st1 = keys_size (map fst es) st1 + st_used st'"
    by auto
  have "bm_get (st_values st') = bm_get (st_values st) |` (- fst ` set (ke # es))"
    unfolding 2(3) 1(2) by (auto simp: restrict_map_def fun_eq_iff ke)
  with 1 2 r same show ?case by (auto simp: ke intro: shrinks_trans)
qed

lemma install_entries_ok:
  assumes "store_ok st" "distinct (map fst es)" "\<forall>k\<in>fst ` set es. bm_get (st_values st) k = None"
    and "\<forall>k e. (k, Some e) \<in> set es \<longrightarrow> entry_ok k e" and "st_used st + entries_size es \<le> USIZE_MAX"
  shows "\<exists>st'. install_entries es st = Some st' \<and> store_ok st' \<and> st_quota st' = st_quota st
    \<and> st_used st' = st_used st + entries_size es
    \<and> stored st' = (\<lambda>k. case map_of es k of None \<Rightarrow> stored st k | Some e \<Rightarrow> map_option unstamped e)"
  using assms
proof (induction es arbitrary: st)
  case Nil
  then show ?case by simp
next
  case (Cons ke es)
  obtain key e where ke: "ke = (key, e)" by (cases ke)
  have dist: "distinct (map fst es)" and new: "key \<notin> fst ` set es" using Cons.prems(2) ke by auto
  then have abs: "map_of es key = None" by (simp add: map_of_eq_None_iff)
  have none: "bm_get (st_values st) key = None" using Cons.prems(3) ke by simp
  show ?case
  proof (cases e)
    case None
    have "stored st key = None" using none by (simp add: stored_def)
    then have "(\<lambda>k. case map_of es k of None \<Rightarrow> stored st k | Some e \<Rightarrow> map_option unstamped e)
        = (\<lambda>k. case map_of (ke # es) k of None \<Rightarrow> stored st k | Some e \<Rightarrow> map_option unstamped e)"
      using abs by (auto simp: ke None fun_eq_iff)
    with Cons.IH [OF Cons.prems(1) dist] Cons.prems(3,4,5) show ?thesis by (simp add: ke None)
  next
    case (Some e')
    have ks: "key_size key st = 0" using none by (simp add: key_size_def)
    have eok: "entry_ok key e'" using Cons.prems(4) ke Some by auto
    have "st_used st - key_size key st + entry_size key (ent_value e') \<le> USIZE_MAX"
      using Cons.prems(5) by (simp add: ke Some ks)
    then obtain st1 j where 1: "install_entry key e' st = Some st1" "store_ok st1"
      "st_values st1 = bm_insert key (e'\<lparr>ent_generation := st_generation st1\<rparr>) (st_values st)"
      "st_used st1 = st_used st - key_size key st + entry_size key (ent_value e')"
      "st_generation st1 = st_generation st + of_nat j" "1 \<le> j" "j \<le> 2" "st_quota st1 = st_quota st"
      by (rule install_entry_ok [OF Cons.prems(1) eok])
    have d1: "stored st1 = (stored st)(key \<mapsto> unstamped e')" by (auto simp: stored_def 1(3) fun_eq_iff)
    have abs1: "\<forall>k\<in>fst ` set es. bm_get (st_values st1) k = None" using Cons.prems(3) ke new by (auto simp: 1(3))
    have u1: "st_used st1 + entries_size es = st_used st + entries_size (ke # es)" using 1(4) ks by (simp add: ke Some)
    have eoks: "\<forall>k e. (k, Some e) \<in> set es \<longrightarrow> entry_ok k e" using Cons.prems(4) by simp
    have "st_used st1 + entries_size es \<le> USIZE_MAX" using u1 Cons.prems(5) by (simp only:)
    from Cons.IH [OF 1(2) dist abs1 eoks this] obtain st' where
      2: "install_entries es st1 = Some st'" "store_ok st'" "st_quota st' = st_quota st1"
         "st_used st' = st_used st1 + entries_size es"
         "stored st' = (\<lambda>k. case map_of es k of None \<Rightarrow> stored st1 k | Some e \<Rightarrow> map_option unstamped e)"
      by blast
    have "stored st' = (\<lambda>k. case map_of (ke # es) k of None \<Rightarrow> stored st k | Some e \<Rightarrow> map_option unstamped e)"
      unfolding 2(5) d1 using abs by (auto simp: ke Some fun_eq_iff split: option.split)
    moreover have "install_entries (ke # es) st = Some st'" using 1(1) 2(1) by (simp add: ke Some)
    ultimately show ?thesis using 2(2-4) 1(8) u1 by (intro exI [of _ st']) simp
  qed
qed

text \<open>The laws of a batch that fits.\<close>

definition batch_ok :: "store \<Rightarrow> prepared \<Rightarrow> bool" where
  "batch_ok st p \<longleftrightarrow>
     pr_generation p = st_generation st \<and> distinct (map fst (pr_entries p))
     \<and> (\<forall>k e. (k, Some e) \<in> set (pr_entries p) \<longrightarrow> entry_ok k e)
     \<and> st_used st - keys_size (map fst (pr_entries p)) st + entries_size (pr_entries p) \<le> USIZE_MAX"

definition logged :: "prepared \<Rightarrow> mutation list" where
  "logged p = batch_mutations (pr_batch p)"

lemma prepared_of_fields [simp]:
  "pr_reply (prepared_of r es origin st) = r" "pr_entries (prepared_of r es origin st) = es"
  "pr_generation (prepared_of r es origin st) = st_generation st"
  "logged (prepared_of r es origin st) = map entry_mutation es"
  by (simp_all add: prepared_of_def logged_def)

lemma apply_prepared_ok:
  assumes ok: "store_ok st" and b: "batch_ok st p"
  obtains st' where "apply_prepared p st = Some (pr_reply p, st')" "store_ok st'" "st_quota st' = st_quota st"
    "st_used st' = st_used st - keys_size (map fst (pr_entries p)) st + entries_size (pr_entries p)"
    "stored st' = (\<lambda>k. case map_of (pr_entries p) k of None \<Rightarrow> stored st k | Some e \<Rightarrow> map_option unstamped e)"
proof -
  let ?es = "pr_entries p"
  have b': "pr_generation p = st_generation st" "distinct (map fst ?es)" "\<forall>k e. (k, Some e) \<in> set ?es \<longrightarrow> entry_ok k e"
    "st_used st - keys_size (map fst ?es) st + entries_size ?es \<le> USIZE_MAX"
    using b by (auto simp: batch_ok_def)
  obtain st1 where 1: "clear_entries ?es st = Some st1" "shrinks st st1"
    "bm_get (st_values st1) = bm_get (st_values st) |` (- fst ` set ?es)"
    "st_used st = keys_size (map fst ?es) st + st_used st1"
    using clear_entries_shrinks [OF ok b'(2)] by blast
  have ok1: "store_ok st1" "st_quota st1 = st_quota st" using 1(2) by (auto simp: shrinks_def)
  have abs: "\<forall>k\<in>fst ` set ?es. bm_get (st_values st1) k = None" by (simp add: 1(3))
  have room: "st_used st1 + entries_size ?es \<le> USIZE_MAX" using b'(4) 1(4) by simp
  obtain st' where 2: "install_entries ?es st1 = Some st'" "store_ok st'" "st_quota st' = st_quota st1"
    "st_used st' = st_used st1 + entries_size ?es"
    "stored st' = (\<lambda>k. case map_of ?es k of None \<Rightarrow> stored st1 k | Some e \<Rightarrow> map_option unstamped e)"
    using install_entries_ok [OF ok1(1) b'(2) abs b'(3) room] by blast
  have "stored st1 k = stored st k" if "map_of ?es k = None" for k
    using that by (simp add: stored_def 1(3) restrict_map_def map_of_eq_None_iff)
  then have "stored st' = (\<lambda>k. case map_of ?es k of None \<Rightarrow> stored st k | Some e \<Rightarrow> map_option unstamped e)"
    unfolding 2(5) by (auto simp: fun_eq_iff split: option.split)
  with that [of st'] 1 2 ok1(2) b'(1) show ?thesis by (simp add: apply_prepared_def)
qed

section \<open>Preparing a command\<close>

lemma shadow_base_ok:
  assumes "store_ok st"
  obtains sh where "shadow_base st = Some sh" "st_values sh = []" "st_used sh = st_used st"
    "st_generation sh = st_generation st" "st_quota sh = st_quota st"
  using assms
  by (auto simp: shadow_base_def store_with_config_def validate_quota_def ensure_def store_ok_def)

lemma copy_keys_fields [simp]:
  "st_used (copy_keys st keys sh) = st_used sh" "st_generation (copy_keys st keys sh) = st_generation sh"
  "st_quota (copy_keys st keys sh) = st_quota sh"
  by (induction keys arbitrary: sh) (simp_all add: copy_entry_def split: option.split)

lemma copy_keys_values:
  "bm_get (st_values (copy_keys st keys sh)) k =
     (if k \<in> set keys \<and> bm_get (st_values st) k \<noteq> None then bm_get (st_values st) k else bm_get (st_values sh) k)"
  by (induction keys arbitrary: sh) (auto simp: copy_entry_def split: option.split)

lemma copy_keys_bm_ok: "bm_ok (st_values sh) \<Longrightarrow> bm_ok (st_values (copy_keys st keys sh))"
  by (induction keys arbitrary: sh) (simp_all add: copy_entry_def split: option.split)

lemma copy_keys_sim:
  assumes "store_ok st" "st_values sh = []" "st_used sh = st_used st"
    "st_generation sh = st_generation st" "st_quota sh = st_quota st"
  shows "sim (set keys) (copy_keys st keys sh) st"
  using assms by (auto simp: sim_def copy_keys_values copy_keys_bm_ok store_okD)

text \<open>The generation counter has not wrapped and will not within the next \<open>n\<close> steps.\<close>

definition headroom :: "nat \<Rightarrow> store \<Rightarrow> bool" where
  "headroom n st \<longleftrightarrow>
     (\<forall>k e. bm_get (st_values st) k = Some e \<longrightarrow> ent_generation e \<le> st_generation st)
     \<and> unat (st_generation st) + n < 2 ^ 64"

lemma later_generation:
  assumes "unat (g :: u64) + n < 2 ^ 64" "i \<le> n"
  shows "unat (g + of_nat i) = unat g + i"
  using assms by (simp add: unat_word_ariths unat_of_nat take_bit_eq_mod)

lemma generation_tells:
  assumes ok: "bm_ok (st_values st)" and h: "headroom n st" and ev: "evolves K n st st'"
  shows "map_option ent_generation (bm_get (st_values st) k) \<noteq> map_option ent_generation (bm_get (st_values st') k)
    \<longleftrightarrow> bm_get (st_values st) k \<noteq> bm_get (st_values st') k"
proof (cases "bm_get (st_values st) k" "bm_get (st_values st') k" rule: option.exhaust [case_product option.exhaust])
  case (Some_Some e e')
  obtain j where j: "j \<le> n" "bm_get (st_values st) k = Some e'
      \<or> (\<exists>i\<in>{1..j}. ent_generation e' = st_generation st + of_nat i)"
    using ev ok Some_Some(2) unfolding evolves_def by metis
  show ?thesis
  proof (cases "e = e'")
    case False
    with j Some_Some obtain i where i: "1 \<le> i" "i \<le> n" "ent_generation e' = st_generation st + of_nat i" by auto
    then have "unat (ent_generation e') = unat (st_generation st) + i"
      using later_generation [of "st_generation st" n i] h by (simp add: headroom_def)
    moreover have "unat (ent_generation e) \<le> unat (st_generation st)"
      using h Some_Some(1) by (simp add: headroom_def word_le_nat_alt)
    ultimately have "ent_generation e \<noteq> ent_generation e'" using i(1) by auto
    with Some_Some False show ?thesis by simp
  qed (simp add: Some_Some)
qed simp_all

text \<open>The entries a later state has for a list of keys.\<close>

definition postimages :: "bytes list \<Rightarrow> store \<Rightarrow> (bytes \<times> entry option) list" where
  "postimages keys st' = map (\<lambda>k. (k, bm_get (st_values st') k)) keys"

definition changed_keys :: "store \<Rightarrow> store \<Rightarrow> bytes list \<Rightarrow> bytes list" where
  "changed_keys st st' keys = filter (\<lambda>k. bm_get (st_values st) k \<noteq> bm_get (st_values st') k) keys"

lemma changed_entries_eq:
  assumes "bm_ok (st_values st)" "headroom n st" "evolves K n st st'" "sim K sh st'" "set keys \<subseteq> K"
  shows "changed_entries st sh keys = postimages (changed_keys st st' keys) st'"
  using assms(5)
proof (induction keys)
  case (Cons k keys)
  have "bm_get (st_values sh) k = bm_get (st_values st') k" using Cons.prems assms(4) by (simp add: sim_get)
  with Cons generation_tells [OF assms(1-3), of k] show ?case by (simp add: postimages_def changed_keys_def Let_def)
qed (simp add: postimages_def changed_keys_def)

lemma fst_postimages [simp]: "map fst (postimages keys st') = keys"
  by (simp add: postimages_def comp_def)

lemma map_of_postimages: "map_of (postimages keys st') k = (if k \<in> set keys then Some (bm_get (st_values st') k) else None)"
  by (induction keys) (auto simp: postimages_def)

lemma entries_size_postimages: "entries_size (postimages keys st') = keys_size keys st'"
  by (induction keys) (auto simp: postimages_def key_size_def split: option.split)

lemma postimages_used:
  assumes ok: "store_ok st" "store_ok st'" and d: "distinct keys"
    and frame: "\<And>k. k \<notin> set keys \<Longrightarrow> bm_get (st_values st') k = bm_get (st_values st) k"
  shows "st_used st' = st_used st - keys_size keys st + keys_size keys st'"
proof -
  obtain s1 where 1: "shrinks st s1" "bm_get (st_values s1) = bm_get (st_values st) |` (- set keys)"
    "st_used st = keys_size keys st + st_used s1"
    using remove_keys_shrinks [OF ok(1) d] by blast
  obtain s2 where 2: "shrinks st' s2" "bm_get (st_values s2) = bm_get (st_values st') |` (- set keys)"
    "st_used st' = keys_size keys st' + st_used s2"
    using remove_keys_shrinks [OF ok(2) d] by blast
  have "bm_get (st_values s1) = bm_get (st_values s2)"
    unfolding 1(2) 2(2) using frame by (auto simp: restrict_map_def fun_eq_iff)
  moreover have "store_ok s1" "store_ok s2" using 1(1) 2(1) by (auto simp: shrinks_def)
  ultimately have "st_values s1 = st_values s2" "st_used s1 = total_size (st_values s1)" "st_used s2 = total_size (st_values s2)"
    using bm_eqI [of "st_values s1" "st_values s2"] by (auto simp: store_okD)
  with 1(3) 2(3) show ?thesis by simp
qed

lemma apply_postimages:
  assumes ok: "store_ok st" "store_ok st'" and d: "distinct keys"
    and frame: "\<And>k. k \<notin> set keys \<Longrightarrow> bm_get (st_values st') k = bm_get (st_values st) k"
    and p: "pr_entries p = postimages keys st'" "pr_generation p = st_generation st"
  obtains st2 where "batch_ok st p" "apply_prepared p st = Some (pr_reply p, st2)" "store_ok st2" "st_quota st2 = st_quota st"
    "st_used st2 = st_used st'" "stored st2 = stored st'"
proof -
  note used = postimages_used [OF ok d frame]
  have "entry_ok k e" if "(k, Some e) \<in> set (postimages keys st')" for k e
    using that store_okD(4) [OF ok(2), of k e] by (auto simp: postimages_def)
  then have b: "batch_ok st p"
    using p d used store_okD(8) [OF ok(2)] by (simp add: batch_ok_def entries_size_postimages)
  obtain st2 where 2: "apply_prepared p st = Some (pr_reply p, st2)" "store_ok st2" "st_quota st2 = st_quota st"
    "st_used st2 = st_used st - keys_size (map fst (pr_entries p)) st + entries_size (pr_entries p)"
    "stored st2 = (\<lambda>k. case map_of (pr_entries p) k of None \<Rightarrow> stored st k | Some e \<Rightarrow> map_option unstamped e)"
    by (rule apply_prepared_ok [OF ok(1) b])
  have "stored st2 k = stored st' k" for k
    using frame [of k] by (auto simp: 2(5) p(1) map_of_postimages stored_def)
  with that [OF b 2(1-3)] 2(4) used p(1) show ?thesis by (simp add: fun_eq_iff entries_size_postimages)
qed

lemma prepare_apply:
  assumes ok: "store_ok st" and h: "headroom (4 * length (visit_keys c)) st" and c: "\<not> is_memory_command c"
    and ex: "execute_inner t c st = Some (r, st')" and ok': "store_ok st'"
  obtains p st2 where "prepare t c st = Some p" "batch_ok st p" "logged p = map entry_mutation (pr_entries p)"
    "pr_reply p = r" "apply_prepared p st = Some (r, st2)"
    "store_ok st2" "st_quota st2 = st_quota st" "st_used st2 = st_used st'" "stored st2 = stored st'"
proof -
  let ?keys = "bs_of_list (visit_keys c)"
  obtain sh where sh: "shadow_base st = Some sh" "st_values sh = []" "st_used sh = st_used st"
    "st_generation sh = st_generation st" "st_quota sh = st_quota st"
    by (rule shadow_base_ok [OF ok])
  have sim: "sim (set ?keys) (copy_keys st ?keys sh) st" by (rule copy_keys_sim [OF ok sh(2-5)])
  have "sim_result (set ?keys) (execute_inner t c (copy_keys st ?keys sh)) (execute_inner t c st)"
    by (rule execute_inner_sim [OF sim]) simp
  then obtain sh' where sh': "execute_inner t c (copy_keys st ?keys sh) = Some (r, sh')" "sim (set ?keys) sh' st'"
    using ex by (cases "execute_inner t c (copy_keys st ?keys sh)") auto
  have ev: "evolves (set ?keys) (4 * length (visit_keys c)) st st'"
    using execute_inner_evolves [OF ex] by simp
  have ch: "changed_entries st sh' ?keys = postimages (changed_keys st st' ?keys) st'"
    by (rule changed_entries_eq [OF store_okD(1) [OF ok] h ev sh'(2) order_refl])
  define p where "p = prepared_of r (postimages (changed_keys st st' ?keys) st') (command_origin c) st"
  have prep: "prepare t c st = Some p"
    using c sh(1) sh'(1) ch by (simp add: prepare_def p_def Let_def)
  have pe: "pr_entries p = postimages (changed_keys st st' ?keys) st'" "pr_generation p = st_generation st"
    by (simp_all add: p_def)
  have frame: "bm_get (st_values st') k = bm_get (st_values st) k" if "k \<notin> set (changed_keys st st' ?keys)" for k
    using ev that store_okD(1) [OF ok] by (auto simp: evolves_def changed_keys_def)
  have "distinct ?keys" by (rule bs_ok_distinct) simp
  then have d: "distinct (changed_keys st st' ?keys)" by (simp add: changed_keys_def)
  obtain st2 where "batch_ok st p" "apply_prepared p st = Some (pr_reply p, st2)" "store_ok st2"
    "st_quota st2 = st_quota st" "st_used st2 = st_used st'" "stored st2 = stored st'"
    by (rule apply_postimages [OF ok ok' d frame pe])
  with that [OF prep] show ?thesis by (simp add: p_def)
qed


lemma execute_inner_returns:
  assumes "store_ok st" "command_printable c (visible (t_now t) st)"
  obtains r st' where "execute_inner t c st = Some (r, st')" "store_ok st'" "st_quota st' = st_quota st"
    "st_used st' \<le> max (st_quota st) (st_used st)"
    "spec_execute t c (visible (t_now t) st) = Some (r, visible (t_now t) st')
      \<or> (r = RError EOutOfMemory \<and> visible (t_now t) st' = visible (t_now t) st)"
  using execute_inner_refines [OF assms] by (auto simp: refines_def)


text \<open>
  C4. Preparation changes nothing and application repeats no decision: the batch
  prepared from a store, applied to it, gives the reply, the entries (up to their
  generation), and the usage that executing the command in place gives.
\<close>

theorem prepare_apply_is_execution:
  assumes "store_ok st" "headroom (4 * length (visit_keys c)) st" "\<not> is_memory_command c"
    and "command_printable c (visible (t_now t) st)"
  shows "\<exists>p r st1 st2. prepare t c st = Some p \<and> apply_prepared p st = Some (r, st1)
    \<and> execute_inner t c st = Some (r, st2) \<and> stored st1 = stored st2 \<and> st_used st1 = st_used st2"
proof -
  obtain r st' where ex: "execute_inner t c st = Some (r, st')" "store_ok st'"
    by (rule execute_inner_returns [OF assms(1,4)])
  obtain q st2 where "prepare t c st = Some q" "apply_prepared q st = Some (r, st2)"
    "st_used st2 = st_used st'" "stored st2 = stored st'"
    by (rule prepare_apply [OF assms(1-3) ex])
  with ex show ?thesis by blast
qed

lemma sample_headroom: "headroom 8 sample_store"
  by (auto simp: headroom_def sample_store_def sample_entry_def split: if_splits)


theorem prepare_apply_is_execution_witness:
  "\<exists>p r st1 st2. prepare \<lparr>t_now = 9, t_unix = 0\<rparr> (CDel [''a'', ''b'']) sample_store = Some p
    \<and> apply_prepared p sample_store = Some (r, st1)
    \<and> execute_inner \<lparr>t_now = 9, t_unix = 0\<rparr> (CDel [''a'', ''b'']) sample_store = Some (r, st2)
    \<and> stored st1 = stored st2 \<and> st_used st1 = st_used st2"
  using prepare_apply_is_execution [OF sample_store_ok, of "CDel [''a'', ''b'']" "\<lparr>t_now = 9, t_unix = 0\<rparr>"]
    sample_headroom
  by (simp add: command_printable_def)

end
