(* ===== verification/Expiration_Correct.thy ===== *)
theory Expiration_Correct
  imports Mutation_Correct
begin

text \<open>
  The maintenance batch (\<open>prepare_expiration\<close>): tombstones for keys past their deadline
  and edits that drop memory members past theirs, together at most the budget.
\<close>

section \<open>Removing members\<close>

lemma insort_key_map: "insort_key f (g x) (map g ys) = map g (insort_key (\<lambda>y. f (g y)) x ys)"
  by (induction ys) simp_all

lemma sort_key_map: "sort_key f (map g xs) = map g (sort_key (\<lambda>x. f (g x)) xs)"
  by (induction xs) (simp_all add: insort_key_map)

lemma sort_removals: "sort_key edit_id (map Remove ids) = map Remove (sort ids)"
  by (simp add: sort_key_map)

lemma validate_removals:
  assumes "sorted_wrt (<) ids" "\<forall>i\<in>set ids. 1 \<le> length i \<and> length i \<le> 256"
    "\<And>p i. previous = Some p \<Longrightarrow> i \<in> set ids \<Longrightarrow> p < i"
  shows "validate_edits_from d previous (map Remove ids) = Inr ()"
  using assms
proof (induction ids arbitrary: previous)
  case (Cons i ids)
  have "validate_edits_from d (Some i) (map Remove ids) = Inr ()"
    by (rule Cons.IH) (use Cons.prems in auto)
  with Cons.prems(2) Cons.prems(3) [of _ i] show ?case
    by (auto simp: bounded_def not_le split: option.split)
qed simp

lemma apply_removals:
  assumes "collection_ok c" "distinct ids" "\<forall>i\<in>set ids. bm_get (coll_members c) i \<noteq> None"
  shows "\<exists>c'. apply_edit_list (map Remove ids) c = Inr c' \<and> coll_logical_bytes c' \<le> coll_logical_bytes c
    \<and> length (coll_members c') \<le> length (coll_members c)"
  using assms
proof (induction ids arbitrary: c)
  case (Cons i ids)
  obtain m where m: "bm_get (coll_members c) i = Some m" using Cons.prems(3) by auto
  let ?c = "drop_member i m c"
  have ok: "collection_ok ?c" by (rule drop_member_ok [OF Cons.prems(1) m])
  have ok0: "bm_ok (coll_members c)" using Cons.prems(1) by (simp add: collection_ok_def members_ok_def)
  have mem: "coll_members ?c = bm_remove i (coll_members c)" "coll_descriptor ?c = coll_descriptor c"
    by (simp_all add: drop_member_def)
  have "\<forall>j\<in>set ids. bm_get (coll_members ?c) j \<noteq> None" using Cons.prems(2,3) ok0 by (auto simp: mem)
  from Cons.IH [OF ok _ this] Cons.prems(2) obtain c' where
    c': "apply_edit_list (map Remove ids) ?c = Inr c'" "coll_logical_bytes c' \<le> coll_logical_bytes ?c"
        "length (coll_members c') \<le> length (coll_members ?c)"
    by auto
  have "coll_logical_bytes ?c \<le> coll_logical_bytes c"
    using ok Cons.prems(1) sum_bm_remove_le [of "member_logical_bytes \<circ> snd" i "coll_members c"]
    by (simp add: collection_ok_def mem)
  moreover have "length (coll_members ?c) \<le> length (coll_members c)"
    using sum_bm_remove_le [of "\<lambda>_. 1" i "coll_members c"] by (simp add: mem sum_list_triv)
  ultimately show ?case using c' m by (auto simp: apply_edit_def)
qed simp

lemma validate_key_mono:
  assumes "validate_key c key = Inr ()" "coll_logical_bytes c' \<le> coll_logical_bytes c"
    "length (coll_members c') \<le> length (coll_members c)" "coll_descriptor c' = coll_descriptor c"
  shows "validate_key c' key = Inr ()"
proof -
  have m: "length (coll_members c') * dimension (coll_descriptor c) \<le> length (coll_members c) * dimension (coll_descriptor c)"
    using assms(3) by simp
  have "\<not> too_many_components c" "bounded key 1 256 = Inr ()"
    and s: "coll_logical_bytes c + 128 + length key \<le> MAX_COLLECTION_BYTES" "coll_logical_bytes c + 128 + length key \<le> USIZE_MAX"
    using assms(1) by (auto simp: validate_key_def result_simps bind_eq_Some_conv checked_simps split: option.splits)
  moreover have "\<not> too_many_components c'"
    using \<open>\<not> too_many_components c\<close> assms(3,4)
    by (auto simp: too_many_components_def checked_mul_def split: option.splits if_splits
        dest: order.strict_trans2 [OF _ m] intro: order_trans [OF m])
  moreover have "Option.bind (checked_add (coll_logical_bytes c') 128) (\<lambda>n. checked_add n (length key))
      = Some (coll_logical_bytes c' + 128 + length key)"
    using s(2) assms(2) by (simp add: checked_add_ok)
  ultimately show ?thesis using assms(2) by (simp add: validate_key_def)
qed

lemma fold_removals: "fold edit_effect (map Remove ids) f = f |` (- set ids)"
proof (induction ids arbitrary: f)
  case (Cons i ids)
  then show ?case by (auto simp: restrict_map_def fun_eq_iff)
qed (simp add: restrict_map_def)

lemma remove_members:
  assumes ok: "collection_ok c" and key: "validate_key c key = Inr ()" and d: "distinct ids"
    and mem: "\<forall>i\<in>set ids. bm_get (coll_members c) i \<noteq> None" and n: "length ids \<le> MAX_EDITS"
  obtains c' where "apply_edits c (coll_descriptor c) (sort_key edit_id (map Remove ids)) key = Inr c'"
    "collection_ok c'" "validate_key c' key = Inr ()" "coll_logical_bytes c' \<le> coll_logical_bytes c"
    "bm_get (coll_members c') = bm_get (coll_members c) |` (- set ids)"
proof -
  let ?es = "map Remove (sort ids)"
  have valid: "validate_descriptor (coll_descriptor c) = Inr ()"
    "\<And>i m. bm_get (coll_members c) i = Some m \<Longrightarrow> 1 \<le> length i \<and> length i \<le> 256"
    using ok by (auto simp: collection_ok_def members_ok_iff validate_member_def bounded_def result_simps)
  have "sorted_wrt (<) (sort ids)" using d by (simp add: strict_sorted_iff)
  then have "validate_edits (coll_descriptor c) ?es = Inr ()"
    using validate_removals [of "sort ids" None] valid mem by (fastforce simp: validate_edits_def)
  moreover obtain c' where c': "apply_edit_list ?es c = Inr c'" "coll_logical_bytes c' \<le> coll_logical_bytes c"
    "length (coll_members c') \<le> length (coll_members c)"
    using apply_removals [OF ok, of "sort ids"] d mem by auto
  moreover have d': "collection_ok c' \<and> coll_descriptor c' = coll_descriptor c
      \<and> bm_get (coll_members c') = fold edit_effect ?es (bm_get (coll_members c))"
    by (rule apply_edit_list_ok [OF ok c'(1)]) auto
  moreover have "validate_key c' key = Inr ()" using validate_key_mono [OF key c'(2,3)] d' by simp
  ultimately show ?thesis
    using n that [of c'] by (simp add: sort_removals apply_edits_def fold_removals)
qed

section \<open>Collecting due members\<close>

definition due :: "store \<Rightarrow> bytes list \<Rightarrow> int \<times> bytes \<times> bytes \<Rightarrow> bool" where
  "due st expired = (\<lambda>(d, key, ident). key \<notin> set expired
     \<and> (case bm_get (st_values st) key of None \<Rightarrow> False | Some e \<Rightarrow> bm_get (ent_deadlines e) ident = Some d))"

definition removals_for :: "bytes \<Rightarrow> (int \<times> bytes \<times> bytes) list \<Rightarrow> bytes list" where
  "removals_for key acc = map (\<lambda>(_, _, ident). ident) (filter (\<lambda>(_, k, _). k = key) acc)"

abbreviation edits_at :: "(bytes, edit list) btree_map \<Rightarrow> bytes \<Rightarrow> edit list" where
  "edits_at rem k \<equiv> (case bm_get rem k of None \<Rightarrow> [] | Some es \<Rightarrow> es)"

lemma due_members_eq:
  assumes "bm_ok rem" "events \<le> budget" "\<And>k es. bm_get rem k = Some es \<Longrightarrow> es \<noteq> []"
  shows "\<exists>rem'. due_members budget st expired xs events rem
      = (events + length (take (budget - events) (filter (due st expired) xs)), rem')
    \<and> bm_ok rem' \<and> (\<forall>k es. bm_get rem' k = Some es \<longrightarrow> es \<noteq> [])
    \<and> (\<forall>k. edits_at rem' k = edits_at rem k
          @ map Remove (removals_for k (take (budget - events) (filter (due st expired) xs))))"
  using assms
proof (induction xs arbitrary: events rem)
  case Nil
  then show ?case by (simp add: removals_for_def)
next
  case (Cons x xs)
  obtain d key ident where x: "x = (d, key, ident)" by (cases x)
  show ?case
  proof (cases "events = budget")
    case True
    with Cons.prems show ?thesis by (simp add: x removals_for_def)
  next
    case False
    then have lt: "events < budget" using Cons.prems(2) by simp
    show ?thesis
    proof (cases "due st expired x")
      case True
      let ?rem = "bm_insert key (edits_at rem key @ [Remove ident]) rem"
      have step: "due_members budget st expired (x # xs) events rem = due_members budget st expired xs (events + 1) ?rem"
        using True lt by (simp add: x due_def)
      have take: "take (budget - events) (filter (due st expired) (x # xs))
          = x # take (budget - (events + 1)) (filter (due st expired) xs)"
        using True lt by (simp add: Suc_diff_Suc [symmetric])
      have "\<exists>rem'. due_members budget st expired xs (events + 1) ?rem
          = (events + 1 + length (take (budget - (events + 1)) (filter (due st expired) xs)), rem')
        \<and> bm_ok rem' \<and> (\<forall>k es. bm_get rem' k = Some es \<longrightarrow> es \<noteq> [])
        \<and> (\<forall>k. edits_at rem' k = edits_at ?rem k
            @ map Remove (removals_for k (take (budget - (events + 1)) (filter (due st expired) xs))))"
        by (rule Cons.IH) (use Cons.prems lt in \<open>auto split: if_splits\<close>)
      then show ?thesis unfolding step take by (auto simp: x removals_for_def)
    next
      case False
      then have step: "due_members budget st expired (x # xs) events rem = due_members budget st expired xs events rem"
        using lt by (auto simp: x due_def)
      from False Cons.IH [OF Cons.prems] show ?thesis unfolding step by simp
    qed
  qed
qed


section \<open>One entry without its due members\<close>

lemma fold_bm_remove:
  "bm_ok m \<Longrightarrow> bm_ok (fold (\<lambda>e. bm_remove (edit_id e)) (map Remove ids) m)
     \<and> bm_get (fold (\<lambda>e. bm_remove (edit_id e)) (map Remove ids) m) = bm_get m |` (- set ids)"
proof (induction ids arbitrary: m)
  case (Cons i ids)
  then show ?case by (auto simp: restrict_map_def fun_eq_iff)
qed (simp add: restrict_map_def)

lemma keys_bm: "bm_ok m \<Longrightarrow> fst ` set m = {k. bm_get m k \<noteq> None}"
  using dom_map_of_conv_image_fst [of m] by (auto simp: dom_def)

lemma without_members_ok:
  assumes ok: "entry_ok key e" and e: "bm_get (st_values st) key = Some e" and d: "distinct ids"
    and ids: "ids \<noteq> []" "\<forall>i\<in>set ids. bm_get (ent_deadlines e) i \<noteq> None" and n: "length ids \<le> MAX_EDITS"
  obtains c c' e' where "without_members st key (sort_key edit_id (map Remove ids)) = Some e'" "entry_ok key e'"
    "entry_size key (ent_value e') \<le> entry_size key (ent_value e)" "ent_expires e' = ent_expires e" "ent_unix e' = ent_unix e"
    "ent_value e = VMemory c" "ent_value e' = VMemory c'"
    "bm_get (coll_members c') = bm_get (coll_members c) |` (- set ids)"
    "bm_get (ent_deadlines e') = bm_get (ent_deadlines e) |` (- set ids)"
proof -
  have dl: "bm_ok (ent_deadlines e)" "fst ` set (ent_deadlines e) = deadline_ids (ent_value e)"
    using ok by (simp_all add: entry_ok_def)
  have sub: "set ids \<subseteq> deadline_ids (ent_value e)" using ids(2) dl by (auto simp: keys_bm)
  then obtain c where c: "ent_value e = VMemory c" using ids(1)
    by (cases "ent_value e") (auto simp: deadline_ids_def)
  have cok: "collection_ok c" "validate_key c key = Inr ()" using ok c by (simp_all add: entry_ok_def memory_key_ok_def)
  have mem: "\<forall>i\<in>set ids. bm_get (coll_members c) i \<noteq> None" using sub c by (auto simp: deadline_ids_def)
  obtain c' where c': "apply_edits c (coll_descriptor c) (sort_key edit_id (map Remove ids)) key = Inr c'"
    "collection_ok c'" "validate_key c' key = Inr ()" "coll_logical_bytes c' \<le> coll_logical_bytes c"
    "bm_get (coll_members c') = bm_get (coll_members c) |` (- set ids)"
    by (rule remove_members [OF cok d mem n])
  define e' where "e' = e\<lparr>ent_value := VMemory c',
      ent_deadlines := fold (\<lambda>e. bm_remove (edit_id e)) (sort_key edit_id (map Remove ids)) (ent_deadlines e)\<rparr>"
  have dl': "bm_ok (ent_deadlines e')" "bm_get (ent_deadlines e') = bm_get (ent_deadlines e) |` (- set ids)"
    using fold_bm_remove [OF dl(1), of "sort ids"] by (simp_all add: e'_def sort_removals)
  have "fst ` set (ent_deadlines e') = fst ` set (ent_deadlines e) - set ids"
    using dl(1) dl' by (auto simp: keys_bm restrict_map_def)
  also have "\<dots> = deadline_ids (VMemory c')"
    unfolding dl(2) by (auto simp: c deadline_ids_def c'(5) restrict_map_def)
  finally have "entry_ok key e'"
    using ok c c' dl'(1) entry_bytes_eq [of "VMemory c'" key] entry_bytes_Some [of key "VMemory c"]
    by (auto simp: entry_ok_def e'_def memory_key_ok_def entry_size_def)
  moreover have "without_members st key (sort_key edit_id (map Remove ids)) = Some e'"
    using e c c'(1) by (simp add: without_members_def e'_def)
  ultimately show ?thesis
    using that [of e' c c'] c c'(4,5) dl'(2) by (simp add: e'_def entry_size_def)
qed

section \<open>Due keys\<close>

lemma key_index_inj: "inj_on (\<lambda>(_, _, k). k) (key_index m)"
  by (auto simp: inj_on_def key_index_def)

abbreviation passed :: "int \<Rightarrow> int \<times> 'a \<times> 'b \<Rightarrow> bool" where
  "passed now \<equiv> (\<lambda>(d, _, _). d \<le> now)"

lemma takeWhile_take: "length (takeWhile P (take n xs)) < n \<Longrightarrow> takeWhile P (take n xs) = takeWhile P xs"
proof (induction n arbitrary: xs)
  case (Suc n)
  show ?case
  proof (cases xs)
    case (Cons y ys)
    with Suc.IH [of ys] Suc.prems show ?thesis by (cases "P y") simp_all
  qed simp
qed simp

lemma takeWhile_filter: "sorted_wrt (\<lambda>x y. P y \<longrightarrow> P x) xs \<Longrightarrow> takeWhile P xs = filter P xs"
  by (induction xs) (auto simp: filter_empty_conv)

lemma takeWhile_passed: "bs_ok xs \<Longrightarrow> takeWhile (passed now) xs = filter (passed now) xs"
  for xs :: "(int \<times> 'a::linorder \<times> 'b::linorder) list"
  by (rule takeWhile_filter) (auto simp: bs_ok_def less_prod_def elim!: sorted_wrt_mono_rel [rotated])

lemma due_keys_prefix:
  assumes ok: "store_ok st"
  shows "due_keys now budget st = map (\<lambda>(_, _, k). k) (takeWhile (passed now) (take budget (st_expirations st)))"
proof -
  let ?xs = "takeWhile (passed now) (take budget (st_expirations st))"
  have idx: "x \<in> key_index (bm_get (st_values st))" if "x \<in> set ?xs" for x
    using that store_okD(5) [OF ok] set_takeWhileD in_set_takeD by metis
  have "filter (\<lambda>(d, g, key). case bm_get (st_values st) key of
            None \<Rightarrow> False | Some e \<Rightarrow> ent_generation e = g \<and> ent_expires e = Some d) ?xs = ?xs"
  proof (rule filter_True, rule ballI)
    fix x assume "x \<in> set ?xs"
    from idx [OF this] show "case x of (d, g, key) \<Rightarrow> case bm_get (st_values st) key of
            None \<Rightarrow> False | Some e \<Rightarrow> ent_generation e = g \<and> ent_expires e = Some d"
      by (auto simp: key_index_def)
  qed
  then show ?thesis by (simp add: due_keys_def)
qed

lemma due_keys_ok:
  assumes ok: "store_ok st"
  shows "distinct (due_keys now budget st)" "set (due_keys now budget st) \<subseteq> expired_keys now st"
    "length (due_keys now budget st) \<le> budget"
proof -
  let ?xs = "takeWhile (passed now) (take budget (st_expirations st))"
  note eq = due_keys_prefix [OF ok]
  have idx: "set ?xs \<subseteq> key_index (bm_get (st_values st))"
    using store_okD(5) [OF ok] set_takeWhileD in_set_takeD by fast
  have "distinct ?xs" using bs_ok_distinct [OF store_okD(2) [OF ok]] by (simp add: distinct_takeWhile)
  then show "distinct (due_keys now budget st)"
    using inj_on_subset [OF key_index_inj idx] by (simp only: eq distinct_map)
  show "set (due_keys now budget st) \<subseteq> expired_keys now st"
  proof
    fix k assume "k \<in> set (due_keys now budget st)"
    then obtain x where x: "x \<in> set ?xs" "k = (\<lambda>(_, _, k). k) x" by (auto simp only: eq set_map)
    have "passed now x" "x \<in> key_index (bm_get (st_values st))" using x(1) idx set_takeWhileD by fast+
    with x(2) show "k \<in> expired_keys now st" by (auto simp: key_index_def expired_keys_def entry_expired_def)
  qed
  have "length ?xs \<le> length (take budget (st_expirations st))" by (rule length_takeWhile_le)
  then show "length (due_keys now budget st) \<le> budget" by (simp add: eq)
qed

lemma due_keys_complete:
  assumes ok: "store_ok st" and n: "length (due_keys now budget st) < budget"
  shows "expired_keys now st \<subseteq> set (due_keys now budget st)"
proof
  fix k assume "k \<in> expired_keys now st"
  then obtain e d where e: "bm_get (st_values st) k = Some e" "ent_expires e = Some d" "d \<le> now"
    by (auto simp: expired_keys_def entry_expired_def split: option.splits)
  then have x: "(d, ent_generation e, k) \<in> set (st_expirations st)"
    using store_okD(5) [OF ok] by (simp add: key_index_def)
  have "due_keys now budget st = map (\<lambda>(_, _, k). k) (filter (passed now) (st_expirations st))"
    using n takeWhile_take [of "passed now" budget "st_expirations st"] takeWhile_passed [OF store_okD(2) [OF ok]]
    unfolding due_keys_prefix [OF ok] length_map by metis
  with x e(3) show "k \<in> set (due_keys now budget st)" by force
qed


section \<open>The batch\<close>

lemma removals_for_ok:
  assumes "distinct acc" "\<forall>x\<in>set acc. due st expired x"
  shows "distinct (removals_for key acc)" "length (removals_for key acc) \<le> length acc"
    "i \<in> set (removals_for key acc) \<longleftrightarrow> (\<exists>d. (d, key, i) \<in> set acc)"
proof -
  have "inj_on (\<lambda>(_, _, i). i) (set (filter (\<lambda>(_, k, _). k = key) acc))"
  proof (rule inj_onI)
    fix x y
    assume xy: "x \<in> set (filter (\<lambda>(_, k, _). k = key) acc)" "y \<in> set (filter (\<lambda>(_, k, _). k = key) acc)"
      "(\<lambda>(_, _, i). i) x = (\<lambda>(_, _, i). i) y"
    obtain d k i d' k' i' where p: "x = (d, k, i)" "y = (d', k', i')" by (metis surj_pair)
    then have "x = (d, key, i)" "y = (d', key, i)" using xy by auto
    moreover from this xy assms(2) have "due st expired (d, key, i)" "due st expired (d', key, i)" by auto
    ultimately show "x = y" by (auto simp: due_def split: option.splits)
  qed
  then show "distinct (removals_for key acc)" using assms(1) by (simp add: removals_for_def distinct_map)
  show "length (removals_for key acc) \<le> length acc" by (simp add: removals_for_def)
  show "i \<in> set (removals_for key acc) \<longleftrightarrow> (\<exists>d. (d, key, i) \<in> set acc)" by (force simp: removals_for_def)
qed

lemma expired_member_entries_map:
  assumes "\<forall>k edits. (k, edits) \<in> set rem \<longrightarrow> without_members st k (sort_key edit_id edits) = Some (f k)"
  shows "expired_member_entries st rem = Some (map (\<lambda>(k, _). (k, Some (f k))) rem)"
  using assms by (induction st rem rule: expired_member_entries.induct) auto

definition aged :: "int \<Rightarrow> entry \<Rightarrow> entry \<Rightarrow> bool" where
  "aged now e e' \<longleftrightarrow> ent_expires e' = ent_expires e \<and> ent_unix e' = ent_unix e
     \<and> (ent_value e' = ent_value e \<and> ent_deadlines e' = ent_deadlines e
        \<or> (\<exists>c c' ids. ent_value e = VMemory c \<and> ent_value e' = VMemory c'
             \<and> bm_get (coll_members c') = bm_get (coll_members c) |` (- ids)
             \<and> bm_get (ent_deadlines e') = bm_get (ent_deadlines e) |` (- ids)
             \<and> (\<forall>i\<in>ids. \<exists>d\<le>now. bm_get (ent_deadlines e) i = Some d)))"

text \<open>What \<open>prepare_expiration\<close> collects: the due keys, and for other keys the identifiers
  to remove, with the entry that is left.\<close>

definition trimmed :: "int \<Rightarrow> store \<Rightarrow> bytes set \<Rightarrow> bytes \<Rightarrow> entry \<Rightarrow> bool" where
  "trimmed now st ids k e' \<longleftrightarrow> entry_ok k e' \<and> (\<exists>e c c'. bm_get (st_values st) k = Some e
     \<and> ent_expires e' = ent_expires e \<and> ent_unix e' = ent_unix e
     \<and> entry_size k (ent_value e') \<le> entry_size k (ent_value e)
     \<and> ent_value e = VMemory c \<and> ent_value e' = VMemory c'
     \<and> bm_get (coll_members c') = bm_get (coll_members c) |` (- ids)
     \<and> bm_get (ent_deadlines e') = bm_get (ent_deadlines e) |` (- ids)
     \<and> (\<forall>i\<in>ids. \<exists>d\<le>now. bm_get (ent_deadlines e) i = Some d))"

lemma trim_entry:
  assumes ok: "store_ok st" and acc: "distinct acc" "\<forall>x\<in>set acc. due st expired x \<and> passed now x"
    and len: "length acc \<le> MAX_EDITS" and ne: "removals_for k acc \<noteq> []"
  obtains e' where "without_members st k (sort_key edit_id (map Remove (removals_for k acc))) = Some e'"
    "trimmed now st (set (removals_for k acc)) k e'" "k \<notin> set expired"
proof -
  have due: "\<forall>x\<in>set acc. due st expired x" using acc(2) by blast
  note ids = removals_for_ok [OF acc(1) due]
  obtain i0 where "i0 \<in> set (removals_for k acc)" using ne by (cases "removals_for k acc") auto
  then obtain d0 where "due st expired (d0, k, i0)" using ids(3) acc(2) by blast
  then obtain e where e: "bm_get (st_values st) k = Some e" and nk: "k \<notin> set expired"
    by (auto simp: due_def split: option.splits)
  have dl: "\<forall>i\<in>set (removals_for k acc). \<exists>d\<le>now. bm_get (ent_deadlines e) i = Some d"
  proof
    fix i assume "i \<in> set (removals_for k acc)"
    then obtain d where "(d, k, i) \<in> set acc" using ids(3) by blast
    with acc(2) e show "\<exists>d\<le>now. bm_get (ent_deadlines e) i = Some d" by (fastforce simp: due_def)
  qed
  then have dl': "\<forall>i\<in>set (removals_for k acc). bm_get (ent_deadlines e) i \<noteq> None" by fastforce
  have len': "length (removals_for k acc) \<le> MAX_EDITS" using ids(2) [of k] len by linarith
  obtain c c' e' where w: "without_members st k (sort_key edit_id (map Remove (removals_for k acc))) = Some e'"
    "entry_ok k e'" "entry_size k (ent_value e') \<le> entry_size k (ent_value e)" "ent_expires e' = ent_expires e"
    "ent_unix e' = ent_unix e" "ent_value e = VMemory c" "ent_value e' = VMemory c'"
    "bm_get (coll_members c') = bm_get (coll_members c) |` (- set (removals_for k acc))"
    "bm_get (ent_deadlines e') = bm_get (ent_deadlines e) |` (- set (removals_for k acc))"
    by (rule without_members_ok [OF store_okD(4) [OF ok e] e ids(1) ne dl' len'])
  show ?thesis
    by (rule that [OF w(1) _ nk]) (unfold trimmed_def, intro conjI exI [of _ e] exI [of _ c] exI [of _ c'], use w e dl in simp_all)
qed

lemma due_removals:
  assumes ok: "store_ok st" and B: "B = min budget MAX_EDITS" and expired: "expired = due_keys now B st"
    and acc: "acc = take (B - length expired) (filter (due st expired) (takeWhile (passed now) (st_members st)))"
  obtains rem f where "due_members B st expired (takeWhile (passed now) (st_members st)) (length expired) []
      = (length expired + length acc, rem)"
    "bm_ok rem" "expired_member_entries st rem = Some (map (\<lambda>(k, _). (k, Some (f k))) rem)"
    "\<And>k. k \<in> fst ` set rem \<longleftrightarrow> removals_for k acc \<noteq> []"
    "\<And>k. k \<in> fst ` set rem \<Longrightarrow> k \<notin> set expired \<and> trimmed now st (set (removals_for k acc)) k (f k)"
proof -
  let ?L = "takeWhile (passed now) (st_members st)"
  have le: "length expired \<le> B" unfolding expired by (rule due_keys_ok(3) [OF ok])
  obtain rem where rem: "due_members B st expired ?L (length expired) [] = (length expired + length acc, rem)" "bm_ok rem"
    "\<And>k es. bm_get rem k = Some es \<Longrightarrow> es \<noteq> []" "\<And>k. edits_at rem k = map Remove (removals_for k acc)"
    using due_members_eq [of "[]" "length expired" B st expired ?L] le by (auto simp: acc)
  have key: "k \<in> fst ` set rem \<longleftrightarrow> removals_for k acc \<noteq> []" for k
    using rem(3) [of k] rem(4) [of k] rem(2) by (auto simp: keys_bm split: option.splits)
  have d: "distinct acc" using bs_ok_distinct [OF store_okD(3) [OF ok]] by (simp add: acc distinct_takeWhile)
  have due: "\<forall>x\<in>set acc. due st expired x \<and> passed now x"
  proof
    fix x assume "x \<in> set acc"
    then have "x \<in> set (filter (due st expired) ?L)" unfolding acc by (rule in_set_takeD)
    then show "due st expired x \<and> passed now x" using set_takeWhileD [of x "passed now" "st_members st"] by simp
  qed
  have "length acc \<le> B" by (simp add: acc min.coboundedI2)
  then have len: "length acc \<le> MAX_EDITS" using B by linarith
  define f where "f k = the (without_members st k (sort_key edit_id (edits_at rem k)))" for k
  have facts: "without_members st k (sort_key edit_id (edits_at rem k)) = Some (f k)
      \<and> k \<notin> set expired \<and> trimmed now st (set (removals_for k acc)) k (f k)" if "k \<in> fst ` set rem" for k
  proof -
    have "removals_for k acc \<noteq> []" using that key by blast
    then obtain e' where "without_members st k (sort_key edit_id (map Remove (removals_for k acc))) = Some e'"
      "trimmed now st (set (removals_for k acc)) k e'" "k \<notin> set expired"
      by (rule trim_entry [OF ok d due len])
    then show ?thesis by (simp add: f_def rem(4))
  qed
  have ex: "expired_member_entries st rem = Some (map (\<lambda>(k, _). (k, Some (f k))) rem)"
  proof (rule expired_member_entries_map, intro allI impI)
    fix k edits assume "(k, edits) \<in> set rem"
    then have "edits_at rem k = edits" "k \<in> fst ` set rem" using bm_get_mem [OF rem(2)] by force+
    with facts [of k] show "without_members st k (sort_key edit_id edits) = Some (f k)" by auto
  qed
  show ?thesis by (rule that [OF rem(1,2) ex key]) (use facts in blast)+
qed


lemma maintenance_entries:
  fixes f :: "bytes \<Rightarrow> entry"
  assumes "distinct expired" "bm_ok rem" "\<And>k. k \<in> fst ` set rem \<Longrightarrow> k \<notin> set expired"
    and es_def: "es = map (\<lambda>k. (k, None)) expired @ map (\<lambda>(k, _). (k, Some (f k))) rem"
  shows "distinct (map fst es)" "fst ` set es = set expired \<union> fst ` set rem"
    "map_of es k = (if k \<in> set expired then Some None else if k \<in> fst ` set rem then Some (Some (f k)) else None)"
proof -
  have fst_es: "map fst es = expired @ map fst rem" by (simp add: es_def comp_def case_prod_unfold)
  show "distinct (map fst es)" using assms(1-3) bm_ok_distinct [OF assms(2)] by (auto simp: fst_es)
  show "fst ` set es = set expired \<union> fst ` set rem" using arg_cong [OF fst_es, of set] by simp
  have "map_of (map (\<lambda>k. (k, None :: entry option)) expired) k = (if k \<in> set expired then Some None else None)"
    by (induction expired) auto
  moreover have "map_of (map (\<lambda>(k, _). (k, Some (f k))) rem) k = (if k \<in> fst ` set rem then Some (Some (f k)) else None)"
    by (induction rem) auto
  ultimately show "map_of es k = (if k \<in> set expired then Some None else if k \<in> fst ` set rem then Some (Some (f k)) else None)"
    by (simp add: es_def map_add_def)
qed

lemma trimmed_size: "trimmed now st ids k e' \<Longrightarrow> entry_ok k e' \<and> entry_size k (ent_value e') \<le> key_size k st"
  by (auto simp: trimmed_def key_size_def)

lemma trimmed_aged:
  assumes "trimmed now st ids k e'"
  shows "\<exists>e. stored st k = Some e \<and> aged now e (unstamped e')"
proof -
  obtain e c c' where e: "bm_get (st_values st) k = Some e"
    "ent_expires e' = ent_expires e" "ent_unix e' = ent_unix e" "ent_value e = VMemory c" "ent_value e' = VMemory c'"
    "bm_get (coll_members c') = bm_get (coll_members c) |` (- ids)"
    "bm_get (ent_deadlines e') = bm_get (ent_deadlines e) |` (- ids)"
    "\<forall>i\<in>ids. \<exists>d\<le>now. bm_get (ent_deadlines e) i = Some d"
    using assms by (auto simp: trimmed_def)
  then have "aged now (unstamped e) (unstamped e')"
    unfolding aged_def unstamped_def by auto
  with e(1) show ?thesis by (simp add: stored_def)
qed

lemma aged_refl: "aged now e e"
  by (simp add: aged_def)

lemma due_member_removed:
  assumes ok: "store_ok st" and e: "bm_get (st_values st) k = Some e" "k \<notin> set expired"
    and d: "bm_get (ent_deadlines e) i = Some d" "d \<le> now"
  shows "i \<in> set (removals_for k (filter (due st expired) (takeWhile (passed now) (st_members st))))"
proof -
  have "bm_ok (ent_deadlines e)" using store_okD(4) [OF ok e(1)] by (simp add: entry_ok_def)
  then have "(d, k, i) \<in> set (st_members st)"
    using store_okD(6) [OF ok] e(1) d(1) bm_get_mem [of "ent_deadlines e" i d] by (auto simp: member_index_def)
  then have "(d, k, i) \<in> set (filter (due st expired) (filter (passed now) (st_members st)))"
    using e d by (simp add: due_def)
  then show ?thesis
    unfolding takeWhile_passed [OF store_okD(3) [OF ok]] removals_for_def by force
qed

lemma trimmed_deadline:
  assumes "trimmed now st ids k e'" "bm_get (ent_deadlines e') i = Some d"
  obtains e where "bm_get (st_values st) k = Some e" "bm_get (ent_deadlines e) i = Some d" "i \<notin> ids"
  using assms by (auto simp: trimmed_def restrict_map_def split: if_splits)

lemma prepare_expiration_batch:
  assumes ok: "store_ok st"
  obtains p n st' where "prepare_expiration t budget st = Some p" "batch_ok st p" "logged p = map entry_mutation (pr_entries p)"
    "apply_prepared p st = Some (RInteger (int n), st')" "n \<le> min budget MAX_EDITS" "store_ok st'"
    "st_quota st' = st_quota st" "st_used st' \<le> st_used st"
    "\<And>k. stored st' k = None \<Longrightarrow> stored st k \<noteq> None \<Longrightarrow> k \<in> expired_keys (t_now t) st"
    "\<And>k e'. stored st' k = Some e' \<Longrightarrow> \<exists>e. stored st k = Some e \<and> aged (t_now t) e e'"
    "\<And>k. n < min budget MAX_EDITS \<Longrightarrow> k \<in> expired_keys (t_now t) st \<Longrightarrow> stored st' k = None"
    "\<And>k e' i d. n < min budget MAX_EDITS \<Longrightarrow> stored st' k = Some e' \<Longrightarrow> bm_get (ent_deadlines e') i = Some d \<Longrightarrow> t_now t < d"
proof -
  let ?now = "t_now t"
  define B where "B = min budget MAX_EDITS"
  define expired where "expired = due_keys ?now B st"
  let ?F = "filter (due st expired) (takeWhile (passed ?now) (st_members st))"
  define acc where "acc = take (B - length expired) ?F"
  obtain rem f where r: "due_members B st expired (takeWhile (passed ?now) (st_members st)) (length expired) []
      = (length expired + length acc, rem)"
    and rem: "bm_ok rem" and es: "expired_member_entries st rem = Some (map (\<lambda>(k, _). (k, Some (f k))) rem)"
    and key: "\<And>k. k \<in> fst ` set rem \<longleftrightarrow> removals_for k acc \<noteq> []"
    and fk: "\<And>k. k \<in> fst ` set rem \<Longrightarrow> k \<notin> set expired \<and> trimmed ?now st (set (removals_for k acc)) k (f k)"
    by (rule due_removals [OF ok B_def expired_def acc_def]) blast
  define es where "es = map (\<lambda>k. (k, None)) expired @ map (\<lambda>(k, _). (k, Some (f k))) rem"
  define n where "n = length expired + length acc"
  define p where "p = prepared_of (RInteger (int n)) es Expiration st"
  have prep: "prepare_expiration t budget st = Some p"
    using r es by (simp add: prepare_expiration_def B_def [symmetric] expired_def [symmetric] p_def n_def es_def Let_def)
  note exp = due_keys_ok [OF ok, of ?now B, folded expired_def]
  have E: "distinct (map fst es)" "fst ` set es = set expired \<union> fst ` set rem"
    "\<And>k. map_of es k = (if k \<in> set expired then Some None else if k \<in> fst ` set rem then Some (Some (f k)) else None)"
    using maintenance_entries [OF exp(1) rem _ es_def] fk by blast+
  have each: "option_size k e \<le> key_size k st \<and> (\<forall>e'. e = Some e' \<longrightarrow> entry_ok k e')" if "(k, e) \<in> set es" for k e
  proof -
    from that consider "e = None" | "e = Some (f k)" "k \<in> fst ` set rem" by (force simp: es_def)
    then show ?thesis
    proof cases
      case 2
      with fk [of k] have "trimmed ?now st (set (removals_for k acc)) k (f k)" by blast
      with 2 trimmed_size show ?thesis by auto
    qed simp
  qed
  have size: "entries_size es \<le> keys_size (map fst es) st"
    unfolding list.map_comp comp_def by (rule sum_list_mono) (use each in auto)
  have room: "st_used st - keys_size (map fst es) st + entries_size es \<le> st_used st"
    using size keys_size_le [OF ok E(1)] by linarith
  have b: "batch_ok st p"
    using E(1) each room store_okD(8) [OF ok] by (simp add: batch_ok_def p_def)
  obtain st' where a: "apply_prepared p st = Some (pr_reply p, st')" "store_ok st'" "st_quota st' = st_quota st"
    "st_used st' = st_used st - keys_size (map fst (pr_entries p)) st + entries_size (pr_entries p)"
    "stored st' = (\<lambda>k. case map_of (pr_entries p) k of None \<Rightarrow> stored st k | Some e \<Rightarrow> map_option unstamped e)"
    by (rule apply_prepared_ok [OF ok b])
  have st': "stored st' k = (if k \<in> set expired then None else if k \<in> fst ` set rem then Some (unstamped (f k)) else stored st k)" for k
    by (simp add: a(5) p_def E(3))
  show ?thesis
  proof (rule that [OF prep b _ _ _ a(2,3)])
    show "logged p = map entry_mutation (pr_entries p)" by (simp add: p_def)
    show "apply_prepared p st = Some (RInteger (int n), st')" using a(1) by (simp add: p_def)
    show "n \<le> min budget MAX_EDITS" using exp(3) unfolding B_def [symmetric] n_def acc_def length_take by linarith
    show "st_used st' \<le> st_used st" using a(4) room by (simp add: p_def)
    show "k \<in> expired_keys ?now st" if "stored st' k = None" "stored st k \<noteq> None" for k
      using that exp(2) by (auto simp: st' split: if_splits)
    show "\<exists>e. stored st k = Some e \<and> aged ?now e e'" if "stored st' k = Some e'" for k e'
      using that trimmed_aged fk [of k] aged_refl by (auto simp: st' split: if_splits)
    show "stored st' k = None" if n: "n < min budget MAX_EDITS" and k: "k \<in> expired_keys ?now st" for k
    proof -
      have "length expired < B" using n unfolding n_def B_def by linarith
      then show ?thesis using due_keys_complete [OF ok, of ?now B] k by (auto simp: st' expired_def)
    qed
    show "?now < d" if n: "n < min budget MAX_EDITS" and x: "stored st' k = Some e'" "bm_get (ent_deadlines e') i = Some d" for k e' i d
    proof (rule ccontr)
      assume late: "\<not> ?now < d"
      have "length acc < B - length expired" using n unfolding n_def B_def by linarith
      then have acc: "acc = ?F" by (simp add: acc_def)
      obtain e where e: "bm_get (st_values st) k = Some e" "bm_get (ent_deadlines e) i = Some d"
        "i \<notin> set (removals_for k acc)" "k \<notin> set expired"
      proof (cases "k \<in> fst ` set rem")
        case True
        with x fk [OF True] have "bm_get (ent_deadlines (f k)) i = Some d" by (auto simp: st' unstamped_def)
        with fk [OF True] that show thesis by (metis trimmed_deadline)
      next
        case False
        with x(1) have s: "k \<notin> set expired" "stored st k = Some e'" by (auto simp: st' split: if_splits)
        then obtain e where "bm_get (st_values st) k = Some e" "bm_get (ent_deadlines e) i = Some d"
          using x(2) by (auto simp: stored_def unstamped_def)
        with s(1) that False key show thesis by auto
      qed
      with due_member_removed [OF ok e(1,4,2)] late acc show False by simp
    qed
  qed
qed


text \<open>
  C16. A maintenance batch is bounded, removes only what is due, and finishes: for any
  budget the batch is prepared and applied without panic and counts at most the
  budget (and at most 64) events; every key it removes has passed its deadline,
  every entry it changes loses only members past theirs; and when it counts fewer
  events than allowed, no key and no member past its deadline is left.
\<close>

theorem prepare_expiration_sound:
  assumes "store_ok st"
  shows "\<exists>p n st'. prepare_expiration t budget st = Some p \<and> apply_prepared p st = Some (RInteger (int n), st')
    \<and> n \<le> min budget MAX_EDITS \<and> store_ok st' \<and> st_used st' \<le> st_used st
    \<and> (\<forall>k. stored st' k = None \<longrightarrow> stored st k \<noteq> None \<longrightarrow> k \<in> expired_keys (t_now t) st)
    \<and> (\<forall>k e'. stored st' k = Some e' \<longrightarrow> (\<exists>e. stored st k = Some e \<and> aged (t_now t) e e'))
    \<and> (n < min budget MAX_EDITS \<longrightarrow> (\<forall>k\<in>expired_keys (t_now t) st. stored st' k = None)
        \<and> (\<forall>k e' i d. stored st' k = Some e' \<longrightarrow> bm_get (ent_deadlines e') i = Some d \<longrightarrow> t_now t < d))"
  by (rule prepare_expiration_batch [OF assms, of t budget]) blast

theorem prepare_expiration_sound_witness:
  "\<exists>p n st'. prepare_expiration \<lparr>t_now = 9, t_unix = 0\<rparr> 5 sample_store = Some p
    \<and> apply_prepared p sample_store = Some (RInteger (int n), st') \<and> n \<le> 5 \<and> store_ok st'
    \<and> (n < 5 \<longrightarrow> stored st' ''b'' = None)"
proof -
  have "''b'' \<in> expired_keys 9 sample_store"
    by (auto simp: expired_keys_def sample_store_def sample_entry_def entry_expired_def)
  with prepare_expiration_sound [OF sample_store_ok, of "\<lparr>t_now = 9, t_unix = 0\<rparr>" 5] show ?thesis
    by (auto simp: MAX_EDITS_def)
qed

end
