(* ===== verification/Replay_Correct.thy ===== *)
theory Replay_Correct
  imports Expiration_Correct
begin

text \<open>
  Replay: what a batch of mutations does to a store, snapshots, and recovery of the
  durable state from a log of batches.
\<close>

section \<open>The durable state\<close>

text \<open>Value and absolute deadline of a key, without what has elapsed at \<open>t\<close>; a memory
  collection keeps its elapsed members and is never dropped by replay.\<close>

definition durable :: "sample \<Rightarrow> store \<Rightarrow> bytes \<Rightarrow> (value \<times> int option) option" where
  "durable t st k =
     opt_filter (\<lambda>(v, d). \<not> elapsed t v d) (map_option (\<lambda>e. (ent_value e, ent_unix e)) (bm_get (st_values st) k))"

fun mutation_ok :: "mutation \<Rightarrow> bool" where
  "mutation_ok (Put key v d) = value_ok v"
| "mutation_ok (Delete key) = True"

definition mutation_effect :: "sample \<Rightarrow> mutation \<Rightarrow> (value \<times> int option) option" where
  "mutation_effect t mu =
     (case mu of Put key v d \<Rightarrow> if elapsed t v d then None else Some (v, d) | Delete key \<Rightarrow> None)"

abbreviation entry_effect :: "entry option \<Rightarrow> (value \<times> int option) option" where
  "entry_effect e \<equiv> map_option (\<lambda>e. (ent_value e, ent_unix e)) e"

lemma durable_stored: "stored st k = stored st' k \<Longrightarrow> durable t st k = durable t st' k"
proof -
  have "map_option (\<lambda>e. (ent_value e, ent_unix e)) (bm_get (st_values s) k)
      = map_option (\<lambda>e. (ent_value e, ent_unix e)) (stored s k)" for s
    by (simp add: stored_def option.map_comp comp_def unstamped_def)
  then show "stored st k = stored st' k \<Longrightarrow> ?thesis" by (simp add: durable_def)
qed

section \<open>Preparing a replay\<close>

lemma replay_base_distinct:
  "replay_base ms keys used st = Inr u \<Longrightarrow> bs_ok keys \<Longrightarrow>
     distinct (map mutation_key ms) \<and> set (map mutation_key ms) \<inter> set keys = {}"
proof (induction ms arbitrary: keys used)
  case (Cons mu ms)
  obtain used' where "mutation_key mu \<notin> set keys" "replay_base ms (bs_insert (mutation_key mu) keys) used' st = Inr u"
    using Cons.prems(1) by (auto simp: Let_def result_simps)
  with Cons.IH [of "bs_insert (mutation_key mu) keys" used'] Cons.prems(2) show ?case by auto
qed simp

lemma replay_base_eq:
  assumes "store_ok st" "bs_ok keys" "distinct (map mutation_key ms)" "set (map mutation_key ms) \<inter> set keys = {}"
    and "keys_size (map mutation_key ms) st \<le> used" "used \<le> USIZE_MAX"
  shows "replay_base ms keys used st = Inr (used - keys_size (map mutation_key ms) st)"
  using assms(2-)
proof (induction ms arbitrary: keys used)
  case (Cons mu ms)
  let ?k = "mutation_key mu"
  have "replay_base (mu # ms) keys used st = replay_base ms (bs_insert ?k keys) (used - key_size ?k st) st"
  proof (cases "bm_get (st_values st) ?k")
    case None
    with Cons.prems(3) show ?thesis by (simp add: key_size_def Let_def)
  next
    case (Some e)
    have "entry_bytes ?k (ent_value e) = Some (key_size ?k st)"
      using entry_ok_bytes [OF store_okD(4) [OF assms(1) Some]] Some by (simp add: key_size_def)
    with Cons.prems Some show ?thesis by (simp add: Let_def wrapping_sub_ok)
  qed
  with Cons.IH [of "bs_insert ?k keys" "used - key_size ?k st"] Cons.prems show ?case by auto
qed simp

lemma replay_put_ok:
  assumes "replay_put t st key v d used = Inr (e, used')" "value_ok v"
  shows "entry_ok key e \<and> ent_value e = v \<and> ent_unix e = d \<and> used' = used + entry_size key v"
proof -
  obtain x n ds where r: "case v of VMemory c \<Rightarrow> validate_key c key = Inr () | _ \<Rightarrow> True"
    "replay_expires t d = Inr x" "entry_bytes key v = Some n" "used' = used + n"
    "resolve_member_deadlines t key v st = Inr ds"
    "e = \<lparr>ent_value = v, ent_expires = x, ent_unix = d, ent_generation = 0, ent_deadlines = ds\<rparr>"
    using assms(1) by (auto simp: result_simps checked_simps split: value_splits)
  have "x = None \<longleftrightarrow> d = None" using r(2) by (auto simp: replay_expires_def result_simps split: option.splits)
  moreover have "memory_key_ok key v" using r(1) by (simp add: memory_key_ok_def split: value_splits)
  ultimately show ?thesis
    using r assms(2) resolve_member_deadlines_ok [OF r(5) assms(2)] entry_bytes_Some [OF r(3)]
    by (simp add: entry_ok_def)
qed

lemma replay_entries_ok:
  assumes "replay_entries t st ms used = Inr (es, used')" "\<forall>mu\<in>set ms. mutation_ok mu"
  shows "map fst es = map mutation_key ms \<and> used' = used + entries_size es
    \<and> (\<forall>k e. (k, Some e) \<in> set es \<longrightarrow> entry_ok k e) \<and> map (\<lambda>x. entry_effect (snd x)) es = map (mutation_effect t) ms"
  using assms
proof (induction t st ms used arbitrary: es used' rule: replay_entries.induct)
  case (2 t st key ms used)
  then obtain es1 where "replay_entries t st ms used = Inr (es1, used')" "es = (key, None) # es1"
    by (auto simp: result_simps)
  with "2.IH" "2.prems"(2) show ?case by (auto simp: mutation_effect_def)
next
  case (3 t st key v d ms used)
  show ?case
  proof (cases "elapsed t v d")
    case True
    with "3.prems"(1) obtain es1 where "replay_entries t st ms used = Inr (es1, used')" "es = (key, None) # es1"
      by (auto simp: result_simps)
    with "3.IH"(1) [OF True] "3.prems"(2) True show ?thesis by (auto simp: mutation_effect_def)
  next
    case False
    with "3.prems"(1) obtain e u es1 where r: "replay_put t st key v d used = Inr (e, u)"
      "replay_entries t st ms u = Inr (es1, used')" "es = (key, Some e) # es1"
      by (auto simp: result_simps simp del: replay_put.simps)
    have "value_ok v" using "3.prems"(2) by simp
    note e = replay_put_ok [OF r(1) this]
    have "map fst es1 = map mutation_key ms \<and> used' = u + entries_size es1
      \<and> (\<forall>k e. (k, Some e) \<in> set es1 \<longrightarrow> entry_ok k e) \<and> map (\<lambda>x. entry_effect (snd x)) es1 = map (mutation_effect t) ms"
      using "3.IH"(2) [OF False r(1) refl r(2)] "3.prems"(2) by simp
    with e False r(3) show ?thesis by (auto simp: mutation_effect_def)
  qed
qed simp


lemma prepare_replay_Inr:
  assumes ok: "store_ok st" and m: "\<forall>mu\<in>set ms. mutation_ok mu" and p: "prepare_replay t ms origin st = Inr p"
  obtains st' where "apply_prepared p st = Some (ROk, st')" "store_ok st'" "st_quota st' = st_quota st"
    "st_used st' \<le> st_quota st" "distinct (map mutation_key ms)"
    "\<And>k. k \<notin> mutation_key ` set ms \<Longrightarrow> stored st' k = stored st k"
    "\<And>mu. mu \<in> set ms \<Longrightarrow> entry_effect (bm_get (st_values st') (mutation_key mu)) = mutation_effect t mu"
proof -
  let ?ks = "map mutation_key ms"
  obtain used es used' where r: "replay_base ms [] (st_used st) st = Inr used"
    "replay_entries t st ms used = Inr (es, used')" "used' \<le> st_quota st" "p = prepared_of ROk es origin st"
    using p by (auto simp: prepare_replay_def result_simps)
  have dist: "distinct ?ks" using replay_base_distinct [OF r(1)] by simp
  have used: "used = st_used st - keys_size ?ks st"
    using replay_base_eq [OF ok _ dist, of "[]" "st_used st"] keys_size_le [OF ok dist] store_okD(8) [OF ok] r(1) by simp
  have es: "map fst es = ?ks" "used' = used + entries_size es" "\<forall>k e. (k, Some e) \<in> set es \<longrightarrow> entry_ok k e"
    "map (\<lambda>x. entry_effect (snd x)) es = map (mutation_effect t) ms"
    using replay_entries_ok [OF r(2) m] by simp_all
  have fields: "pr_entries p = es" "pr_generation p = st_generation st" "pr_reply p = ROk"
    by (simp_all add: r(4) prepared_of_def)
  have "batch_ok st p"
    using dist es(1-3) used r(3) store_okD(10) [OF ok] fields by (simp add: batch_ok_def USIZE_MAX_def ISIZE_MAX_def)
  then obtain st' where 1: "apply_prepared p st = Some (pr_reply p, st')" "store_ok st'" "st_quota st' = st_quota st"
    "st_used st' = st_used st - keys_size (map fst (pr_entries p)) st + entries_size (pr_entries p)"
    "stored st' = (\<lambda>k. case map_of (pr_entries p) k of None \<Rightarrow> stored st k | Some e \<Rightarrow> map_option unstamped e)"
    by (rule apply_prepared_ok [OF ok])
  have eff: "entry_effect (bm_get (st_values st') (mutation_key mu)) = mutation_effect t mu" if mu: "mu \<in> set ms" for mu
  proof -
    obtain i where i: "i < length ms" "mu = ms ! i" using mu by (metis in_set_conv_nth)
    have len: "length es = length ms" using es(1) by (metis length_map)
    have "fst (es ! i) = mutation_key mu" using es(1) i len by (metis nth_map)
    moreover have "entry_effect (snd (es ! i)) = mutation_effect t mu" using es(4) i len by (metis (no_types, lifting) nth_map)
    moreover have "map_of es (fst (es ! i)) = Some (snd (es ! i))"
      using dist es(1) i(1) len by (intro map_of_is_SomeI) simp_all
    ultimately have "map_option unstamped (snd (es ! i)) = stored st' (mutation_key mu)"
      "entry_effect (snd (es ! i)) = mutation_effect t mu"
      by (simp_all add: 1(5) fields)
    moreover have "entry_effect e = entry_effect (map_option unstamped e)" for e
      by (simp add: option.map_comp comp_def unstamped_def)
    ultimately show ?thesis unfolding stored_def by metis
  qed
  have "stored st' k = stored st k" if "k \<notin> mutation_key ` set ms" for k
  proof -
    have "map_of es k = None" using that es(1) by (metis image_set map_of_eq_None_iff set_map)
    then show ?thesis by (simp add: 1(5) fields)
  qed
  with that [of st'] 1 eff fields es used r(3) dist show ?thesis by simp
qed

text \<open>
  C18. Replay installs exactly the batch: from a well-formed store a replay that is
  accepted never panics, leaves a well-formed store within its quota and other keys
  untouched, and gives every key of the batch its value and absolute deadline, or
  removes it when it is deleted or its deadline has elapsed (memory collections
  excepted).
\<close>

theorem replay_installs:
  assumes "store_ok st" "\<forall>mu\<in>set ms. mutation_ok mu" "replay t ms st = Inr res"
  shows "\<exists>st'. res = Some st' \<and> store_ok st' \<and> st_used st' \<le> st_quota st
    \<and> (\<forall>k. k \<notin> mutation_key ` set ms \<longrightarrow> stored st' k = stored st k)
    \<and> (\<forall>mu\<in>set ms. entry_effect (bm_get (st_values st') (mutation_key mu)) = mutation_effect t mu)"
proof -
  obtain p where p: "prepare_replay t ms Client st = Inr p" "res = map_option snd (apply_prepared p st)"
    using assms(3) by (auto simp: replay_def result_simps)
  obtain st' where "apply_prepared p st = Some (ROk, st')" "store_ok st'" "st_used st' \<le> st_quota st"
    "\<And>k. k \<notin> mutation_key ` set ms \<Longrightarrow> stored st' k = stored st k"
    "\<And>mu. mu \<in> set ms \<Longrightarrow> entry_effect (bm_get (st_values st') (mutation_key mu)) = mutation_effect t mu"
    by (rule prepare_replay_Inr [OF assms(1,2) p(1)]) blast
  with p(2) show ?thesis by auto
qed


section \<open>Acceptance\<close>

text \<open>Clock readings and deadlines are \<open>i64\<close> milliseconds; an instant leaves room for
  every such deadline.\<close>

definition clock_ok :: "sample \<Rightarrow> bool" where
  "clock_ok t \<longleftrightarrow> i64_ok (t_unix t) \<and> t_now t < 9000000000000000000000000000"

fun deadlines_i64 :: "mutation \<Rightarrow> bool" where
  "deadlines_i64 (Put key v d) \<longleftrightarrow> (\<forall>x. d = Some x \<longrightarrow> i64_ok x)
     \<and> (\<forall>c ident m x. v = VMemory c \<longrightarrow> (ident, m) \<in> set (coll_members c) \<longrightarrow> mem_deadline m = Some x \<longrightarrow> i64_ok x)"
| "deadlines_i64 (Delete key) \<longleftrightarrow> True"

lemma instant_room: "clock_ok t \<Longrightarrow> i64_ok d \<Longrightarrow> instant_checked_add (t_now t) (duration_from_millis (d - t_unix t)) \<noteq> None"
  by (auto simp: clock_ok_def i64_ok_def I64_MAX_def I64_MIN_def instant_checked_add_def duration_from_millis_def
      NANOS_PER_MILLI_def)

lemma replay_deadline_total: "clock_ok t \<Longrightarrow> i64_ok d \<Longrightarrow> \<exists>x. replay_deadline t d = Inr x"
  using instant_room [of t d]
  by (auto simp: replay_deadline_def Let_def clock_ok_def i64_ok_def I64_MAX_def I64_MIN_def ensure_def ok_or_def)

lemma member_deadline_total: "clock_ok t \<Longrightarrow> i64_ok d \<Longrightarrow> \<exists>x. member_deadline previous t ident d = Inr x"
  using instant_room [of t d]
  by (auto simp: member_deadline_def Let_def clock_ok_def i64_ok_def I64_MAX_def I64_MIN_def ensure_def ok_or_def
      split: option.split)

lemma resolve_members_total:
  assumes "clock_ok t" "\<And>ident m x. (ident, m) \<in> set ms \<Longrightarrow> mem_deadline m = Some x \<Longrightarrow> i64_ok x"
  shows "\<exists>ds. resolve_members previous t ms acc = Inr ds"
  using assms(2)
proof (induction ms arbitrary: acc)
  case (Cons im ms)
  obtain i m where im: "im = (i, m)" by (cases im)
  have IH: "\<exists>ds. resolve_members previous t ms acc' = Inr ds" for acc'
    by (rule Cons.IH) (use Cons.prems in auto)
  show ?case
  proof (cases "mem_deadline m")
    case (Some d)
    then obtain x where "member_deadline previous t i d = Inr x"
      using member_deadline_total [OF assms(1), of d previous i] Cons.prems [of i m d] im by auto
    with IH [of "bm_insert i x acc"] Some im show ?thesis by simp
  qed (use IH im in simp)
qed simp

lemma replay_put_total:
  assumes "clock_ok t" "deadlines_i64 (Put key v d)" "memory_key_ok key v" "value_ok v"
    and "used + entry_size key v \<le> USIZE_MAX"
  shows "\<exists>e. replay_put t st key v d used = Inr (e, used + entry_size key v)"
proof -
  have "\<exists>x. replay_expires t d = Inr x"
    using replay_deadline_total [OF assms(1)] assms(2) by (cases d) (force simp: replay_expires_def)+
  moreover have "\<exists>ds. resolve_member_deadlines t key v st = Inr ds"
    using resolve_members_total [OF assms(1)] assms(2)
    by (auto simp: resolve_member_deadlines_def split: value_split)
  moreover have "entry_bytes key v = Some (entry_size key v)" using assms(4,5) by (simp add: entry_bytes_eq)
  ultimately show ?thesis
    using assms(3,5) by (auto simp: memory_key_ok_def checked_add_ok split: value_splits)
qed

fun replayed_size :: "sample \<Rightarrow> mutation \<Rightarrow> nat" where
  "replayed_size t (Put key v d) = (if elapsed t v d then 0 else entry_size key v)"
| "replayed_size t (Delete key) = 0"

fun mutation_memory_ok :: "mutation \<Rightarrow> bool" where
  "mutation_memory_ok (Put key v d) = memory_key_ok key v"
| "mutation_memory_ok (Delete key) = True"

abbreviation replayed_sizes :: "sample \<Rightarrow> mutation list \<Rightarrow> nat" where
  "replayed_sizes t ms \<equiv> sum_list (map (replayed_size t) ms)"

lemma replay_entries_total:
  assumes "clock_ok t" "\<forall>mu\<in>set ms. deadlines_i64 mu \<and> mutation_memory_ok mu \<and> mutation_ok mu"
    and "used + replayed_sizes t ms \<le> USIZE_MAX"
  shows "\<exists>es. replay_entries t st ms used = Inr (es, used + replayed_sizes t ms)"
  using assms(2,3)
proof (induction ms arbitrary: used)
  case (Cons mu ms)
  show ?case
  proof (cases mu)
    case (Delete key)
    with Cons show ?thesis by fastforce
  next
    case (Put key v d)
    show ?thesis
    proof (cases "elapsed t v d")
      case True
      with Cons Put show ?thesis by fastforce
    next
      case False
      obtain e where e: "replay_put t st key v d used = Inr (e, used + entry_size key v)"
        using replay_put_total [OF assms(1), of key v d used st] Cons.prems Put False by auto
      have "used + entry_size key v + replayed_sizes t ms \<le> USIZE_MAX" using Cons.prems(2) Put False by simp
      with Cons.IH [of "used + entry_size key v"] Cons.prems(1) obtain es where
        "replay_entries t st ms (used + entry_size key v) = Inr (es, used + entry_size key v + replayed_sizes t ms)"
        by auto
      with e Put False show ?thesis by (simp add: add.assoc del: replay_put.simps)
    qed
  qed
qed simp

lemma prepare_replay_total:
  assumes ok: "store_ok st" and d: "distinct (map mutation_key ms)" and c: "clock_ok t"
    and ms: "\<forall>mu\<in>set ms. deadlines_i64 mu \<and> mutation_memory_ok mu \<and> mutation_ok mu"
    and room: "st_used st - keys_size (map mutation_key ms) st + replayed_sizes t ms \<le> st_quota st"
  shows "\<exists>p. prepare_replay t ms origin st = Inr p"
proof -
  let ?u = "st_used st - keys_size (map mutation_key ms) st"
  have "replay_base ms [] (st_used st) st = Inr ?u"
    using replay_base_eq [OF ok _ d, of "[]"] keys_size_le [OF ok d] store_okD(8) [OF ok] by simp
  moreover have "?u + replayed_sizes t ms \<le> USIZE_MAX"
    using room store_okD(10) [OF ok] by (simp add: USIZE_MAX_def ISIZE_MAX_def)
  moreover from this obtain es where "replay_entries t st ms ?u = Inr (es, ?u + replayed_sizes t ms)"
    using replay_entries_total [OF c ms, of ?u st] by blast
  ultimately show ?thesis using room by (simp add: prepare_replay_def)
qed


section \<open>Recovery\<close>

lemma sum_by_key:
  "distinct (map fst vs) \<Longrightarrow> sum_list (map (\<lambda>(k, e). g k e) vs) = (\<Sum>k\<in>fst ` set vs. g k (the (map_of vs k)) :: nat)"
proof (induction vs)
  case (Cons ke vs)
  obtain k e where ke: "ke = (k, e)" by (cases ke)
  have new: "k \<notin> fst ` set vs" using Cons.prems ke by auto
  have "(\<Sum>k'\<in>fst ` set vs. g k' (the (map_of (ke # vs) k'))) = (\<Sum>k'\<in>fst ` set vs. g k' (the (map_of vs k')))"
    by (rule sum.cong) (use new ke in auto)
  with Cons new ke show ?case by simp
qed simp

lemma total_size_mono:
  assumes ok: "bm_ok m" "bm_ok m'"
    and sub: "\<And>k e. bm_get m k = Some e \<Longrightarrow> \<exists>e'. bm_get m' k = Some e' \<and> ent_value e' = ent_value e"
  shows "total_size m \<le> total_size m'"
proof -
  let ?f = "\<lambda>m k. entry_size k (ent_value (the (map_of m k)))"
  have eq: "total_size m = (\<Sum>k\<in>fst ` set m. ?f m k)" if "bm_ok m" for m
    unfolding total_size_def by (rule sum_by_key [OF bm_ok_distinct [OF that]])
  have keys: "fst ` set m \<subseteq> fst ` set m'"
  proof
    fix k assume "k \<in> fst ` set m"
    then obtain e where "bm_get m k = Some e" by (metis map_of_eq_None_iff not_None_eq)
    with sub obtain e' where "bm_get m' k = Some e'" by blast
    then show "k \<in> fst ` set m'" by (metis map_of_eq_None_iff option.distinct(1))
  qed
  have "(\<Sum>k\<in>fst ` set m. ?f m k) = (\<Sum>k\<in>fst ` set m. ?f m' k)"
  proof (rule sum.cong [OF refl])
    fix k assume "k \<in> fst ` set m"
    then obtain e where e: "bm_get m k = Some e" by (metis map_of_eq_None_iff not_None_eq)
    from sub [OF this] e show "?f m k = ?f m' k" by auto
  qed
  also have "\<dots> \<le> (\<Sum>k\<in>fst ` set m'. ?f m' k)" by (rule sum_mono2 [OF _ keys]) simp_all
  finally show ?thesis by (simp only: eq [OF ok(1)] eq [OF ok(2)])
qed

text \<open>\<open>st'\<close> holds the durable state of \<open>st\<close> and nothing that has elapsed.\<close>

definition mirrors :: "sample \<Rightarrow> store \<Rightarrow> store \<Rightarrow> bool" where
  "mirrors t st' st \<longleftrightarrow> store_ok st' \<and> store_ok st \<and> st_quota st' = st_quota st \<and> durable t st' = durable t st
     \<and> (\<forall>k e. bm_get (st_values st') k = Some e \<longrightarrow> \<not> elapsed t (ent_value e) (ent_unix e))"

lemma mirrors_entry:
  assumes "mirrors t st' st" "bm_get (st_values st') k = Some e"
  shows "\<exists>e'. bm_get (st_values st) k = Some e' \<and> ent_value e' = ent_value e"
proof -
  have "\<not> elapsed t (ent_value e) (ent_unix e)" using assms by (auto simp: mirrors_def)
  then have "durable t st' k = Some (ent_value e, ent_unix e)" using assms(2) by (simp add: durable_def)
  then have "durable t st k = Some (ent_value e, ent_unix e)" using assms(1) by (simp add: mirrors_def)
  then show ?thesis by (auto simp: durable_def result_simps)
qed

lemma replayed_size_le: "replayed_size t (entry_mutation (k, e)) \<le> option_size k e"
  by (cases e) simp_all

lemma replayed_sizes_le: "replayed_sizes t (map entry_mutation es) \<le> entries_size es"
proof (induction es)
  case (Cons ke es)
  obtain k e where "ke = (k, e)" by (cases ke)
  with Cons replayed_size_le [of t k e] show ?case by simp
qed simp

lemma key_entry_mutation [simp]: "mutation_key (entry_mutation ke) = fst ke"
  by (cases ke rule: entry_mutation.cases) simp_all

lemma mirrors_room:
  assumes m: "mirrors t st' st" and d: "distinct (map fst es)"
  shows "st_used st' - keys_size (map fst es) st' + replayed_sizes t (map entry_mutation es)
    \<le> st_used st - keys_size (map fst es) st + entries_size es"
proof -
  have ok: "store_ok st'" "store_ok st" using m by (simp_all add: mirrors_def)
  obtain c' where c': "shrinks st' c'" "bm_get (st_values c') = bm_get (st_values st') |` (- fst ` set es)"
    "st_used st' = keys_size (map fst es) st' + st_used c'"
    using clear_entries_shrinks [OF ok(1) d] by blast
  obtain c where c: "shrinks st c" "bm_get (st_values c) = bm_get (st_values st) |` (- fst ` set es)"
    "st_used st = keys_size (map fst es) st + st_used c"
    using clear_entries_shrinks [OF ok(2) d] by blast
  have "total_size (st_values c') \<le> total_size (st_values c)"
    using c'(1,2) c(1,2) mirrors_entry [OF m]
    by (intro total_size_mono) (auto simp: shrinks_def store_okD restrict_map_def split: if_splits)
  then have "st_used c' \<le> st_used c" using c'(1) c(1) by (simp add: shrinks_def store_okD)
  with c'(3) c(3) replayed_sizes_le [of t es] show ?thesis by simp
qed


lemma entry_mutation_ok:
  assumes "\<forall>k e. (k, Some e) \<in> set es \<longrightarrow> entry_ok k e" "mu \<in> set (map entry_mutation es)"
  shows "mutation_ok mu \<and> mutation_memory_ok mu"
proof -
  obtain k e where "(k, e) \<in> set es" "mu = entry_mutation (k, e)" using assms(2) by auto
  with assms(1) show ?thesis by (cases e) (auto simp: entry_ok_def)
qed

lemma durable_effect: "durable t st k = opt_filter (\<lambda>(v, d). \<not> elapsed t v d) (entry_effect (stored st k))"
  by (simp add: durable_def stored_def option.map_comp comp_def unstamped_def)

lemma mutation_effect_entry:
  "mutation_effect t (entry_mutation (k, e)) = opt_filter (\<lambda>(v, d). \<not> elapsed t v d) (entry_effect e)"
  by (cases e) (simp_all add: mutation_effect_def)

lemma mutation_effect_elapsed: "mutation_effect t mu = Some (v, d) \<Longrightarrow> \<not> elapsed t v d"
  by (auto simp: mutation_effect_def split: mutation.splits if_splits)

lemma replay_mirrors:
  assumes m: "mirrors t st' st" and b: "batch_ok st p" and l: "logged p = map entry_mutation (pr_entries p)"
    and a: "apply_prepared p st = Some (r, st2)" and q: "st_used st2 \<le> st_quota st2"
    and c: "clock_ok t" and i: "\<forall>mu\<in>set (logged p). deadlines_i64 mu"
  shows "\<exists>st2'. replay t (logged p) st' = Inr (Some st2') \<and> mirrors t st2' st2"
proof -
  let ?es = "pr_entries p" and ?ms = "logged p"
  have ok: "store_ok st'" "store_ok st" "st_quota st' = st_quota st" and dur: "durable t st' = durable t st"
    using m by (simp_all add: mirrors_def)
  have d: "distinct (map fst ?es)" and eok: "\<forall>k e. (k, Some e) \<in> set ?es \<longrightarrow> entry_ok k e"
    using b by (simp_all add: batch_ok_def)
  have keys: "map mutation_key ?ms = map fst ?es" by (simp add: l)
  have ms: "\<forall>mu\<in>set ?ms. deadlines_i64 mu \<and> mutation_memory_ok mu \<and> mutation_ok mu"
    using i entry_mutation_ok [OF eok] l by auto
  obtain st3 where 3: "apply_prepared p st = Some (pr_reply p, st3)" "store_ok st3" "st_quota st3 = st_quota st"
    "st_used st3 = st_used st - keys_size (map fst ?es) st + entries_size ?es"
    "stored st3 = (\<lambda>k. case map_of ?es k of None \<Rightarrow> stored st k | Some e \<Rightarrow> map_option unstamped e)"
    by (rule apply_prepared_ok [OF ok(2) b])
  then have st2: "st2 = st3" using a by simp
  have "st_used st' - keys_size (map fst ?es) st' + replayed_sizes t (map entry_mutation ?es) \<le> st_quota st'"
    using mirrors_room [OF m d] 3(3,4) q ok(3) unfolding st2 by linarith
  then have "st_used st' - keys_size (map mutation_key ?ms) st' + replayed_sizes t ?ms \<le> st_quota st'"
    unfolding keys l [symmetric] .
  then obtain q where q: "prepare_replay t ?ms Client st' = Inr q"
    using prepare_replay_total [OF ok(1) _ c ms] d keys by auto
  obtain st2' where r: "apply_prepared q st' = Some (ROk, st2')" "store_ok st2'" "st_quota st2' = st_quota st'"
    and other: "\<And>k. k \<notin> mutation_key ` set ?ms \<Longrightarrow> stored st2' k = stored st' k"
    and eff: "\<And>mu. mu \<in> set ?ms \<Longrightarrow> entry_effect (bm_get (st_values st2') (mutation_key mu)) = mutation_effect t mu"
    by (rule prepare_replay_Inr [OF ok(1) _ q]) (use ms in auto)
  have rep: "replay t ?ms st' = Inr (Some st2')" using q r(1) by (simp add: replay_def)
  have batch: "entry_effect (bm_get (st_values st2') k) = durable t st3 k" if "map_of ?es k = Some e" for k e
  proof -
    have mem: "entry_mutation (k, e) \<in> set ?ms" using map_of_SomeD [OF that] l by force
    have "entry_effect (bm_get (st_values st2') k) = mutation_effect t (entry_mutation (k, e))"
      using eff [OF mem] by simp
    also have "\<dots> = durable t st3 k"
      by (simp add: mutation_effect_entry durable_effect 3(5) that option.map_comp comp_def unstamped_def)
    finally show ?thesis .
  qed
  have rest: "stored st2' k = stored st' k \<and> stored st3 k = stored st k" if "map_of ?es k = None" for k
  proof -
    have "k \<notin> mutation_key ` set ?ms" using that l by (auto simp: map_of_eq_None_iff image_image)
    with other that show ?thesis by (simp add: 3(5))
  qed
  have "durable t st2' k = durable t st3 k" for k
  proof (cases "map_of ?es k")
    case None
    with rest [OF None] dur show ?thesis by (metis durable_stored)
  next
    case (Some e)
    have "opt_filter P (opt_filter P x) = opt_filter P x" for P and x :: "(value \<times> int option) option" by (cases x) auto
    with batch [OF Some] show ?thesis by (metis durable_def)
  qed
  moreover have "\<not> elapsed t (ent_value x) (ent_unix x)" if x: "bm_get (st_values st2') k = Some x" for k x
  proof (cases "map_of ?es k")
    case None
    then obtain y where "bm_get (st_values st') k = Some y" "unstamped y = unstamped x"
      using rest [OF None] x by (cases "bm_get (st_values st') k") (auto simp: stored_def)
    moreover from this have "ent_value y = ent_value x" "ent_unix y = ent_unix x"
      by (metis unstamped_simps(2), metis unstamped_simps(5))
    ultimately show ?thesis using m unfolding mirrors_def by metis
  next
    case (Some e)
    then have "durable t st3 k = Some (ent_value x, ent_unix x)" using batch [OF Some] x by simp
    then show ?thesis by (auto simp: durable_def result_simps)
  qed
  ultimately have "mirrors t st2' st3" using r(2,3) ok(3) 3(2,3) by (auto simp: mirrors_def fun_eq_iff)
  with rep st2 show ?thesis by blast
qed


text \<open>A store in service: it runs commands and maintenance, and every batch it applies is
  appended to a log.\<close>

inductive served :: "store \<Rightarrow> mutation list list \<Rightarrow> store \<Rightarrow> bool" for st0 where
  served_nil: "served st0 [] st0"
| served_command: "served st0 log st \<Longrightarrow> headroom (4 * length (visit_keys c)) st \<Longrightarrow>
     command_printable c (visible (t_now tm) st) \<Longrightarrow> \<not> is_memory_command c \<Longrightarrow>
     prepare tm c st = Some p \<Longrightarrow> apply_prepared p st = Some (r, st') \<Longrightarrow> served st0 (log @ [logged p]) st'"
| served_expiration: "served st0 log st \<Longrightarrow> prepare_expiration tm budget st = Some p \<Longrightarrow>
     apply_prepared p st = Some (r, st') \<Longrightarrow> served st0 (log @ [logged p]) st'"

fun recover :: "sample \<Rightarrow> mutation list list \<Rightarrow> store \<Rightarrow> store option" where
  "recover t [] st = Some st"
| "recover t (batch # log) st =
     (case replay t batch st of Inr (Some st') \<Rightarrow> recover t log st' | _ \<Rightarrow> None)"

lemma recover_append: "recover t (log @ log') st = Option.bind (recover t log st) (recover t log')"
  by (induction t log st rule: recover.induct) (simp_all split: sum.split option.split)

lemma served_ok:
  assumes "served st0 log st" "store_ok st0" "st_used st0 \<le> st_quota st0"
  shows "store_ok st \<and> st_quota st = st_quota st0 \<and> st_used st \<le> st_quota st"
  using assms
proof (induction rule: served.induct)
  case (served_command log st c tm p r st')
  then have ok: "store_ok st" "st_quota st = st_quota st0" "st_used st \<le> st_quota st" by auto
  obtain r1 st1 where ex: "execute_inner tm c st = Some (r1, st1)" "store_ok st1" "st_quota st1 = st_quota st"
    "st_used st1 \<le> max (st_quota st) (st_used st)"
    by (rule execute_inner_returns [OF ok(1) served_command(3)])
  obtain q st2 where "prepare tm c st = Some q" "apply_prepared q st = Some (r1, st2)"
    "store_ok st2" "st_quota st2 = st_quota st" "st_used st2 = st_used st1"
    by (rule prepare_apply [OF ok(1) served_command(2,4) ex(1,2)])
  with served_command(5,6) ok ex(4) show ?case by auto
next
  case (served_expiration log st tm budget p r st')
  then have ok: "store_ok st" "st_quota st = st_quota st0" "st_used st \<le> st_quota st" by auto
  obtain q n st2 where "prepare_expiration tm budget st = Some q" "apply_prepared q st = Some (RInteger (int n), st2)"
    "store_ok st2" "st_quota st2 = st_quota st" "st_used st2 \<le> st_used st"
    by (rule prepare_expiration_batch [OF ok(1), of tm budget]) blast
  with served_expiration(2,3) ok show ?case by auto
qed simp

lemma served_batch:
  assumes "prepare tm c st = Some p" "store_ok st" "headroom (4 * length (visit_keys c)) st"
    "command_printable c (visible (t_now tm) st)" "\<not> is_memory_command c"
  shows "batch_ok st p \<and> logged p = map entry_mutation (pr_entries p)"
proof -
  obtain r1 st1 where ex: "execute_inner tm c st = Some (r1, st1)" "store_ok st1"
    by (rule execute_inner_returns [OF assms(2,4)])
  obtain q where "prepare tm c st = Some q" "batch_ok st q" "logged q = map entry_mutation (pr_entries q)"
    by (rule prepare_apply [OF assms(2,3,5) ex])
  with assms(1) show ?thesis by simp
qed

lemma recover_step:
  assumes st: "store_ok st" "store_ok st'" "st_quota st' = st_quota st0" "st_used st' \<le> st_quota st'"
    and b: "batch_ok st p" "logged p = map entry_mutation (pr_entries p)" "apply_prepared p st = Some (r, st')"
    and IH: "recover t log st1 = Some s1" "mirrors t s1 st"
    and t: "clock_ok t" "\<forall>mu\<in>set (logged p). deadlines_i64 mu"
  shows "\<exists>s2. recover t (log @ [logged p]) st1 = Some s2 \<and> mirrors t s2 st'"
proof -
  obtain s2 where "replay t (logged p) s1 = Inr (Some s2)" "mirrors t s2 st'"
    using replay_mirrors [OF IH(2) b st(4) t] by blast
  with IH(1) show ?thesis by (simp add: recover_append)
qed



section \<open>Snapshots\<close>

lemma snapshot_ok:
  assumes "store_ok st"
  shows "map mutation_key (snapshot st) = map fst (st_values st)"
    "\<forall>mu\<in>set (snapshot st). mutation_ok mu \<and> mutation_memory_ok mu" "replayed_sizes t (snapshot st) \<le> st_used st"
proof -
  show "map mutation_key (snapshot st) = map fst (st_values st)" by (simp add: snapshot_def comp_def case_prod_unfold)
  have "entry_ok k e" if "(k, e) \<in> set (st_values st)" for k e
    using that store_okD(1,4) [OF assms] bm_get_mem by metis
  then show "\<forall>mu\<in>set (snapshot st). mutation_ok mu \<and> mutation_memory_ok mu"
    by (force simp: snapshot_def entry_ok_def)
  have "replayed_sizes t (snapshot st) \<le> total_size (st_values st)"
    unfolding snapshot_def total_size_def list.map_comp comp_def by (rule sum_list_mono) auto
  then show "replayed_sizes t (snapshot st) \<le> st_used st" by (simp add: store_okD(7) [OF assms])
qed

text \<open>
  C13. A snapshot replays to the state it was taken from: into an empty store of the
  same quota, at any later clock reading, the replay is accepted and gives every key
  its value and absolute deadline, except what has elapsed.
\<close>

theorem snapshot_replay_roundtrip:
  assumes ok: "store_ok st" "st_used st \<le> st_quota st"
    and ok0: "store_ok st0" "st_values st0 = []" "st_quota st0 = st_quota st"
    and t: "clock_ok t" "\<forall>mu\<in>set (snapshot st). deadlines_i64 mu"
  shows "\<exists>s. replay t (snapshot st) st0 = Inr (Some s) \<and> store_ok s \<and> durable t s = durable t st"
proof -
  let ?ms = "snapshot st"
  note S = snapshot_ok [OF ok(1)]
  have d: "distinct (map mutation_key ?ms)" using bm_ok_distinct [OF store_okD(1) [OF ok(1)]] by (simp only: S(1))
  have "st_used st0 = 0" using store_okD(7) [OF ok0(1)] ok0(2) by (simp add: total_size_def)
  then have room: "st_used st0 - keys_size (map mutation_key ?ms) st0 + replayed_sizes t ?ms \<le> st_quota st0"
    using S(3) [of t] ok(2) ok0(3) by simp
  have ms: "\<forall>mu\<in>set ?ms. deadlines_i64 mu \<and> mutation_memory_ok mu \<and> mutation_ok mu" using S(2) t(2) by blast
  obtain p where p: "prepare_replay t ?ms Client st0 = Inr p"
    using prepare_replay_total [OF ok0(1) d t(1) ms room] by blast
  obtain s where s: "apply_prepared p st0 = Some (ROk, s)" "store_ok s"
    and other: "\<And>k. k \<notin> mutation_key ` set ?ms \<Longrightarrow> stored s k = stored st0 k"
    and eff: "\<And>mu. mu \<in> set ?ms \<Longrightarrow> entry_effect (bm_get (st_values s) (mutation_key mu)) = mutation_effect t mu"
    by (rule prepare_replay_Inr [OF ok0(1) _ p]) (use ms in blast)+
  have "durable t s k = durable t st k" for k
  proof (cases "bm_get (st_values st) k")
    case None
    then have "k \<notin> mutation_key ` set ?ms" using arg_cong [OF S(1), of set] by (simp add: map_of_eq_None_iff)
    with other [OF this] ok0(2) None show ?thesis by (simp add: durable_def stored_def)
  next
    case (Some e)
    then have mu: "Put k (ent_value e) (ent_unix e) \<in> set ?ms" by (force simp: snapshot_def dest: map_of_SomeD)
    show ?thesis using eff [OF mu] Some by (simp add: durable_def mutation_effect_def)
  qed
  then show ?thesis using p s by (auto simp: replay_def)
qed

definition blank_store :: store where
  "blank_store = \<lparr>st_values = [], st_expirations = [], st_members = [], st_generation = 0, st_quota = 1000,
     st_used = 0, st_watches = registry_default 0\<rparr>"

lemma blank_store_ok: "store_ok blank_store"
  by (simp add: store_ok_def blank_store_def key_index_def member_index_def total_size_def USIZE_MAX_def ISIZE_MAX_def)

lemma sample_clock: "clock_ok \<lparr>t_now = 3, t_unix = 5\<rparr>"
  by (simp add: clock_ok_def i64_ok_def I64_MIN_def I64_MAX_def)

theorem snapshot_replay_roundtrip_witness:
  "\<exists>s. replay \<lparr>t_now = 3, t_unix = 5\<rparr> (snapshot sample_store) blank_store = Inr (Some s) \<and> store_ok s
    \<and> durable \<lparr>t_now = 3, t_unix = 5\<rparr> s = durable \<lparr>t_now = 3, t_unix = 5\<rparr> sample_store"
  by (rule snapshot_replay_roundtrip [OF sample_store_ok _ blank_store_ok _ _ sample_clock])
    (simp_all add: sample_store_def blank_store_def snapshot_def sample_entry_def i64_ok_def I64_MIN_def I64_MAX_def)

theorem replay_installs_witness:
  "\<exists>st'. replay \<lparr>t_now = 3, t_unix = 5\<rparr> [Put ''k'' (VString ''v'') (Some 9), Delete ''a''] sample_store = Inr (Some st')
    \<and> store_ok st' \<and> entry_effect (bm_get (st_values st') ''k'') = Some (VString ''v'', Some 9)
    \<and> entry_effect (bm_get (st_values st') ''a'') = None"
proof -
  let ?t = "\<lparr>t_now = 3, t_unix = 5\<rparr>" and ?ms = "[Put ''k'' (VString ''v'') (Some 9), Delete ''a'']"
  have "\<exists>p. prepare_replay ?t ?ms Client sample_store = Inr p"
    by (rule prepare_replay_total [OF sample_store_ok _ sample_clock])
      (simp_all add: memory_key_ok_def i64_ok_def I64_MIN_def I64_MAX_def sample_store_def sample_entry_def
        key_size_def entry_size_def ENTRY_OVERHEAD_BYTES_def elapsed_def)
  then obtain res where r: "replay ?t ?ms sample_store = Inr res" by (auto simp: replay_def)
  with replay_installs [OF sample_store_ok _ r] show ?thesis
    by (auto simp: mutation_effect_def elapsed_def)
qed


end
