(* ===== verification/Transaction.thy ===== *)
theory Transaction
  imports Mutation_Correct Store_Watch
begin

text \<open>
  Preparation of a whole \<open>EXEC\<close> (\<open>src/src/storage/transaction.rs\<close>). The commands run one
  after the other on a shadow of all the keys they name; a watch on the shadow traces
  which keys were written, and the sealed batch holds the last entries of these.
\<close>

section \<open>Model\<close>

record owner_transaction =
  ot_shadow :: store
  ot_trace :: "watch_token list"

definition prepare_candidate :: "sample \<Rightarrow> command \<Rightarrow> owner_transaction \<Rightarrow> prepared option" where
  "prepare_candidate time c tx = prepare time c (ot_shadow tx)"

definition accept_candidate :: "prepared \<Rightarrow> owner_transaction \<Rightarrow> (reply \<times> owner_transaction) option" where
  "accept_candidate p tx = do {
     (r, shadow) \<leftarrow> apply_prepared p (ot_shadow tx);
     Some (r, tx\<lparr>ot_shadow := shadow\<rparr>)
   }"

definition seal :: "owner_transaction \<Rightarrow> store \<Rightarrow> reply list \<Rightarrow> prepared" where
  "seal tx owner replies =
     prepared_of (RArray replies)
       (map (\<lambda>tok. (token_key tok, bm_get (st_values (ot_shadow tx)) (token_key tok)))
         (filter (token_invalidated (st_watches (ot_shadow tx))) (ot_trace tx)))
       Client owner"

definition copy_owned :: "bytes \<Rightarrow> entry \<Rightarrow> store \<Rightarrow> store" where
  "copy_owned key e shadow =
     (let shadow = copy_entry key e shadow
      in shadow\<lparr>st_members := fold (\<lambda>(ident, d). bs_insert (d, key, ident)) (ent_deadlines e) (st_members shadow)\<rparr>)"

fun copy_owned_keys :: "store \<Rightarrow> bytes list \<Rightarrow> store \<Rightarrow> store" where
  "copy_owned_keys st [] shadow = shadow"
| "copy_owned_keys st (key # keys) shadow =
     copy_owned_keys st keys (case bm_get (st_values st) key of None \<Rightarrow> shadow | Some e \<Rightarrow> copy_owned key e shadow)"

definition begin_owner_transaction :: "bytes btree_set \<Rightarrow> sample \<Rightarrow> store \<Rightarrow> owner_transaction option" where
  "begin_owner_transaction keys time st = do {
     shadow \<leftarrow> shadow_base st;
     let (trace, shadow) = watch_keys (t_now time) keys (copy_owned_keys st keys shadow);
     Some \<lparr>ot_shadow = shadow, ot_trace = trace\<rparr>
   }"

fun run_batch :: "sample \<Rightarrow> command list \<Rightarrow> owner_transaction \<Rightarrow> (reply list \<times> owner_transaction) option" where
  "run_batch time [] tx = Some ([], tx)"
| "run_batch time (c # cs) tx = do {
     (r, tx) \<leftarrow> (if c = CUnwatch then Some (ROk, tx)
                 else do { p \<leftarrow> prepare_candidate time c tx; accept_candidate p tx });
     (rs, tx) \<leftarrow> run_batch time cs tx;
     Some (r # rs, tx)
   }"

definition memory_in_multi :: bytes where
  "memory_in_multi = ''ERR memory commands are not supported in MULTI''"

definition prepare_batch_at :: "command list \<Rightarrow> sample \<Rightarrow> store \<Rightarrow> prepared option" where
  "prepare_batch_at cs time st =
     (if list_ex is_memory_command cs then Some (prepared_of (RError (EMemory memory_in_multi)) [] Client st)
      else do {
        let keys = bs_of_list (concat (map visit_keys cs));
        tx \<leftarrow> begin_owner_transaction keys time st;
        (rs, tx) \<leftarrow> run_batch time cs tx;
        Some (seal tx st rs)
      })"

definition transaction_time :: "sample \<Rightarrow> sample" where
  "transaction_time t = t"

definition prepare_batch :: "sample \<Rightarrow> command list \<Rightarrow> store \<Rightarrow> prepared option" where
  "prepare_batch t cs st = prepare_batch_at cs (transaction_time t) st"

section \<open>Execution without a shadow\<close>

text \<open>\<open>Store::execute\<close> (\<open>src/src/storage/mod.rs\<close>) on every command but \<open>MEM.*\<close>.\<close>

definition execute_plain :: "sample \<Rightarrow> command \<Rightarrow> store \<Rightarrow> (reply \<times> store) option" where
  "execute_plain t c st = do { p \<leftarrow> prepare t c st; apply_prepared p st }"

fun execute_seq :: "sample \<Rightarrow> command list \<Rightarrow> store \<Rightarrow> (reply list \<times> store) option" where
  "execute_seq t [] st = Some ([], st)"
| "execute_seq t (c # cs) st = do {
     (r, st) \<leftarrow> (if c = CUnwatch then Some (ROk, st) else execute_plain t c st);
     (rs, st) \<leftarrow> execute_seq t cs st;
     Some (r # rs, st)
   }"

section \<open>The shadow follows the store\<close>

lemma sim_refl: "bm_ok (st_values st) \<Longrightarrow> sim K st st"
  by (simp add: sim_def)

lemma sim_mono: "sim K sh st \<Longrightarrow> L \<subseteq> K \<Longrightarrow> sim L sh st"
  by (auto simp: sim_def)

lemma nested_shadow:
  assumes "sim K sh st" "store_ok st" "set keys \<subseteq> K"
  obtains base where "shadow_base sh = Some base" "sim (set keys) (copy_keys sh keys base) st"
proof -
  obtain base where b: "shadow_base sh = Some base" "st_values base = []" "st_used base = st_used sh"
    "st_generation base = st_generation sh" "st_quota base = st_quota sh"
    using assms(1,2)
    by (auto simp: shadow_base_def store_with_config_def validate_quota_def ensure_def store_ok_def sim_def)
  have "sim (set keys) (copy_keys sh keys base) st"
    using assms(1,3) b by (auto simp: sim_def copy_keys_values copy_keys_bm_ok)
  with b(1) that show ?thesis by blast
qed

lemma changed_entries_cong:
  "(\<And>k. k \<in> set keys \<Longrightarrow> bm_get (st_values a) k = bm_get (st_values a') k) \<Longrightarrow>
   (\<And>k. k \<in> set keys \<Longrightarrow> bm_get (st_values b) k = bm_get (st_values b') k) \<Longrightarrow>
     changed_entries a b keys = changed_entries a' b' keys"
  by (induction keys) simp_all

lemma prepare_sim:
  assumes "sim K sh st" "store_ok st" "set (visit_keys c) \<subseteq> K"
  shows "prepare t c sh = prepare t c st"
proof (cases "is_memory_command c")
  case True
  with assms(1) show ?thesis by (simp add: prepare_def prepared_of_def sim_def)
next
  case False
  let ?keys = "bs_of_list (visit_keys c)"
  have K: "set ?keys \<subseteq> K" using assms(3) by simp
  obtain a where a: "shadow_base sh = Some a" "sim (set ?keys) (copy_keys sh ?keys a) st"
    by (rule nested_shadow [OF assms(1,2) K])
  obtain b where b: "shadow_base st = Some b" "sim (set ?keys) (copy_keys st ?keys b) st"
    by (rule nested_shadow [OF sim_refl [OF store_okD(1) [OF assms(2)]] assms(2) order_refl])
  have sa: "sim_result (set ?keys) (execute_inner t c (copy_keys sh ?keys a)) (execute_inner t c st)"
    by (rule execute_inner_sim [OF a(2)]) simp
  have sb: "sim_result (set ?keys) (execute_inner t c (copy_keys st ?keys b)) (execute_inner t c st)"
    by (rule execute_inner_sim [OF b(2)]) simp
  have g: "st_generation sh = st_generation st" using assms(1) by (simp add: sim_def)
  show ?thesis
  proof (cases "execute_inner t c st")
    case None
    with sa sb show ?thesis using False a(1) b(1) by (simp add: prepare_def Let_def)
  next
    case (Some rst)
    obtain r st' where rst: "rst = (r, st')" by fastforce
    obtain a' where a': "execute_inner t c (copy_keys sh ?keys a) = Some (r, a')" "sim (set ?keys) a' st'"
      using sa by (auto simp: Some rst option_rel_Some2)
    obtain b' where b': "execute_inner t c (copy_keys st ?keys b) = Some (r, b')" "sim (set ?keys) b' st'"
      using sb by (auto simp: Some rst option_rel_Some2)
    have "changed_entries sh a' ?keys = changed_entries st b' ?keys"
      by (rule changed_entries_cong) (use assms(1,3) a'(2) b'(2) in \<open>auto simp: sim_get subset_iff\<close>)
    then show ?thesis using False a(1) b(1) a'(1) b'(1) g by (simp add: prepare_def Let_def prepared_of_def)
  qed
qed

lemma clear_entries_sim:
  assumes "sim K sh st" "fst ` set es \<subseteq> K"
  shows "rel_option (sim K) (clear_entries es sh) (clear_entries es st)"
  using assms
  by (induction es arbitrary: sh st) (auto intro!: rel_bind [OF remove_sim [OF invalidate_sim]])

lemma install_entries_sim:
  assumes "sim K sh st" "fst ` set es \<subseteq> K"
  shows "rel_option (sim K) (install_entries es sh) (install_entries es st)"
  using assms
proof (induction es arbitrary: sh st)
  case (Cons ke es)
  then show ?case by (cases ke; cases "snd ke") (auto intro!: rel_bind [OF install_entry_sim])
qed simp

lemma apply_prepared_sim:
  assumes "sim K sh st" "fst ` set (pr_entries p) \<subseteq> K"
  shows "sim_result K (apply_prepared p sh) (apply_prepared p st)"
proof -
  have "st_generation sh = st_generation st" using assms(1) by (simp add: sim_def)
  then show ?thesis
    unfolding apply_prepared_def using assms(2)
    by (auto intro!: rel_bind [OF clear_entries_sim [OF assms]] rel_bind [OF install_entries_sim])
qed

lemma changed_entries_keys: "\<exists>P. map fst (changed_entries st sh keys) = filter P keys"
proof -
  have "map fst (changed_entries st sh keys)
      = filter (\<lambda>k. map_option ent_generation (bm_get (st_values st) k) \<noteq> map_option ent_generation (bm_get (st_values sh) k)) keys"
    by (induction keys) (simp_all add: Let_def)
  then show ?thesis by blast
qed

lemma prepare_keys:
  assumes "prepare t c st = Some p"
  shows "fst ` set (pr_entries p) \<subseteq> set (visit_keys c)" "length (pr_entries p) \<le> length (visit_keys c)"
    "pr_generation p = st_generation st"
proof -
  let ?keys = "bs_of_list (visit_keys c)"
  have "(\<exists>sh. pr_entries p = changed_entries st sh ?keys) \<or> pr_entries p = []"
    using assms by (auto simp: prepare_def Let_def bind_eq_Some_conv split: if_splits)
  then obtain P where P: "map fst (pr_entries p) = filter P ?keys"
  proof
    assume "\<exists>sh. pr_entries p = changed_entries st sh ?keys"
    then obtain sh where sh: "pr_entries p = changed_entries st sh ?keys" ..
    obtain P where "map fst (changed_entries st sh ?keys) = filter P ?keys" using changed_entries_keys by blast
    with that [of P] show thesis unfolding sh by blast
  next
    assume "pr_entries p = []"
    then show thesis using that [of "\<lambda>_. False"] by simp
  qed
  have "length ?keys \<le> length (visit_keys c)"
    using card_length [of "visit_keys c"] distinct_card [OF bs_ok_distinct [of ?keys]] by simp
  then show "length (pr_entries p) \<le> length (visit_keys c)"
    using length_filter_le [of P ?keys] P by (metis length_map order_trans)
  have "set (map fst (pr_entries p)) \<subseteq> set ?keys" unfolding P by auto
  then show "fst ` set (pr_entries p) \<subseteq> set (visit_keys c)" by simp
  show "pr_generation p = st_generation st"
    using assms by (auto simp: prepare_def Let_def bind_eq_Some_conv split: if_splits)
qed

section \<open>Progress of the generation\<close>

lemma clear_entries_evolves:
  "clear_entries es st = Some st' \<Longrightarrow> fst ` set es \<subseteq> K \<Longrightarrow> evolves K (length es) st st'"
proof (induction es arbitrary: st)
  case (Cons ke es)
  obtain key e where ke: "ke = (key, e)" by (cases ke)
  with Cons.prems obtain old st1 where
    r: "remove key (st\<lparr>st_watches := registry_invalidate key (st_watches st)\<rparr>) = Some (old, st1)" "clear_entries es st1 = Some st'"
    by (auto simp: bind_eq_Some_conv)
  have 1: "evolves K 1 st st1" using remove_evolves [OF r(1), of K] Cons.prems(2) ke by (simp add: evolves_watches)
  have "evolves K (length es) st1 st'" using Cons.IH [OF r(2)] Cons.prems(2) by simp
  from evolves_trans [OF 1 this] show ?case by simp
qed (simp add: evolves_refl)

lemma install_entries_evolves:
  "install_entries es st = Some st' \<Longrightarrow> fst ` set es \<subseteq> K \<Longrightarrow> evolves K (2 * length es) st st'"
proof (induction es arbitrary: st)
  case (Cons ke es)
  obtain key e where ke: "ke = (key, e)" by (cases ke)
  show ?case
  proof (cases e)
    case None
    with Cons.IH Cons.prems ke have "evolves K (2 * length es) st st'" by simp
    then show ?thesis by (rule evolves_mono) simp_all
  next
    case (Some e')
    with Cons.prems ke obtain st1 where r: "install_entry key e' st = Some st1" "install_entries es st1 = Some st'"
      by (auto simp: bind_eq_Some_conv)
    have 1: "evolves K 2 st st1" using install_entry_evolves [OF r(1), of K] Cons.prems(2) ke by simp
    have "evolves K (2 * length es) st1 st'" using Cons.IH [OF r(2)] Cons.prems(2) by simp
    from evolves_trans [OF 1 this] show ?thesis by simp
  qed
qed (simp add: evolves_refl)

lemma apply_prepared_evolves:
  assumes "apply_prepared p st = Some (r, st')" "fst ` set (pr_entries p) \<subseteq> K"
  shows "evolves K (3 * length (pr_entries p)) st st'"
proof -
  obtain st1 where "clear_entries (pr_entries p) st = Some st1" "install_entries (pr_entries p) st1 = Some st'"
    using assms(1) by (auto simp: apply_prepared_def bind_eq_Some_conv split: if_splits)
  from evolves_trans [OF clear_entries_evolves [OF this(1) assms(2)] install_entries_evolves [OF this(2) assms(2)]]
  show ?thesis by simp
qed

lemma headroom_evolves:
  assumes "headroom (n + m) st" "evolves K n st st'" "bm_ok (st_values st)"
  shows "headroom m st'"
proof -
  obtain j where j: "j \<le> n" "st_generation st' = st_generation st + of_nat j"
    and e: "\<And>k e. bm_get (st_values st') k = Some e \<Longrightarrow> bm_get (st_values st) k = Some e
        \<or> (\<exists>i\<in>{1..j}. ent_generation e = st_generation st + of_nat i)"
    using assms(2,3) by (auto simp: evolves_def)
  have room: "unat (st_generation st) + n < 2 ^ 64" "unat (st_generation st) + (n + m) < 2 ^ 64"
    using assms(1) by (auto simp: headroom_def)
  have g: "unat (st_generation st + of_nat i) = unat (st_generation st) + i" if "i \<le> n" for i
    by (rule later_generation [OF room(1) that])
  have "ent_generation x \<le> st_generation st'" if "bm_get (st_values st') k = Some x" for k x
    using e [OF that]
  proof
    assume "bm_get (st_values st) k = Some x"
    then have "unat (ent_generation x) \<le> unat (st_generation st)"
      using assms(1) by (auto simp: headroom_def word_le_nat_alt)
    then show ?thesis using g [OF j(1)] by (simp add: word_le_nat_alt j(2))
  next
    assume "\<exists>i\<in>{1..j}. ent_generation x = st_generation st + of_nat i"
    then obtain i where "i \<le> j" "ent_generation x = st_generation st + of_nat i" by auto
    then show ?thesis using g [OF j(1)] g [of i] j(1) by (simp add: word_le_nat_alt j(2))
  qed
  moreover have "unat (st_generation st') + m < 2 ^ 64" using room(2) j g [of j] by simp
  ultimately show ?thesis by (simp add: headroom_def)
qed

section \<open>One command at a time\<close>

lemma execute_inner_ok:
  assumes ok: "store_ok st" and ex: "execute_inner t c st = Some (r, st')"
  shows "store_ok st' \<and> st_used st' \<le> max (st_quota st) (st_used st)"
proof (cases "\<exists>key oper. c = CSortedSet key oper")
  case True
  then obtain key oper where c: "c = CSortedSet key oper" by blast
  have "sorted_set_collection oper (visible (t_now t) st key) \<noteq> None"
  proof
    assume none: "sorted_set_collection oper (visible (t_now t) st key) = None"
    obtain st1 j where e: "expire_key (t_now t) key st = Some st1" and v: "bm_get (st_values st1) = (bm_get (st_values st))
        (key := opt_filter (\<lambda>e. \<not> entry_expired (t_now t) e) (bm_get (st_values st) key))"
      by (rule expire_key_ok [OF ok])
    have "store_data st1 key = visible (t_now t) st key" by (simp add: visible_expire_key(1) [OF v])
    then have "map_option entry_data (bm_get (st_values st1) key) = visible (t_now t) st key"
      by (simp add: store_data_def)
    with ex e none show False by (simp add: c run_update_def)
  qed
  from run_update_refines [OF ok handlers_ok(4) this] ex show ?thesis by (auto simp: c refines_def)
next
  case False
  then have "command_printable c (visible (t_now t) st)" by (auto simp: command_printable_def split: command.split)
  from execute_inner_refines [OF ok this] ex show ?thesis by (simp add: refines_def)
qed

lemma prepare_executes:
  assumes "prepare t c st = Some p" "store_ok st" "\<not> is_memory_command c"
  obtains r st' where "execute_inner t c st = Some (r, st')"
proof -
  let ?keys = "bs_of_list (visit_keys c)"
  obtain b where b: "shadow_base st = Some b" "sim (set ?keys) (copy_keys st ?keys b) st"
    by (rule nested_shadow [OF sim_refl [OF store_okD(1) [OF assms(2)]] assms(2) order_refl])
  have "sim_result (set ?keys) (execute_inner t c (copy_keys st ?keys b)) (execute_inner t c st)"
    by (rule execute_inner_sim [OF b(2)]) simp
  moreover have "execute_inner t c (copy_keys st ?keys b) \<noteq> None"
    using assms(1,3) b(1) by (auto simp: prepare_def Let_def bind_eq_Some_conv)
  ultimately show ?thesis using that by (cases "execute_inner t c st") auto
qed

lemma execute_plain_ok:
  assumes ok: "store_ok st" and h: "headroom (4 * length (visit_keys c) + n) st" and c: "\<not> is_memory_command c"
    and ex: "execute_plain t c st = Some (r, st')"
  shows "store_ok st' \<and> st_quota st' = st_quota st \<and> st_used st' \<le> max (st_quota st) (st_used st) \<and> headroom n st'
    \<and> evolves (set (visit_keys c)) (3 * length (visit_keys c)) st st'"
proof -
  obtain p where p: "prepare t c st = Some p" "apply_prepared p st = Some (r, st')"
    using ex by (auto simp: execute_plain_def bind_eq_Some_conv)
  obtain r1 st1 where e: "execute_inner t c st = Some (r1, st1)" by (rule prepare_executes [OF p(1) ok c])
  have h1: "headroom (4 * length (visit_keys c)) st" using h by (simp add: headroom_def)
  obtain q st2 where "prepare t c st = Some q" "batch_ok st q" "logged q = map entry_mutation (pr_entries q)"
    "pr_reply q = r1" "apply_prepared q st = Some (r1, st2)"
    "store_ok st2" "st_quota st2 = st_quota st" "st_used st2 = st_used st1" "stored st2 = stored st1"
    by (rule prepare_apply [OF ok h1 c e]) (use execute_inner_ok [OF ok e] in blast)
  with p have s: "store_ok st'" "st_quota st' = st_quota st" "st_used st' \<le> max (st_quota st) (st_used st)"
    using execute_inner_ok [OF ok e] by auto
  have ev: "evolves (set (visit_keys c)) (3 * length (visit_keys c)) st st'"
    by (rule evolves_mono [OF apply_prepared_evolves [OF p(2) prepare_keys(1) [OF p(1)]] order_refl])
      (simp add: prepare_keys(2) [OF p(1)])
  have "headroom (3 * length (visit_keys c) + n) st" using h by (simp add: headroom_def)
  from headroom_evolves [OF this ev store_okD(1) [OF ok]] s ev show ?thesis by blast
qed

section \<open>The trace\<close>

lemma clear_entries_reports: "clear_entries es st = Some st' \<Longrightarrow> reports st st'"
proof (induction es arbitrary: st)
  case (Cons ke es)
  obtain key e where ke: "ke = (key, e)" by (cases ke)
  let ?st0 = "st\<lparr>st_watches := registry_invalidate key (st_watches st)\<rparr>"
  obtain old st1 where r: "remove key ?st0 = Some (old, st1)" "clear_entries es st1 = Some st'"
    using Cons.prems by (auto simp: ke bind_eq_Some_conv)
  have "reports st ?st0" unfolding reports_def by (rule exI [of _ "[key]"]) simp
  from reports_trans [OF this reports_trans [OF remove_reports [OF r(1)] Cons.IH [OF r(2)]]] show ?case .
qed (simp add: reports_refl)

lemma install_entries_reports: "install_entries es st = Some st' \<Longrightarrow> reports st st'"
  by (induction es st rule: install_entries.induct)
    (auto simp: reports_refl bind_eq_Some_conv intro: reports_trans [OF install_entry_reports])

lemma apply_prepared_reports: "apply_prepared p st = Some (r, st') \<Longrightarrow> reports st st'"
  by (auto simp: apply_prepared_def bind_eq_Some_conv split: if_splits
      intro: reports_trans [OF clear_entries_reports install_entries_reports])

lemma copy_owned_keys_fields [simp]:
  "st_used (copy_owned_keys st keys sh) = st_used sh" "st_generation (copy_owned_keys st keys sh) = st_generation sh"
  "st_quota (copy_owned_keys st keys sh) = st_quota sh" "st_watches (copy_owned_keys st keys sh) = st_watches sh"
  by (induction keys arbitrary: sh) (simp_all add: copy_owned_def copy_entry_def Let_def split: option.split)

lemma copy_owned_keys_values:
  "bm_get (st_values (copy_owned_keys st keys sh)) k =
     (if k \<in> set keys \<and> bm_get (st_values st) k \<noteq> None then bm_get (st_values st) k else bm_get (st_values sh) k)"
  by (induction keys arbitrary: sh) (auto simp: copy_owned_def copy_entry_def Let_def split: option.split)

lemma copy_owned_keys_bm_ok: "bm_ok (st_values sh) \<Longrightarrow> bm_ok (st_values (copy_owned_keys st keys sh))"
  by (induction keys arbitrary: sh) (simp_all add: copy_owned_def copy_entry_def Let_def split: option.split)

lemma watch_keys_fields:
  "st_values (snd (watch_keys now keys st)) = st_values st \<and> st_used (snd (watch_keys now keys st)) = st_used st
    \<and> st_generation (snd (watch_keys now keys st)) = st_generation st \<and> st_quota (snd (watch_keys now keys st)) = st_quota st"
  by (induction keys arbitrary: st) (simp_all add: Let_def split: prod.split, metis snd_conv store.select_convs store.surjective store.update_convs)

lemma begin_owner_transaction_ok:
  assumes "store_ok st"
  obtains tx sh0 where "begin_owner_transaction keys time st = Some tx"
    "watch_keys (t_now time) keys sh0 = (ot_trace tx, ot_shadow tx)"
    "st_watches sh0 = registry_default (reg_id (st_watches st) + 1)" "sim (set keys) (ot_shadow tx) st"
    "st_values sh0 = st_values (ot_shadow tx)"
proof -
  obtain base where b: "shadow_base st = Some base" "st_values base = []" "st_used base = st_used st"
    "st_generation base = st_generation st" "st_quota base = st_quota st"
    "st_watches base = registry_default (reg_id (st_watches st) + 1)"
    using assms by (auto simp: shadow_base_def store_with_config_def validate_quota_def ensure_def store_ok_def)
  let ?sh0 = "copy_owned_keys st keys base"
  obtain toks sh where w: "watch_keys (t_now time) keys ?sh0 = (toks, sh)" by fastforce
  have f: "st_values sh = st_values ?sh0" "st_used sh = st_used st" "st_generation sh = st_generation st" "st_quota sh = st_quota st"
    using watch_keys_fields [of "t_now time" keys ?sh0] w b by auto
  have "sim (set keys) sh st"
    using f b assms by (auto simp: sim_def copy_owned_keys_values copy_owned_keys_bm_ok store_okD)
  with that [of "\<lparr>ot_shadow = sh, ot_trace = toks\<rparr>" ?sh0] w b f show ?thesis
    by (simp add: begin_owner_transaction_def)
qed

section \<open>A batch is a sequence\<close>

abbreviation batch_steps :: "command list \<Rightarrow> nat" where
  "batch_steps cs \<equiv> sum_list (map (\<lambda>c. 4 * length (visit_keys c)) cs)"

lemma run_batch_step:
  assumes sim: "sim K (ot_shadow tx) st" and ok: "store_ok st" and c: "set (visit_keys c) \<subseteq> K"
    and ex: "execute_plain t c st = Some (r, st')"
  obtains p tx' where "prepare_candidate t c tx = Some p" "accept_candidate p tx = Some (r, tx')"
    "ot_trace tx' = ot_trace tx" "sim K (ot_shadow tx') st'" "reports (ot_shadow tx) (ot_shadow tx')"
proof -
  obtain p where p: "prepare t c st = Some p" "apply_prepared p st = Some (r, st')"
    using ex by (auto simp: execute_plain_def bind_eq_Some_conv)
  have k: "fst ` set (pr_entries p) \<subseteq> K" using prepare_keys(1) [OF p(1)] c by blast
  obtain sh' where sh': "apply_prepared p (ot_shadow tx) = Some (r, sh')" "sim K sh' st'"
    using apply_prepared_sim [OF sim k] p(2) by (auto simp: option_rel_Some2)
  show ?thesis
    by (rule that [of p "tx\<lparr>ot_shadow := sh'\<rparr>"])
      (use p(1) prepare_sim [OF sim ok c] sh' apply_prepared_reports [OF sh'(1)] in
        \<open>simp_all add: prepare_candidate_def accept_candidate_def\<close>)
qed

lemma run_batch_follows:
  assumes "sim K (ot_shadow tx) st" "store_ok st" "headroom (batch_steps cs) st"
    "\<forall>c\<in>set cs. set (visit_keys c) \<subseteq> K \<and> \<not> is_memory_command c" "execute_seq t cs st = Some (rs, st')"
  shows "\<exists>tx'. run_batch t cs tx = Some (rs, tx') \<and> ot_trace tx' = ot_trace tx \<and> sim K (ot_shadow tx') st'
    \<and> reports (ot_shadow tx) (ot_shadow tx') \<and> store_ok st' \<and> st_quota st' = st_quota st
    \<and> st_used st' \<le> max (st_quota st) (st_used st) \<and> (\<forall>k. k \<notin> K \<longrightarrow> bm_get (st_values st') k = bm_get (st_values st) k)"
  using assms
proof (induction cs arbitrary: tx st rs)
  case Nil
  then show ?case by (simp add: reports_refl)
next
  case (Cons c cs)
  obtain r st1 rs1 where
    1: "(if c = CUnwatch then Some (ROk, st) else execute_plain t c st) = Some (r, st1)" "execute_seq t cs st1 = Some (rs1, st')"
    and rs: "rs = r # rs1"
    using Cons.prems(5) by (auto simp: bind_eq_Some_conv)
  have c: "set (visit_keys c) \<subseteq> K" "\<not> is_memory_command c" using Cons.prems(4) by auto
  have h: "headroom (4 * length (visit_keys c) + batch_steps cs) st" using Cons.prems(3) by simp
  have "\<exists>tx1. (if c = CUnwatch then Some (ROk, tx) else do { p \<leftarrow> prepare_candidate t c tx; accept_candidate p tx }) = Some (r, tx1)
      \<and> ot_trace tx1 = ot_trace tx \<and> sim K (ot_shadow tx1) st1 \<and> reports (ot_shadow tx) (ot_shadow tx1) \<and> store_ok st1
      \<and> st_quota st1 = st_quota st \<and> st_used st1 \<le> max (st_quota st) (st_used st) \<and> headroom (batch_steps cs) st1
      \<and> (\<forall>k. k \<notin> K \<longrightarrow> bm_get (st_values st1) k = bm_get (st_values st) k)"
  proof (cases "c = CUnwatch")
    case True
    with 1(1) Cons.prems(1,2) h show ?thesis by (simp add: reports_refl)
  next
    case False
    with 1(1) have ex: "execute_plain t c st = Some (r, st1)" by simp
    obtain p tx1 where "prepare_candidate t c tx = Some p" "accept_candidate p tx = Some (r, tx1)"
      "ot_trace tx1 = ot_trace tx" "sim K (ot_shadow tx1) st1" "reports (ot_shadow tx) (ot_shadow tx1)"
      by (rule run_batch_step [OF Cons.prems(1,2) c(1) ex])
    moreover note execute_plain_ok [OF Cons.prems(2) h c(2) ex]
    moreover have "bm_get (st_values st1) k = bm_get (st_values st) k" if "k \<notin> K" for k
      using execute_plain_ok [OF Cons.prems(2) h c(2) ex] that c(1) store_okD(1) [OF Cons.prems(2)] by (auto simp: evolves_def)
    ultimately show ?thesis using False by (intro exI [of _ tx1]) simp
  qed
  then obtain tx1 where
    2: "(if c = CUnwatch then Some (ROk, tx) else do { p \<leftarrow> prepare_candidate t c tx; accept_candidate p tx }) = Some (r, tx1)"
      "ot_trace tx1 = ot_trace tx" "sim K (ot_shadow tx1) st1" "reports (ot_shadow tx) (ot_shadow tx1)" "store_ok st1"
      "st_quota st1 = st_quota st" "headroom (batch_steps cs) st1" "st_used st1 \<le> max (st_quota st) (st_used st)"
      "\<forall>k. k \<notin> K \<longrightarrow> bm_get (st_values st1) k = bm_get (st_values st) k"
    by blast
  obtain tx' where 3: "run_batch t cs tx1 = Some (rs1, tx')" "ot_trace tx' = ot_trace tx1" "sim K (ot_shadow tx') st'"
    "reports (ot_shadow tx1) (ot_shadow tx')" "store_ok st'" "st_quota st' = st_quota st1" "st_used st' \<le> max (st_quota st1) (st_used st1)"
    "\<forall>k. k \<notin> K \<longrightarrow> bm_get (st_values st') k = bm_get (st_values st1) k"
    using Cons.IH [OF 2(3,5,7) _ 1(2)] Cons.prems(4) by auto
  have "run_batch t (c # cs) tx = Some (rs, tx')" using 2(1) 3(1) rs by (simp del: if_split)
  with 2 3 reports_trans [OF 2(4) 3(4)] show ?case by simp
qed

lemma prepare_batch_applies:
  assumes ok: "store_ok st" and h: "headroom (batch_steps cs) st" and mem: "\<not> list_ex is_memory_command cs"
    and ex: "execute_seq t cs st = Some (rs, st')"
  obtains p st2 where "prepare_batch t cs st = Some p" "batch_ok st p" "logged p = map entry_mutation (pr_entries p)"
    "apply_prepared p st = Some (RArray rs, st2)" "store_ok st2" "st_quota st2 = st_quota st" "stored st2 = stored st'"
    "st_used st2 = st_used st'" "st_used st' \<le> max (st_quota st) (st_used st)"
proof -
  let ?keys = "bs_of_list (concat (map visit_keys cs))"
  obtain tx sh0 where tx: "begin_owner_transaction ?keys t st = Some tx"
    "watch_keys (t_now t) ?keys sh0 = (ot_trace tx, ot_shadow tx)"
    "st_watches sh0 = registry_default (reg_id (st_watches st) + 1)" "sim (set ?keys) (ot_shadow tx) st"
    "st_values sh0 = st_values (ot_shadow tx)"
    by (rule begin_owner_transaction_ok [OF ok])
  have cs: "\<forall>c\<in>set cs. set (visit_keys c) \<subseteq> set ?keys \<and> \<not> is_memory_command c"
    using mem by (auto simp: list_ex_iff)
  obtain tx' where r: "run_batch t cs tx = Some (rs, tx')" "ot_trace tx' = ot_trace tx" "sim (set ?keys) (ot_shadow tx') st'"
    "reports (ot_shadow tx) (ot_shadow tx')" "store_ok st'" "st_quota st' = st_quota st" "st_used st' \<le> max (st_quota st) (st_used st)"
    "\<forall>k. k \<notin> set ?keys \<longrightarrow> bm_get (st_values st') k = bm_get (st_values st) k"
    using run_batch_follows [OF tx(4) ok h cs ex] by blast
  define marked where "marked = filter (token_invalidated (st_watches (ot_shadow tx'))) (ot_trace tx)"
  define p where "p = seal tx' st rs"
  have keys: "map token_key (ot_trace tx) = ?keys" by (rule watch_keys_tokens [OF tx(2)])
  then have dist: "distinct (map token_key (ot_trace tx))" using bs_ok_distinct [of ?keys] by simp
  then have d: "distinct (map token_key marked)" by (simp add: marked_def distinct_map_filter)
  have "token_key tok \<in> set ?keys" if "tok \<in> set marked" for tok
    using that by (auto simp: marked_def keys [symmetric] simp del: set_bs_of_list)
  then have pe: "pr_entries p = postimages (map token_key marked) st'" "pr_generation p = st_generation st"
    using r(2,3) by (auto simp: p_def seal_def postimages_def marked_def [symmetric] sim_get)
  have frame: "bm_get (st_values st') k = bm_get (st_values st) k" if k: "k \<notin> set (map token_key marked)" for k
  proof (cases "k \<in> set ?keys")
    case True
    then obtain tok where tok: "tok \<in> set (ot_trace tx)" "token_key tok = k" by (auto simp: keys [symmetric] simp del: set_bs_of_list)
    with k have "\<not> token_invalidated (st_watches (ot_shadow tx')) tok" by (auto simp: marked_def)
    from unmarked_unchanged [OF run_nil _ _ tx(2) r(4) tok(1) this, of "reg_id (st_watches st) + 1" 0] tx(3,5) tok(2)
    have "bm_get (st_values (ot_shadow tx')) k = bm_get (st_values (ot_shadow tx)) k" by (simp add: watch_init_def)
    then show ?thesis using sim_get [OF tx(4) True] sim_get [OF r(3) True] by simp
  qed (use r(8) in simp)
  obtain st2 where "batch_ok st p" "apply_prepared p st = Some (pr_reply p, st2)" "store_ok st2" "st_quota st2 = st_quota st"
    "st_used st2 = st_used st'" "stored st2 = stored st'"
    by (rule apply_postimages [OF ok r(5) d frame pe])
  moreover have "prepare_batch t cs st = Some p"
    using mem tx(1) r(1) by (simp add: prepare_batch_def transaction_time_def prepare_batch_at_def p_def Let_def)
  moreover have "logged p = map entry_mutation (pr_entries p)" "pr_reply p = RArray rs"
    by (simp_all add: p_def seal_def prepared_of_def logged_def)
  ultimately show ?thesis using that [of p st2] r(7) by simp
qed

text \<open>
  C3. A transaction is the sequence of its commands: the batch prepared for an
  \<open>EXEC\<close> on shadows of the keys it names, applied to the store, replies with the array of
  the replies the commands give when they are executed one after the other at the same
  instant, and leaves the same entries (up to generations) and the same usage; a
  command that fails does not stop the ones after it.
\<close>

theorem batch_is_sequence:
  assumes ok: "store_ok st" and h: "headroom (batch_steps cs) st" and mem: "\<not> list_ex is_memory_command cs"
    and ex: "execute_seq t cs st = Some (rs, st')"
  shows "\<exists>p st2. prepare_batch t cs st = Some p \<and> apply_prepared p st = Some (RArray rs, st2)
    \<and> store_ok st2 \<and> st_quota st2 = st_quota st \<and> stored st2 = stored st' \<and> st_used st2 = st_used st'"
  using prepare_batch_applies [OF assms] by metis

theorem batch_is_sequence_witness:
  "\<exists>p st2. prepare_batch \<lparr>t_now = 9, t_unix = 0\<rparr> [CSet ''n'' ''1'', CSetCollection ''n'' SCard, CIncr ''n'', CUnwatch, CDel [''n'']] sample_store = Some p
    \<and> apply_prepared p sample_store = Some (RArray [ROk, RError EWrongType, RInteger 2, ROk, RInteger 1], st2)
    \<and> stored st2 ''n'' = None \<and> store_ok st2"
proof -
  let ?t = "\<lparr>t_now = 9, t_unix = 0\<rparr>" and ?cs = "[CSet ''n'' ''1'', CSetCollection ''n'' SCard, CIncr ''n'', CUnwatch, CDel [''n'']]"
  let ?r = "execute_seq ?t ?cs sample_store"
  have "map_option fst ?r = Some [ROk, RError EWrongType, RInteger 2, ROk, RInteger 1]
      \<and> bm_get (st_values (snd (the ?r))) ''n'' = None" by code_simp
  then obtain st' where r: "?r = Some ([ROk, RError EWrongType, RInteger 2, ROk, RInteger 1], st')"
    "bm_get (st_values st') ''n'' = None" by auto
  have h: "headroom (batch_steps ?cs) sample_store"
    by (auto simp: headroom_def sample_store_def sample_entry_def split: if_splits)
  have "\<not> list_ex is_memory_command ?cs" by simp
  moreover have "stored st' ''n'' = None" by (simp add: stored_def r(2))
  ultimately show ?thesis using batch_is_sequence [OF sample_store_ok h _ r(1)] by auto
qed

end
