(* ===== verification/Routing.thy ===== *)
theory Routing
  imports Command
begin

unbundle bit_operations_syntax

text \<open>
  Stable routing of keys to shards (\<open>src/src/storage/routing.rs\<close>) and the durable
  layout with its division of the quota (\<open>src/src/persistence/layout.rs\<close>).
\<close>

section \<open>Hashing\<close>

definition MAX_SHARDS :: nat where "MAX_SHARDS = 256"

definition hash_tag :: "bytes \<Rightarrow> bytes" where
  "hash_tag key =
     (case dropWhile (\<lambda>b. b \<noteq> CHR ''{'') key of
        [] \<Rightarrow> key
      | _ # suffix \<Rightarrow>
          let tag = takeWhile (\<lambda>b. b \<noteq> CHR ''}'') suffix
          in if CHR ''}'' \<in> set suffix \<and> length tag > 0 then tag else key)"

definition stable_hash :: "bytes \<Rightarrow> u64" where
  "stable_hash b =
     foldl (\<lambda>hash byte. (hash XOR of_nat (of_char byte)) * 0x100000001B3) 0xCBF29CE484222325 b"

section \<open>Routing\<close>

record shard_router =
  sr_count :: nat

definition router_new :: "nat \<Rightarrow> config_error + shard_router" where
  "router_new n =
     res_bind (ensure (1 \<le> n \<and> n \<le> MAX_SHARDS) (InvalidServerLimits ''SIDER_SHARDS must be between 1 and 256''))
       (\<lambda>_. Inr \<lparr>sr_count = n\<rparr>)"

definition shard_for :: "shard_router \<Rightarrow> bytes \<Rightarrow> nat" where
  "shard_for r key = unat (stable_hash (hash_tag key) mod of_nat (sr_count r))"

text \<open>The bitmap of the owners that are touched, and the owners in order.\<close>

definition mark_owner :: "shard_router \<Rightarrow> bytes \<Rightarrow> bool list \<Rightarrow> bool list" where
  "mark_owner r key bitmap = bitmap[shard_for r key := True]"

definition transaction_participants :: "shard_router \<Rightarrow> command list \<Rightarrow> bytes list \<Rightarrow> nat list" where
  "transaction_participants r cs watched =
     (let bitmap = fold (mark_owner r) watched (replicate MAX_SHARDS False);
          bitmap = fold (\<lambda>c. fold (mark_owner r) (visit_keys c)) cs bitmap;
          owners = map fst (filter snd (List.enumerate 0 (take (sr_count r) bitmap)))
      in if owners = [] then [0] else owners)"

definition select_key :: "shard_router \<Rightarrow> bytes \<Rightarrow> nat option \<Rightarrow> execution_error + nat option" where
  "select_key r key selected =
     (let shard = shard_for r key
      in if (case selected of None \<Rightarrow> False | Some previous \<Rightarrow> previous \<noteq> shard) then Inl ECrossShard
         else Inr (Some shard))"

text \<open>Every key is visited; the selection keeps its first value after a crossing.\<close>

fun visit_selected :: "shard_router \<Rightarrow> bytes list \<Rightarrow> bool \<Rightarrow> nat option \<Rightarrow> bool \<times> nat option" where
  "visit_selected r [] crossed selected = (crossed, selected)"
| "visit_selected r (key # keys) crossed selected =
     (case select_key r key selected of
        Inl _ \<Rightarrow> visit_selected r keys True selected
      | Inr s \<Rightarrow> visit_selected r keys crossed s)"

definition select_command :: "shard_router \<Rightarrow> command \<Rightarrow> nat option \<Rightarrow> (execution_error + unit) \<times> nat option" where
  "select_command r c selected =
     (let (crossed, selected) = visit_selected r (visit_keys c) False selected
      in (if crossed then Inl ECrossShard else Inr (), selected))"

definition route :: "shard_router \<Rightarrow> command \<Rightarrow> execution_error + nat" where
  "route r c =
     (case select_command r c None of
        (Inl e, _) \<Rightarrow> Inl e
      | (Inr _, selected) \<Rightarrow> Inr (case selected of None \<Rightarrow> 0 | Some s \<Rightarrow> s))"

section \<open>Layout\<close>

definition ROUTING_VERSION :: nat where "ROUTING_VERSION = 1"

record durable_layout =
  shard_count :: nat
  routing_version :: nat

definition layout_default :: durable_layout where
  "layout_default = \<lparr>shard_count = 1, routing_version = ROUTING_VERSION\<rparr>"

definition layout_validate :: "durable_layout \<Rightarrow> config_error + unit" where
  "layout_validate l =
     res_bind (router_new (shard_count l)) (\<lambda>_.
       ensure (routing_version l = ROUTING_VERSION) (InvalidServerLimits ''unsupported AOF routing version''))"

definition layout_shard_for :: "durable_layout \<Rightarrow> bytes \<Rightarrow> config_error + nat" where
  "layout_shard_for l key =
     res_bind (layout_validate l) (\<lambda>_. res_bind (router_new (shard_count l)) (\<lambda>r. Inr (shard_for r key)))"

definition layout_quota :: "durable_layout \<Rightarrow> nat \<Rightarrow> nat \<Rightarrow> config_error + nat" where
  "layout_quota l total_bytes shard =
     res_bind (layout_validate l) (\<lambda>_.
       res_bind (ensure (\<not> (total_bytes < shard_count l \<or> shard \<ge> shard_count l))
           (InvalidServerLimits ''total quota must reserve at least one byte per shard'')) (\<lambda>_.
         Inr (total_bytes div shard_count l + of_bool (shard < total_bytes mod shard_count l))))"

section \<open>Owners\<close>

abbreviation router_ok :: "shard_router \<Rightarrow> bool" where
  "router_ok r \<equiv> 1 \<le> sr_count r \<and> sr_count r \<le> MAX_SHARDS"

lemma shard_for_less: "router_ok r \<Longrightarrow> shard_for r key < sr_count r"
proof -
  assume ok: "router_ok r"
  then have "sr_count r < 2 ^ 64" by (simp add: MAX_SHARDS_def)
  then have u: "unat (of_nat (sr_count r) :: u64) = sr_count r" by (simp add: unat_of_nat take_bit_nat_eq_self)
  have "shard_for r key = unat (stable_hash (hash_tag key)) mod sr_count r"
    by (simp add: shard_for_def unat_mod u)
  with ok show ?thesis by simp
qed

lemma fold_mark:
  "\<forall>k\<in>set keys. shard_for r k < length bitmap \<Longrightarrow>
     length (fold (mark_owner r) keys bitmap) = length bitmap
     \<and> (\<forall>i<length bitmap. fold (mark_owner r) keys bitmap ! i \<longleftrightarrow> bitmap ! i \<or> i \<in> shard_for r ` set keys)"
proof (induction keys arbitrary: bitmap)
  case (Cons k keys)
  then show ?case using Cons.IH [of "mark_owner r k bitmap"]
    by (auto simp: mark_owner_def nth_list_update)
qed simp

lemma enumerate_filter: "map fst (filter snd (List.enumerate n bs)) = filter (\<lambda>i. bs ! (i - n)) [n..<n + length bs]"
proof (induction bs arbitrary: n)
  case (Cons b bs)
  have "filter (\<lambda>i. (b # bs) ! (i - n)) [Suc n..<n + length (b # bs)] = filter (\<lambda>i. bs ! (i - Suc n)) [Suc n..<Suc n + length bs]"
    by (rule filter_cong) (auto simp: nth_Cons')
  moreover have "[n..<n + length (b # bs)] = n # [Suc n..<n + length (b # bs)]" by (rule upt_conv_Cons) simp
  ultimately show ?case using Cons [of "Suc n"] by (cases b) (simp_all del: upt_Suc)
qed simp

lemma owners_of_bitmap:
  "n \<le> length bitmap \<Longrightarrow> map fst (filter snd (List.enumerate 0 (take n bitmap))) = filter (\<lambda>i. bitmap ! i) [0..<n]"
  unfolding enumerate_filter by (rule filter_cong) auto

abbreviation touched_keys :: "command list \<Rightarrow> bytes list \<Rightarrow> bytes list" where
  "touched_keys cs watched \<equiv> watched @ concat (map visit_keys cs)"

lemma fold_mark_commands:
  "fold (\<lambda>c. fold (mark_owner r) (visit_keys c)) cs bitmap = fold (mark_owner r) (concat (map visit_keys cs)) bitmap"
  by (induction cs arbitrary: bitmap) simp_all

lemma participants_eq:
  assumes "router_ok r"
  shows "transaction_participants r cs watched =
    (if touched_keys cs watched = [] then [0]
     else filter (\<lambda>i. i \<in> shard_for r ` set (touched_keys cs watched)) [0..<sr_count r])"
proof -
  let ?keys = "touched_keys cs watched" and ?b = "fold (mark_owner r) (touched_keys cs watched) (replicate MAX_SHARDS False)"
  have less: "shard_for r k < sr_count r" "shard_for r k < MAX_SHARDS" for k
    using shard_for_less [OF assms, of k] assms by auto
  have b: "length ?b = MAX_SHARDS" "\<And>i. i < MAX_SHARDS \<Longrightarrow> ?b ! i \<longleftrightarrow> i \<in> shard_for r ` set ?keys"
    using fold_mark [of ?keys r "replicate MAX_SHARDS False"] less by auto
  have "map fst (filter snd (List.enumerate 0 (take (sr_count r) ?b))) = filter (\<lambda>i. i \<in> shard_for r ` set ?keys) [0..<sr_count r]"
    unfolding owners_of_bitmap [of "sr_count r" ?b, unfolded b(1), OF conjunct2 [OF assms]]
  proof (rule filter_cong [OF refl])
    fix i
    assume "i \<in> set [0..<sr_count r]"
    then have "i < MAX_SHARDS" using assms by simp
    then show "?b ! i \<longleftrightarrow> i \<in> shard_for r ` set ?keys" by (rule b(2))
  qed
  moreover have "filter (\<lambda>i. i \<in> shard_for r ` set ks) [0..<sr_count r] = [] \<longleftrightarrow> ks = []" for ks
    using less(1) by (cases ks) (auto simp: filter_empty_conv)
  ultimately show ?thesis
    unfolding transaction_participants_def fold_mark_commands Let_def by (simp only: fold_append comp_apply)
qed

lemma visit_selected_eq:
  "visit_selected r keys crossed (Some s) = (crossed \<or> (\<exists>k\<in>set keys. shard_for r k \<noteq> s), Some s)"
  by (induction keys arbitrary: crossed) (auto simp: select_key_def Let_def)

text \<open>
  C22. A command is routed to a shard exactly when all its keys belong there: \<open>route\<close>
  answers with the common shard of the keys, with shard zero for a command without
  keys, and refuses with \<open>CrossShard\<close> otherwise; the owners found for a transaction are
  the shards of all the keys queued or watched, ascending and without repetition (shard
  zero when there are none), and every one exists.
\<close>

theorem routing_correct:
  assumes "router_ok r"
  shows "route r c = (if visit_keys c = [] then Inr 0
      else if \<exists>s. \<forall>k\<in>set (visit_keys c). shard_for r k = s then Inr (shard_for r (hd (visit_keys c)))
      else Inl ECrossShard)
    \<and> set (transaction_participants r cs watched)
      = (if touched_keys cs watched = [] then {0} else shard_for r ` set (touched_keys cs watched))
    \<and> sorted_wrt (<) (transaction_participants r cs watched)
    \<and> (\<forall>s\<in>set (transaction_participants r cs watched). s < sr_count r)"
proof (intro conjI)
  show "route r c = (if visit_keys c = [] then Inr 0
      else if \<exists>s. \<forall>k\<in>set (visit_keys c). shard_for r k = s then Inr (shard_for r (hd (visit_keys c)))
      else Inl ECrossShard)"
  proof (cases "visit_keys c")
    case (Cons k keys)
    then show ?thesis
      by (auto simp: route_def select_command_def select_key_def visit_selected_eq Let_def)
  qed (simp add: route_def select_command_def)
  show "set (transaction_participants r cs watched)
      = (if touched_keys cs watched = [] then {0} else shard_for r ` set (touched_keys cs watched))"
    using shard_for_less [OF assms] by (simp only: participants_eq [OF assms]) auto
  show "sorted_wrt (<) (transaction_participants r cs watched)"
    by (simp only: participants_eq [OF assms]) (simp add: sorted_wrt_filter)
  show "\<forall>s\<in>set (transaction_participants r cs watched). s < sr_count r"
    using assms by (simp only: participants_eq [OF assms]) auto
qed

text \<open>
  C28. Dividing the quota loses and invents nothing: for a valid layout and a total of at
  least one byte per shard, every shard has a share of at least one byte, two shares
  differ by at most one, and the shares add up to the total.
\<close>

theorem quota_shares:
  assumes "layout_validate l = Inr ()" "shard_count l \<le> total_bytes"
  shows "\<exists>share. (\<forall>s < shard_count l. layout_quota l total_bytes s = Inr (share s) \<and> 1 \<le> share s)
    \<and> (\<Sum>s < shard_count l. share s) = total_bytes
    \<and> (\<forall>s < shard_count l. \<forall>u < shard_count l. share s \<le> share u + 1)"
proof -
  let ?n = "shard_count l"
  let ?share = "\<lambda>s. total_bytes div ?n + of_bool (s < total_bytes mod ?n)"
  have n: "0 < ?n" using assms(1) by (auto simp: layout_validate_def router_new_def result_simps)
  have "{..<?n} \<inter> {s. s < total_bytes mod ?n} = {..<total_bytes mod ?n}"
    using mod_less_divisor [OF n, of total_bytes] by auto
  then have "(\<Sum>s < ?n. ?share s) = ?n * (total_bytes div ?n) + total_bytes mod ?n"
    by (simp add: sum.distrib sum_of_bool_eq)
  then have "(\<Sum>s < ?n. ?share s) = total_bytes" by simp
  moreover have "1 \<le> total_bytes div ?n" using n assms(2) by (simp add: div_greater_zero_iff Suc_le_eq)
  ultimately show ?thesis using assms by (intro exI [of _ ?share]) (auto simp: layout_quota_def)
qed

theorem routing_correct_witness:
  "route \<lparr>sr_count = 4\<rparr> (CMGet [''{t}a'', ''{t}b'']) = Inr (shard_for \<lparr>sr_count = 4\<rparr> ''t'')"
proof -
  have "router_ok \<lparr>sr_count = 4\<rparr>" by (simp add: MAX_SHARDS_def)
  from routing_correct [OF this, of "CMGet [''{t}a'', ''{t}b'']" "[]" "[]"] show ?thesis
    by (simp add: shard_for_def hash_tag_def)
qed

theorem quota_shares_witness:
  "\<exists>share. (\<Sum>s < (3 :: nat). share s) = (10 :: nat) \<and> layout_quota \<lparr>shard_count = 3, routing_version = 1\<rparr> 10 0 = Inr (share 0)"
proof -
  let ?l = "\<lparr>shard_count = 3, routing_version = 1\<rparr>"
  have "layout_validate ?l = Inr ()" "shard_count ?l \<le> 10"
    by (simp_all add: layout_validate_def router_new_def MAX_SHARDS_def ROUTING_VERSION_def)
  from quota_shares [OF this] show ?thesis by auto
qed

end
