(* ===== verification/Codec.thy ===== *)
theory Codec
  imports Prelude
begin

unbundle bit_operations_syntax

text \<open>
  The byte level of the durable formats (\<open>src/src/persistence/format.rs\<close>): little-endian
  integers, the checksum, a reader with its end-of-file and its faults, and the
  bounds-checked cursor. A parser takes a cursor and returns an error, or a result
  and the advanced cursor. The locale \<open>wire_codec\<close> states what a decoder promises
  of the bytes its encoder writes; repeated fields are decoded once, inside it.
\<close>

section \<open>Little-endian integers\<close>

text \<open>\<open>to_le_bytes\<close> of an unsigned integer of \<open>n\<close> bytes; a cast to that width is part of it.\<close>

fun le_bytes :: "nat \<Rightarrow> nat \<Rightarrow> bytes" where
  "le_bytes 0 x = []"
| "le_bytes (Suc n) x = char_of (x mod 256) # le_bytes n (x div 256)"

fun of_le :: "bytes \<Rightarrow> nat" where
  "of_le [] = 0"
| "of_le (c # cs) = of_char c + 256 * of_le cs"

definition i64_to_le :: "int \<Rightarrow> bytes" where
  "i64_to_le i = le_bytes 8 (nat (i mod 18446744073709551616))"

definition i64_of_le :: "bytes \<Rightarrow> int" where
  "i64_of_le b =
     (let n = int (of_le b) in if n < 9223372036854775808 then n else n - 18446744073709551616)"

abbreviation u32_to_le :: "nat \<Rightarrow> bytes" where
  "u32_to_le \<equiv> le_bytes 4"

abbreviation u64_to_le :: "u64 \<Rightarrow> bytes" where
  "u64_to_le w \<equiv> le_bytes 8 (unat w)"

lemma length_le_bytes [simp]: "length (le_bytes n x) = n"
  by (induction n arbitrary: x) simp_all

lemma length_i64_to_le [simp]: "length (i64_to_le i) = 8"
  by (simp add: i64_to_le_def)

lemma of_le_le_bytes: "of_le (le_bytes n x) = x mod 256 ^ n"
proof (induction n arbitrary: x)
  case (Suc n)
  have "x mod 256 ^ Suc n = x mod 256 + 256 * (x div 256 mod 256 ^ n)"
    using mod_mult2_eq' [of x 256 "256 ^ n"] by (simp add: mult.commute)
  with Suc show ?case by simp
qed simp

lemma of_le_less: "of_le b < 256 ^ length b"
proof (induction b)
  case (Cons c b)
  have "of_char c < (256 :: nat)" by simp
  with Cons show ?case by (simp only: of_le.simps length_Cons power_Suc)
qed simp

lemma le_bytes_of_le [simp]: "length b = n \<Longrightarrow> le_bytes n (of_le b) = b"
proof (induction b arbitrary: n)
  case (Cons c b)
  then obtain m where n: "n = Suc m" "length b = m" by auto
  have "of_char c < (256 :: nat)" by simp
  then show ?case using Cons.IH [OF n(2)] by (simp add: n(1))
qed simp

lemma of_le_inj: "length b = length b' \<Longrightarrow> of_le b = of_le b' \<longleftrightarrow> b = b'"
  by (metis le_bytes_of_le)

lemma of_le_u32 [simp]: "n < 4294967296 \<Longrightarrow> of_le (u32_to_le n) = n"
  by (simp add: of_le_le_bytes)

lemma of_le_u64 [simp]: "of_le (u64_to_le w) = unat w"
proof -
  have "unat w < 2 ^ LENGTH(64)" by (rule unsigned_less)
  then show ?thesis by (simp add: of_le_le_bytes)
qed

lemma i64_le_roundtrip [simp]: "i64_ok i \<Longrightarrow> i64_of_le (i64_to_le i) = i"
proof -
  assume ok: "i64_ok i"
  have "nat (i mod 18446744073709551616) < 18446744073709551616" by simp
  then have "of_le (i64_to_le i) = nat (i mod 18446744073709551616)"
    by (simp add: i64_to_le_def of_le_le_bytes)
  moreover have "i mod 18446744073709551616 = (if 0 \<le> i then i else i + 18446744073709551616)"
  proof (cases "0 \<le> i")
    case False
    then have "(i + 18446744073709551616) mod 18446744073709551616 = i + 18446744073709551616"
      using ok by (intro mod_pos_pos_trivial) (auto simp: i64_ok_def I64_MIN_def)
    with False show ?thesis by simp
  qed (use ok in \<open>auto simp: i64_ok_def I64_MAX_def\<close>)
  ultimately show ?thesis using ok by (auto simp: i64_of_le_def Let_def i64_ok_def I64_MIN_def I64_MAX_def)
qed

section \<open>Checksum\<close>

text \<open>CRC-32/ISO-HDLC. One bit of the table's loop, a table entry, one byte.\<close>

definition crc_bit :: "u32 \<Rightarrow> u32" where
  "crc_bit crc = (if crc AND 1 \<noteq> 0 then drop_bit 1 crc XOR 0xEDB88320 else drop_bit 1 crc)"

definition crc_table :: "u32 \<Rightarrow> u32" where
  "crc_table index = (crc_bit ^^ 8) index"

definition u32_of_byte :: "byte \<Rightarrow> u32" where
  "u32_of_byte b = of_nat (of_char b)"

definition crc_byte :: "byte \<Rightarrow> u32 \<Rightarrow> u32" where
  "crc_byte b crc = crc_table ((crc XOR u32_of_byte b) AND 255) XOR drop_bit 8 crc"

definition checksum :: "bytes \<Rightarrow> u32" where
  "checksum b = NOT (fold crc_byte b (- 1))"

definition snapshot_digest :: "u32 \<Rightarrow> bytes \<Rightarrow> u32" where
  "snapshot_digest previous encoded =
     checksum (le_bytes 4 (unat previous) @ le_bytes 4 (unat (checksum encoded)))"

text \<open>The reference: the register is shifted eight times per byte, without a table.\<close>

definition crc_reference :: "bytes \<Rightarrow> u32" where
  "crc_reference b = NOT (fold (\<lambda>c crc. (crc_bit ^^ 8) (crc XOR u32_of_byte c)) b (- 1))"

lemma crc_bit_eq: "crc_bit x = drop_bit 1 x XOR (if bit x 0 then 0xEDB88320 else 0)"
  by (simp add: crc_bit_def and_one_eq bit_0 odd_iff_mod_2_eq_one)

lemma crc_bit_xor: "crc_bit (x XOR y) = crc_bit x XOR crc_bit y"
  by (rule bit_eqI) (auto simp: crc_bit_eq bit_simps)

lemma crc_bits_xor: "(crc_bit ^^ n) (x XOR y) = (crc_bit ^^ n) x XOR (crc_bit ^^ n) y"
  by (induction n) (simp_all add: crc_bit_xor)

lemma crc_bits_high:
  "(\<And>i. i < n \<Longrightarrow> \<not> bit x i) \<Longrightarrow> (crc_bit ^^ n) x = drop_bit n x"
proof (induction n)
  case (Suc n)
  then have "\<not> bit (drop_bit n x) 0" by (simp add: bit_drop_bit_eq)
  moreover have "(crc_bit ^^ n) x = drop_bit n x" using Suc by simp
  ultimately show ?case by (simp add: crc_bit_eq [of "drop_bit n x"])
qed simp

lemma u32_of_byte_high: "8 \<le> i \<Longrightarrow> \<not> bit (u32_of_byte b) i"
proof -
  assume "8 \<le> i"
  have "take_bit 8 (of_char b :: nat) = of_char b" by (simp add: take_bit_nat_eq_self)
  then have "bit (of_char b :: nat) i \<Longrightarrow> i < 8" by (metis bit_take_bit_iff)
  with \<open>8 \<le> i\<close> show ?thesis by (auto simp: u32_of_byte_def bit_of_nat_iff)
qed

lemma crc_byte_bitwise: "crc_byte b crc = (crc_bit ^^ 8) (crc XOR u32_of_byte b)"
proof -
  let ?x = "crc XOR u32_of_byte b :: u32"
  have low: "\<not> bit (u32_of_byte b) i" if "8 \<le> i" for i
    using that by (simp add: u32_of_byte_high)
  have m: "(255 :: u32) = mask 8" by (simp add: mask_eq_exp_minus_1)
  have x: "?x = (?x AND 255) XOR (?x AND NOT 255)"
    by (rule bit_eqI) (auto simp: bit_simps)
  have "(crc_bit ^^ 8) (?x AND NOT 255) = drop_bit 8 (?x AND NOT 255)"
    by (rule crc_bits_high) (auto simp: bit_simps m)
  moreover have "drop_bit 8 (?x AND NOT 255) = drop_bit 8 crc"
    by (rule bit_eqI) (auto simp: bit_simps low m dest: bit_imp_le_length)
  ultimately have "(crc_bit ^^ 8) ?x = crc_table (?x AND 255) XOR drop_bit 8 crc"
    by (subst x, subst crc_bits_xor) (simp add: crc_table_def)
  then show ?thesis by (simp add: crc_byte_def)
qed

lemma checksum_reference: "checksum b = crc_reference b"
  by (simp add: checksum_def crc_reference_def crc_byte_bitwise [abs_def])

lemma xor_cancel: "x XOR z = y XOR z \<longleftrightarrow> x = y" for x y z :: u32
  by (metis xor_self_eq xor.assoc xor.right_neutral)

lemma crc_bit_inj: "crc_bit x = crc_bit y \<longleftrightarrow> x = y"
proof
  assume e: "crc_bit x = crc_bit y"
  have "bit (crc_bit z) 31 = bit z 0" for z
    using bit_imp_le_length [of z 32] by (auto simp: crc_bit_eq bit_simps)
  then have b0: "bit x 0 = bit y 0" using e by metis
  then have "drop_bit 1 x = drop_bit 1 y" using e by (simp add: crc_bit_eq xor_cancel)
  then have "bit x (Suc i) = bit y (Suc i)" for i by (metis bit_drop_bit_eq comp_apply plus_1_eq_Suc)
  with b0 show "x = y" by (intro bit_eqI) (metis not0_implies_Suc)
qed simp

lemma crc_bits_inj: "(crc_bit ^^ n) x = (crc_bit ^^ n) y \<longleftrightarrow> x = y"
  by (induction n) (simp_all add: crc_bit_inj)

lemma crc_register_inj: "fold crc_byte b x = fold crc_byte b y \<longleftrightarrow> x = y"
proof (induction b arbitrary: x y)
  case (Cons c b)
  have "crc_byte c x = crc_byte c y \<longleftrightarrow> x = y"
    by (simp add: crc_byte_bitwise crc_bits_inj xor_cancel)
  with Cons show ?case by simp
qed simp

lemma u32_of_byte_inj: "u32_of_byte a = u32_of_byte b \<longleftrightarrow> a = b"
proof
  assume "u32_of_byte a = u32_of_byte b"
  moreover have "unat (u32_of_byte c) = of_char c" for c
  proof -
    have "of_char c < (2 :: nat) ^ 32" by (rule less_trans [of _ 256]) simp_all
    then show ?thesis by (simp add: u32_of_byte_def unat_of_nat take_bit_nat_eq_self)
  qed
  ultimately show "a = b" by (metis char_of_char)
qed simp

lemma checksum_one_byte:
  assumes "a \<noteq> b"
  shows "checksum (pre @ a # post) \<noteq> checksum (pre @ b # post)"
proof -
  let ?x = "fold crc_byte pre (- 1)"
  have "crc_byte a ?x \<noteq> crc_byte b ?x"
  proof
    assume "crc_byte a ?x = crc_byte b ?x"
    then have "u32_of_byte a XOR ?x = u32_of_byte b XOR ?x" by (simp add: crc_byte_bitwise crc_bits_inj xor.commute)
    with assms show False by (simp add: xor_cancel u32_of_byte_inj)
  qed
  then show ?thesis by (simp add: checksum_def crc_register_inj)
qed

section \<open>Errors and readers\<close>

datatype io_error = UnexpectedEof | OtherIo nat

datatype format_error = FeIo io_error | FeHeader | FeVersion nat | FeLimit | FeCorrupt string

text \<open>An \<open>impl Read\<close>: the bytes it still gives, and the fault that follows them
  (\<open>None\<close> is the end of the file). A read interrupted by a signal is retried by the
  code and is not visible here.\<close>

record input =
  in_bytes :: bytes
  in_fault :: "nat option"

definition exhausted :: "input \<Rightarrow> io_error" where
  "exhausted i = (case in_fault i of None \<Rightarrow> UnexpectedEof | Some e \<Rightarrow> OtherIo e)"

definition read_exact :: "nat \<Rightarrow> input \<Rightarrow> io_error + bytes \<times> input" where
  "read_exact n i =
     (if n \<le> length (in_bytes i) then Inr (take n (in_bytes i), i\<lparr>in_bytes := drop n (in_bytes i)\<rparr>)
      else Inl (exhausted i))"

text \<open>\<open>read\<close> of at most one byte: \<open>None\<close> at the end of the file.\<close>

definition read_one :: "input \<Rightarrow> io_error + (byte \<times> input) option" where
  "read_one i =
     (case in_bytes i of
        b # bs \<Rightarrow> Inr (Some (b, i\<lparr>in_bytes := bs\<rparr>))
      | [] \<Rightarrow> (case in_fault i of None \<Rightarrow> Inr None | Some e \<Rightarrow> Inl (OtherIo e)))"

section \<open>Cursors\<close>

record cursor =
  cur_bytes :: bytes
  cur_offset :: nat

type_synonym 'a parser = "cursor \<Rightarrow> format_error + 'a \<times> cursor"

definition parse_bind :: "'a parser \<Rightarrow> ('a \<Rightarrow> 'b parser) \<Rightarrow> 'b parser" where
  "parse_bind p f c = res_bind (p c) (\<lambda>(x, c). f x c)"

definition parse_return :: "'a \<Rightarrow> 'a parser" where
  "parse_return x c = Inr (x, c)"

definition parse_lift :: "format_error + 'a \<Rightarrow> 'a parser" where
  "parse_lift m c = res_bind m (\<lambda>x. Inr (x, c))"

definition cursor_take :: "nat \<Rightarrow> bytes parser" where
  "cursor_take count c =
     res_bind (ok_or (opt_filter (\<lambda>end. end \<le> length (cur_bytes c)) (checked_add (cur_offset c) count))
       (FeCorrupt ''internal length''))
       (\<lambda>end. Inr (take (end - cur_offset c) (drop (cur_offset c) (cur_bytes c)), c\<lparr>cur_offset := end\<rparr>))"

definition cursor_byte :: "byte parser" where
  "cursor_byte = parse_bind (cursor_take 1) (\<lambda>b. parse_return (hd b))"

definition cursor_u32 :: "nat parser" where
  "cursor_u32 = parse_bind (cursor_take 4) (\<lambda>b. parse_return (of_le b))"

definition cursor_u64 :: "u64 parser" where
  "cursor_u64 = parse_bind (cursor_take 8) (\<lambda>b. parse_return (of_nat (of_le b)))"

definition cursor_i64 :: "int parser" where
  "cursor_i64 = parse_bind (cursor_take 8) (\<lambda>b. parse_return (i64_of_le b))"

definition cursor_rest :: "cursor \<Rightarrow> nat" where
  "cursor_rest c = length (cur_bytes c) - cur_offset c"

text \<open>A counted loop that adds each decoded item to an accumulator, which may refuse it.\<close>

fun read_into :: "nat \<Rightarrow> 'a parser \<Rightarrow> ('a \<Rightarrow> 's \<Rightarrow> format_error + 's) \<Rightarrow> 's \<Rightarrow> 's parser" where
  "read_into 0 p add acc = parse_return acc"
| "read_into (Suc n) p add acc = parse_bind p (\<lambda>x. parse_bind (parse_lift (add x acc)) (read_into n p add))"

text \<open>A counted loop over a state.\<close>

fun read_loop :: "nat \<Rightarrow> ('s \<Rightarrow> 's parser) \<Rightarrow> 's \<Rightarrow> 's parser" where
  "read_loop 0 step s = parse_return s"
| "read_loop (Suc n) step s = parse_bind (step s) (read_loop n step)"

section \<open>What a decoder promises\<close>

text \<open>The cursor stands before the bytes \<open>w\<close>, which are the rest of its input.\<close>

definition at :: "bytes \<Rightarrow> cursor \<Rightarrow> bool" where
  "at w c \<longleftrightarrow> cur_offset c \<le> length (cur_bytes c) \<and> drop (cur_offset c) (cur_bytes c) = w
     \<and> length (cur_bytes c) \<le> USIZE_MAX"

definition advance :: "nat \<Rightarrow> cursor \<Rightarrow> cursor" where
  "advance n c = c\<lparr>cur_offset := cur_offset c + n\<rparr>"

lemma advance_advance [simp]: "advance n (advance m c) = advance (m + n) c"
  by (simp add: advance_def add.assoc)

lemma advance_0 [simp]: "advance 0 c = c"
  by (simp add: advance_def)

lemma at_advance: "at (x @ w) c \<Longrightarrow> length x = n \<Longrightarrow> at w (advance n c)"
proof -
  assume a: "at (x @ w) c" and n: "length x = n"
  then have d: "drop (cur_offset c) (cur_bytes c) = x @ w" by (simp add: at_def)
  have "drop (cur_offset c + n) (cur_bytes c) = drop n (drop (cur_offset c) (cur_bytes c))" by (simp add: add.commute)
  then have "drop (cur_offset c + n) (cur_bytes c) = w" using d n by simp
  moreover have "length (cur_bytes c) - cur_offset c = n + length w" using arg_cong [OF d, of length] n by simp
  then have "cur_offset c + n \<le> length (cur_bytes c)" using a unfolding at_def by linarith
  ultimately show ?thesis using a by (simp add: at_def advance_def)
qed

lemma cursor_rest_at: "at w c \<Longrightarrow> cursor_rest c = length w"
  by (auto simp: at_def cursor_rest_def)

lemma cursor_take_at: "at (x @ w) c \<Longrightarrow> length x = n \<Longrightarrow> cursor_take n c = Inr (x, advance n c)"
proof -
  assume a: "at (x @ w) c" and n: "length x = n"
  then have d: "drop (cur_offset c) (cur_bytes c) = x @ w" "length (cur_bytes c) \<le> USIZE_MAX" by (auto simp: at_def)
  have "length (cur_bytes c) - cur_offset c = n + length w" using arg_cong [OF d(1), of length] n by simp
  then have "cur_offset c + n \<le> length (cur_bytes c)" using a by (cases "n + length w = 0") (auto simp: at_def)
  then show ?thesis using d n by (simp add: cursor_take_def checked_add_def advance_def)
qed

lemma parse_bind_at: "p c = Inr (x, c') \<Longrightarrow> parse_bind p f c = f x c'"
  by (simp add: parse_bind_def)

lemma cursor_byte_at: "at (b # w) c \<Longrightarrow> cursor_byte c = Inr (b, advance 1 c)"
  using cursor_take_at [of "[b]" w c 1] by (simp add: cursor_byte_def parse_bind_def parse_return_def)

lemma cursor_u32_at: "at (u32_to_le n @ w) c \<Longrightarrow> n < 4294967296 \<Longrightarrow> cursor_u32 c = Inr (n, advance 4 c)"
  using cursor_take_at [of "u32_to_le n" w c 4] by (simp add: cursor_u32_def parse_bind_def parse_return_def)

lemma cursor_u64_at: "at (u64_to_le n @ w) c \<Longrightarrow> cursor_u64 c = Inr (n, advance 8 c)"
  using cursor_take_at [of "u64_to_le n" w c 8] by (simp add: cursor_u64_def parse_bind_def parse_return_def)

lemma cursor_i64_at: "at (i64_to_le i @ w) c \<Longrightarrow> i64_ok i \<Longrightarrow> cursor_i64 c = Inr (i, advance 8 c)"
  using cursor_take_at [of "i64_to_le i" w c 8] by (simp add: cursor_i64_def parse_bind_def parse_return_def)

lemmas cursor_at = cursor_take_at cursor_byte_at cursor_u32_at cursor_u64_at cursor_i64_at

fun fold_add :: "('a \<Rightarrow> 's \<Rightarrow> format_error + 's) \<Rightarrow> 'a list \<Rightarrow> 's \<Rightarrow> format_error + 's" where
  "fold_add add [] acc = Inr acc"
| "fold_add add (x # xs) acc = res_bind (add x acc) (fold_add add xs)"

lemma read_loop_at:
  assumes "\<And>s x xs w c. R s (x # xs) \<Longrightarrow> at (enc x @ w) c \<Longrightarrow>
      \<exists>s'. step s c = Inr (s', advance (length (enc x)) c) \<and> R s' xs"
  shows "R s xs \<Longrightarrow> at (concat (map enc xs) @ w) c \<Longrightarrow>
    \<exists>s'. read_loop (length xs) step s c = Inr (s', advance (length (concat (map enc xs))) c) \<and> R s' []"
proof (induction xs arbitrary: s c)
  case (Cons x xs)
  have a: "at (enc x @ concat (map enc xs) @ w) c" using Cons.prems(2) by simp
  obtain s1 where s1: "step s c = Inr (s1, advance (length (enc x)) c)" "R s1 xs"
    using assms [OF Cons.prems(1) a] by blast
  from Cons.IH [OF s1(2) at_advance [OF a refl]] s1(1) show ?case by (auto simp: parse_bind_def)
qed (simp add: parse_return_def)

text \<open>Items are valid as far as the encoder accepts them.\<close>

locale wire_codec =
  fixes enc :: "'a \<Rightarrow> bytes" and dec :: "'a parser" and valid :: "'a \<Rightarrow> bool"
  assumes decodes: "valid x \<Longrightarrow> at (enc x @ w) c \<Longrightarrow> dec c = Inr (x, advance (length (enc x)) c)"
begin

lemma read_into_at:
  "list_all valid xs \<Longrightarrow> fold_add add xs acc = Inr acc' \<Longrightarrow> at (concat (map enc xs) @ w) c \<Longrightarrow>
     read_into (length xs) dec add acc c = Inr (acc', advance (length (concat (map enc xs))) c)"
proof (induction xs arbitrary: acc c)
  case (Cons x xs)
  obtain acc1 where a: "add x acc = Inr acc1" "fold_add add xs acc1 = Inr acc'"
    using Cons.prems(2) by (auto simp: result_simps)
  have "at (enc x @ concat (map enc xs) @ w) c" using Cons.prems(3) by simp
  then have "dec c = Inr (x, advance (length (enc x)) c)" "at (concat (map enc xs) @ w) (advance (length (enc x)) c)"
    using decodes Cons.prems(1) at_advance by auto
  with Cons.IH [OF _ a(2)] Cons.prems(1) a(1) show ?case
    by (simp add: parse_bind_def parse_lift_def)
qed (simp add: parse_return_def)

end

end
