(* ===== verification/Aof_Format.thy ===== *)
theory Aof_Format
  imports Codec Mutation Routing
begin

text \<open>
  The append-only file, record version 1 (\<open>src/src/persistence/format.rs\<close>, with the
  role metadata of \<open>src/src/persistence/role.rs\<close>): the headers, the records framed by
  their length, its complement and a checksum, and their decoder.
\<close>

section \<open>Types\<close>

datatype role = Primary | Replica

record replication_metadata =
  rm_role :: role
  rm_epoch :: bytes

definition MAGIC :: bytes where "MAGIC = ''SIDERAOF''"

definition AOF_VERSION :: nat where "AOF_VERSION = 1"

definition HEADER_BYTES :: nat where "HEADER_BYTES = 24"

definition LAYOUT_VERSION :: nat where "LAYOUT_VERSION = 2"

definition LAYOUT_HEADER_BYTES :: nat where "LAYOUT_HEADER_BYTES = 32"

definition REPLICATION_VERSION :: nat where "REPLICATION_VERSION = 3"

definition REPLICATION_HEADER_BYTES :: nat where "REPLICATION_HEADER_BYTES = 52"

definition MAX_RECORD_BYTES :: nat where "MAX_RECORD_BYTES = 67108864"

record aof_limits =
  max_record_bytes :: nat
  max_mutations :: nat

definition aof_limits_default :: aof_limits where
  "aof_limits_default = \<lparr>max_record_bytes = MAX_RECORD_BYTES, max_mutations = 100000\<rparr>"

record aof_header =
  ah_sequence :: u64
  ah_layout :: durable_layout
  ah_version :: nat
  ah_bytes :: nat
  ah_replication :: "replication_metadata option"

datatype aof_record =
    RecSnapshot mutation
  | RecSeal u64 u64 u32
  | RecBatch u64 resolved_batch

datatype aof_next = NextEnd | NextIncomplete | NextRecord aof_record

section \<open>Headers\<close>

definition u32_word_to_le :: "u32 \<Rightarrow> bytes" where
  "u32_word_to_le w = le_bytes 4 (unat w)"

definition sealed :: "bytes \<Rightarrow> bytes" where
  "sealed b = b @ u32_word_to_le (checksum b)"

definition write_header :: "u64 \<Rightarrow> bytes" where
  "write_header sequence = sealed (MAGIC @ u32_to_le AOF_VERSION @ u64_to_le sequence)"

fun role_byte :: "role \<Rightarrow> byte" where
  "role_byte Primary = char_of (1 :: nat)"
| "role_byte Replica = char_of (2 :: nat)"

definition encode_metadata :: "replication_metadata option \<Rightarrow> bytes" where
  "encode_metadata r =
     (case r of None \<Rightarrow> [] | Some m \<Rightarrow> role_byte (rm_role m) # replicate 3 (char_of (0 :: nat)) @ rm_epoch m)"

definition write_header_with_replication ::
  "u64 \<Rightarrow> durable_layout \<Rightarrow> replication_metadata option \<Rightarrow> format_error + bytes" where
  "write_header_with_replication sequence layout replication =
     res_bind (map_err (\<lambda>_. FeCorrupt ''shard configuration'') (layout_validate layout)) (\<lambda>_.
       Inr (sealed (MAGIC @ u32_to_le (if replication = None then LAYOUT_VERSION else REPLICATION_VERSION)
         @ u64_to_le sequence @ u32_to_le (shard_count layout) @ u32_to_le (routing_version layout)
         @ encode_metadata replication)))"

definition write_header_with_layout :: "u64 \<Rightarrow> durable_layout \<Rightarrow> format_error + bytes" where
  "write_header_with_layout sequence layout = write_header_with_replication sequence layout None"

text \<open>A header that ends early is an invalid header; other faults are reported.\<close>

definition read_header_exact :: "nat \<Rightarrow> input \<Rightarrow> format_error + bytes \<times> input" where
  "read_header_exact n i =
     (case read_exact n i of
        Inl UnexpectedEof \<Rightarrow> Inl FeHeader
      | Inl e \<Rightarrow> Inl (FeIo e)
      | Inr r \<Rightarrow> Inr r)"

definition slice_of :: "nat \<Rightarrow> nat \<Rightarrow> bytes \<Rightarrow> bytes" where
  "slice_of a b xs = take (b - a) (drop a xs)"

definition header_size :: "nat \<Rightarrow> format_error + nat" where
  "header_size version =
     (if version = AOF_VERSION then Inr HEADER_BYTES
      else if version = LAYOUT_VERSION then Inr LAYOUT_HEADER_BYTES
      else if version = REPLICATION_VERSION then Inr REPLICATION_HEADER_BYTES
      else Inl (FeVersion version))"

definition decode_metadata :: "bytes \<Rightarrow> format_error + replication_metadata" where
  "decode_metadata h =
     res_bind (ensure (slice_of 29 32 h = replicate 3 (char_of (0 :: nat))) (FeCorrupt ''replication reserved field'')) (\<lambda>_.
     res_bind (if h ! 28 = char_of (1 :: nat) then Inr Primary
               else if h ! 28 = char_of (2 :: nat) then Inr Replica
               else Inl (FeCorrupt ''replication role'')) (\<lambda>role.
       Inr \<lparr>rm_role = role, rm_epoch = slice_of 32 48 h\<rparr>))"

definition read_header_with_layout :: "input \<Rightarrow> format_error + aof_header \<times> input" where
  "read_header_with_layout i =
     res_bind (read_header_exact 12 i) (\<lambda>(prefix, i).
     res_bind (ensure (take 8 prefix = MAGIC) FeHeader) (\<lambda>_.
       let version = of_le (slice_of 8 12 prefix)
       in res_bind (header_size version) (\<lambda>bytes.
          res_bind (read_header_exact (bytes - 12) i) (\<lambda>(rest, i).
            let h = prefix @ rest
            in res_bind (ensure (unat (checksum (take (bytes - 4) h)) = of_le (drop (bytes - 4) h)) FeHeader) (\<lambda>_.
               let layout = (if version = AOF_VERSION then layout_default
                     else \<lparr>shard_count = of_le (slice_of 20 24 h), routing_version = of_le (slice_of 24 28 h)\<rparr>)
               in res_bind (map_err (\<lambda>_. FeCorrupt ''shard configuration'') (layout_validate layout)) (\<lambda>_.
                  res_bind (if version = REPLICATION_VERSION
                            then res_bind (decode_metadata h) (\<lambda>m. Inr (Some m)) else Inr None) (\<lambda>replication.
                    Inr (\<lparr>ah_sequence = of_nat (of_le (slice_of 12 20 h)), ah_layout = layout, ah_version = version,
                          ah_bytes = bytes, ah_replication = replication\<rparr>, i))))))))"

definition read_header :: "input \<Rightarrow> format_error + u64 \<times> input" where
  "read_header i = res_bind (read_header_with_layout i) (\<lambda>(h, i). Inr (ah_sequence h, i))"

section \<open>Sizes\<close>

definition U32_MAX :: nat where "U32_MAX = 4294967295"

definition blob_size :: "bytes \<Rightarrow> format_error + nat" where
  "blob_size v =
     res_bind (ensure (length v \<le> U32_MAX) FeLimit) (\<lambda>_. ok_or (checked_add (length v) 4) FeLimit)"

text \<open>\<open>try_fold\<close>: each item adds its size, which may fail.\<close>

fun sum_sizes :: "('a \<Rightarrow> nat \<Rightarrow> format_error + nat) \<Rightarrow> 'a list \<Rightarrow> nat \<Rightarrow> format_error + nat" where
  "sum_sizes f [] acc = Inr acc"
| "sum_sizes f (x # xs) acc = res_bind (f x acc) (sum_sizes f xs)"

definition add_blob :: "bytes \<Rightarrow> nat \<Rightarrow> format_error + nat" where
  "add_blob v acc = res_bind (blob_size v) (\<lambda>n. ok_or (checked_add acc n) FeLimit)"

definition add_scored :: "score \<times> bytes \<Rightarrow> nat \<Rightarrow> format_error + nat" where
  "add_scored = (\<lambda>(_, member) acc.
     res_bind (blob_size member) (\<lambda>n.
       ok_or (Option.bind (checked_add acc n) (\<lambda>s. checked_add s 8)) FeLimit))"

definition add_field :: "bytes \<times> bytes \<Rightarrow> nat \<Rightarrow> format_error + nat" where
  "add_field = (\<lambda>(field, v) acc.
     res_bind (blob_size field) (\<lambda>n.
       ok_or (Option.bind (checked_add acc n) (\<lambda>s.
         case blob_size v of Inl _ \<Rightarrow> None | Inr k \<Rightarrow> checked_add s k)) FeLimit))"

definition counted :: "nat \<Rightarrow> string \<Rightarrow> format_error + unit" where
  "counted n what = ensure (\<not> (n = 0 \<or> n > U32_MAX)) (FeCorrupt what)"

fun value_size :: "value \<Rightarrow> format_error + nat" where
  "value_size (VMemory _) = Inl (FeVersion 2)"
| "value_size (VString v) = blob_size v"
| "value_size (VSortedSet z) =
     res_bind (counted (length (zs_members z)) ''sorted member count'') (\<lambda>_. sum_sizes add_scored (zs_ordered z) 4)"
| "value_size (VSet ms) = res_bind (counted (length ms) ''member count'') (\<lambda>_. sum_sizes add_blob ms 4)"
| "value_size (VList vs) = res_bind (counted (length vs) ''element count'') (\<lambda>_. sum_sizes add_blob vs 4)"
| "value_size (VHash fs) = res_bind (counted (length fs) ''field count'') (\<lambda>_. sum_sizes add_field fs 4)"

definition mutation_size :: "mutation \<Rightarrow> format_error + nat" where
  "mutation_size mu =
     res_bind (case mu of Put _ v _ \<Rightarrow> res_bind (value_size v) (\<lambda>n. Inr (checked_add n 9)) | Delete _ \<Rightarrow> Inr (Some 0)) (\<lambda>extra.
     res_bind (ensure (length (mutation_key mu) \<le> U32_MAX) FeLimit) (\<lambda>_.
       ok_or (Option.bind (checked_add (length (mutation_key mu)) 5) (\<lambda>s. Option.bind extra (checked_add s))) FeLimit))"

section \<open>Encoding\<close>

definition encode_blob :: "bytes \<Rightarrow> bytes" where
  "encode_blob v = u32_to_le (length v) @ v"

definition encode_scored :: "score \<times> bytes \<Rightarrow> bytes" where
  "encode_scored = (\<lambda>(score, member). encode_blob member @ u64_to_le (score_bits score))"

definition encode_field :: "bytes \<times> bytes \<Rightarrow> bytes" where
  "encode_field = (\<lambda>(field, v). encode_blob field @ encode_blob v)"

fun encode_value :: "value \<Rightarrow> format_error + bytes" where
  "encode_value (VMemory _) = Inl (FeVersion 2)"
| "encode_value (VString v) = Inr (encode_blob v)"
| "encode_value (VSortedSet z) =
     Inr (u32_to_le (length (zs_members z)) @ concat (map encode_scored (zs_ordered z)))"
| "encode_value (VSet ms) = Inr (u32_to_le (length ms) @ concat (map encode_blob ms))"
| "encode_value (VList vs) = Inr (u32_to_le (length vs) @ concat (map encode_blob vs))"
| "encode_value (VHash fs) = Inr (u32_to_le (length fs) @ concat (map encode_field fs))"

fun mutation_tag :: "mutation \<Rightarrow> format_error + nat" where
  "mutation_tag (Put _ (VString _) _) = Inr 1"
| "mutation_tag (Delete _) = Inr 2"
| "mutation_tag (Put _ (VHash _) _) = Inr 3"
| "mutation_tag (Put _ (VList _) _) = Inr 4"
| "mutation_tag (Put _ (VSet _) _) = Inr 5"
| "mutation_tag (Put _ (VSortedSet _) _) = Inr 6"
| "mutation_tag (Put _ (VMemory _) _) = Inl (FeVersion 2)"

definition encode_deadline :: "int option \<Rightarrow> bytes" where
  "encode_deadline d =
     char_of (of_bool (d \<noteq> None) :: nat) # i64_to_le (case d of None \<Rightarrow> 0 | Some d \<Rightarrow> d)"

definition encode_mutation :: "mutation \<Rightarrow> format_error + bytes" where
  "encode_mutation mu =
     res_bind (mutation_tag mu) (\<lambda>tag.
     res_bind (case mu of Put _ v d \<Rightarrow> res_bind (encode_value v) (\<lambda>b. Inr (b @ encode_deadline d)) | Delete _ \<Rightarrow> Inr [])
       (\<lambda>rest. Inr (char_of tag # encode_blob (mutation_key mu) @ rest)))"

fun encode_mutations :: "mutation list \<Rightarrow> format_error + bytes" where
  "encode_mutations [] = Inr []"
| "encode_mutations (mu # ms) =
     res_bind (encode_mutation mu) (\<lambda>b. res_bind (encode_mutations ms) (\<lambda>bs. Inr (b @ bs)))"

fun origin_byte :: "mutation_origin \<Rightarrow> byte" where
  "origin_byte Client = char_of (1 :: nat)"
| "origin_byte Expiration = char_of (2 :: nat)"

definition add_mutation :: "mutation \<Rightarrow> nat \<Rightarrow> format_error + nat" where
  "add_mutation mu acc =
     (case mutation_size mu of Inl _ \<Rightarrow> Inl FeLimit | Inr n \<Rightarrow> ok_or (checked_add acc n) FeLimit)"

fun record_size :: "aof_record \<Rightarrow> aof_limits \<Rightarrow> format_error + nat" where
  "record_size (RecSnapshot mu) limits =
     res_bind (mutation_size mu) (\<lambda>n. ok_or (checked_add 1 n) FeLimit)"
| "record_size (RecSeal _ _ _) limits = Inr 21"
| "record_size (RecBatch _ b) limits =
     (let ms = batch_mutations b
      in res_bind (ensure (\<not> (ms = [] \<or> length ms > max_mutations limits \<or> length ms > U32_MAX)) FeLimit) (\<lambda>_.
           sum_sizes add_mutation ms 14))"

fun encode_body :: "aof_record \<Rightarrow> format_error + bytes" where
  "encode_body (RecSnapshot mu) = res_bind (encode_mutation mu) (\<lambda>b. Inr (char_of (1 :: nat) # b))"
| "encode_body (RecSeal sequence entries digest) =
     Inr (char_of (2 :: nat) # u64_to_le sequence @ u64_to_le entries @ u32_word_to_le digest)"
| "encode_body (RecBatch sequence b) =
     res_bind (encode_mutations (batch_mutations b)) (\<lambda>bs.
       Inr (char_of (3 :: nat) # u64_to_le sequence @ origin_byte (batch_origin b)
         # u32_to_le (length (batch_mutations b)) @ bs))"

definition u32_not :: "nat \<Rightarrow> nat" where
  "u32_not n = U32_MAX - n mod 4294967296"

definition frame_record :: "nat \<Rightarrow> bytes \<Rightarrow> bytes" where
  "frame_record sz body =
     u32_to_le sz @ u32_to_le (u32_not sz) @ u32_word_to_le (checksum body) @ body"

definition encode_record :: "aof_record \<Rightarrow> aof_limits \<Rightarrow> format_error + bytes" where
  "encode_record r limits =
     res_bind (record_size r limits) (\<lambda>sz.
     res_bind (ensure (\<not> (sz > max_record_bytes limits \<or> sz > MAX_RECORD_BYTES)) FeLimit) (\<lambda>_.
     res_bind (encode_body r) (\<lambda>body. Inr (frame_record sz body))))"

section \<open>Decoding\<close>

definition cursor_blob :: "bytes parser" where
  "cursor_blob = parse_bind cursor_u32 cursor_take"

definition cursor_count :: "nat \<Rightarrow> string \<Rightarrow> nat parser" where
  "cursor_count unit what =
     parse_bind cursor_u32 (\<lambda>n c.
       if n = 0 \<or> n > cursor_rest c div unit then Inl (FeCorrupt what) else Inr (n, c))"

definition cursor_scored :: "(score \<times> bytes) parser" where
  "cursor_scored =
     parse_bind cursor_blob (\<lambda>member.
     parse_bind cursor_u64 (\<lambda>bits.
     parse_bind (parse_lift (ok_or (score_new bits) (FeCorrupt ''score NaN''))) (\<lambda>score.
       parse_return (score, member))))"

definition cursor_field :: "(bytes \<times> bytes) parser" where
  "cursor_field = parse_bind cursor_blob (\<lambda>field. parse_bind cursor_blob (\<lambda>v. parse_return (field, v)))"

definition insert_scored :: "score \<times> bytes \<Rightarrow> sorted_set \<Rightarrow> format_error + sorted_set" where
  "insert_scored = (\<lambda>(score, member) z.
     let ((created, _), z) = zs_insert member score z
     in if created then Inr z else Inl (FeCorrupt ''duplicate sorted-set member''))"

definition insert_member :: "bytes \<Rightarrow> bytes btree_set \<Rightarrow> format_error + bytes btree_set" where
  "insert_member m ms = (if m \<in> set ms then Inl (FeCorrupt ''duplicate member'') else Inr (bs_insert m ms))"

definition push_element :: "bytes \<Rightarrow> bytes list \<Rightarrow> format_error + bytes list" where
  "push_element v vs = Inr (vs @ [v])"

definition insert_field :: "bytes \<times> bytes \<Rightarrow> (bytes, bytes) btree_map \<Rightarrow> format_error + (bytes, bytes) btree_map" where
  "insert_field = (\<lambda>(field, v) fs.
     if bm_get fs field \<noteq> None then Inl (FeCorrupt ''duplicate field'') else Inr (bm_insert field v fs))"

definition cursor_value :: "nat \<Rightarrow> value parser" where
  "cursor_value tag =
     (if tag = 1 then parse_bind cursor_blob (\<lambda>v. parse_return (VString v))
      else if tag = 6 then parse_bind (cursor_count 12 ''sorted member count'') (\<lambda>n.
        parse_bind (read_into n cursor_scored insert_scored zs_empty) (\<lambda>z. parse_return (VSortedSet z)))
      else if tag = 5 then parse_bind (cursor_count 4 ''member count'') (\<lambda>n.
        parse_bind (read_into n cursor_blob insert_member []) (\<lambda>ms. parse_return (VSet ms)))
      else if tag = 4 then parse_bind (cursor_count 4 ''element count'') (\<lambda>n.
        parse_bind (read_into n cursor_blob push_element []) (\<lambda>vs. parse_return (VList vs)))
      else parse_bind (cursor_count 8 ''field count'') (\<lambda>n.
        parse_bind (read_into n cursor_field insert_field []) (\<lambda>fs. parse_return (VHash fs))))"

definition cursor_deadline :: "int option parser" where
  "cursor_deadline =
     parse_bind cursor_byte (\<lambda>flag.
     parse_bind cursor_i64 (\<lambda>d.
       parse_lift (if flag = char_of (0 :: nat) \<and> d = 0 then Inr None
                   else if flag = char_of (1 :: nat) then Inr (Some d)
                   else Inl (FeCorrupt ''deadline''))))"

definition cursor_mutation :: "mutation parser" where
  "cursor_mutation =
     parse_bind cursor_byte (\<lambda>b.
     parse_bind cursor_blob (\<lambda>key.
       let tag = of_char b :: nat
       in if tag = 1 \<or> 3 \<le> tag \<and> tag \<le> 6 then
            parse_bind (cursor_value tag) (\<lambda>v. parse_bind cursor_deadline (\<lambda>d. parse_return (Put key v d)))
          else if tag = 2 then parse_return (Delete key)
          else parse_lift (Inl (FeCorrupt ''mutation type''))))"

definition push_mutation :: "mutation \<Rightarrow> mutation list \<Rightarrow> format_error + mutation list" where
  "push_mutation mu ms = Inr (ms @ [mu])"

definition cursor_batch :: "aof_limits \<Rightarrow> aof_record parser" where
  "cursor_batch limits =
     parse_bind cursor_u64 (\<lambda>sequence.
     parse_bind cursor_byte (\<lambda>b.
     parse_bind (parse_lift (if b = char_of (1 :: nat) then Inr Client
                             else if b = char_of (2 :: nat) then Inr Expiration
                             else Inl (FeCorrupt ''source''))) (\<lambda>origin.
     parse_bind cursor_u32 (\<lambda>n c.
       if n = 0 \<or> n > max_mutations limits \<or> n > cursor_rest c div 5 then Inl FeLimit
       else parse_bind (read_into n cursor_mutation push_mutation []) (\<lambda>ms.
         parse_return (RecBatch sequence \<lparr>batch_origin = origin, batch_mutations = ms\<rparr>)) c))))"

definition cursor_record :: "aof_limits \<Rightarrow> aof_record parser" where
  "cursor_record limits =
     parse_bind cursor_byte (\<lambda>b.
       if b = char_of (1 :: nat) then parse_bind cursor_mutation (\<lambda>mu. parse_return (RecSnapshot mu))
       else if b = char_of (2 :: nat) then
         parse_bind cursor_u64 (\<lambda>sequence. parse_bind cursor_u64 (\<lambda>entries. parse_bind cursor_u32 (\<lambda>digest.
           parse_return (RecSeal sequence entries (of_nat digest)))))
       else if b = char_of (3 :: nat) then cursor_batch limits
       else parse_lift (Inl (FeCorrupt ''record type'')))"

definition decode_record :: "bytes \<Rightarrow> aof_limits \<Rightarrow> format_error + aof_record" where
  "decode_record body limits =
     res_bind (cursor_record limits \<lparr>cur_bytes = body, cur_offset = 0\<rparr>) (\<lambda>(r, c).
       res_bind (ensure (cur_offset c = length (cur_bytes c)) (FeCorrupt ''bytes extras'')) (\<lambda>_. Inr r))"

text \<open>An end of file inside a record is the tail a crash left. The framing is that of
  both record versions; they differ in the decoder of the body.\<close>

definition read_rest :: "'n \<Rightarrow> nat \<Rightarrow> input \<Rightarrow> (bytes \<Rightarrow> input \<Rightarrow> format_error + 'n \<times> input) \<Rightarrow> format_error + 'n \<times> input" where
  "read_rest incomplete n i k =
     (case read_exact n i of
        Inl UnexpectedEof \<Rightarrow> Inr (incomplete, i\<lparr>in_bytes := []\<rparr>)
      | Inl e \<Rightarrow> Inl (FeIo e)
      | Inr (b, i) \<Rightarrow> k b i)"

definition read_framed ::
  "'n \<Rightarrow> 'n \<Rightarrow> (bytes \<Rightarrow> format_error + 'n) \<Rightarrow> aof_limits \<Rightarrow> input \<Rightarrow> format_error + 'n \<times> input" where
  "read_framed ended incomplete decode limits i =
     (case read_one i of
        Inl e \<Rightarrow> Inl (FeIo e)
      | Inr None \<Rightarrow> Inr (ended, i)
      | Inr (Some (b, i)) \<Rightarrow>
          read_rest incomplete 11 i (\<lambda>rest i.
            let prefix = b # rest; sz = of_le (take 4 prefix)
            in if u32_not sz \<noteq> of_le (slice_of 4 8 prefix) then Inl (FeCorrupt ''length'')
               else if sz = 0 \<or> sz > max_record_bytes limits \<or> sz > MAX_RECORD_BYTES then Inl FeLimit
               else read_rest incomplete sz i (\<lambda>body i.
                 if unat (checksum body) \<noteq> of_le (drop 8 prefix) then Inl (FeCorrupt ''checksum'')
                 else res_bind (decode body) (\<lambda>r. Inr (r, i)))))"

definition read_record :: "aof_limits \<Rightarrow> input \<Rightarrow> format_error + aof_next \<times> input" where
  "read_record limits =
     read_framed NextEnd NextIncomplete (\<lambda>body. res_bind (decode_record body limits) (\<lambda>r. Inr (NextRecord r))) limits"

end
