(* ===== verification/Aof_Correct.thy ===== *)
theory Aof_Correct
  imports Aof_Format
begin

text \<open>
  The append-only file reads back what was written, recognises the tail a crash
  leaves, and refuses a record in which a byte changed.
\<close>

section \<open>Sizes announce what is written\<close>

lemma length_encode_blob [simp]: "length (encode_blob v) = length v + 4"
  by (simp add: encode_blob_def)

lemma length_encode_deadline [simp]: "length (encode_deadline d) = 9"
  by (simp add: encode_deadline_def)

lemma length_u32_word_to_le [simp]: "length (u32_word_to_le w) = 4"
  by (simp add: u32_word_to_le_def)

lemma blob_size_Inr: "blob_size v = Inr n \<longleftrightarrow> n = length v + 4 \<and> length v \<le> U32_MAX \<and> n \<le> USIZE_MAX"
  by (auto simp: blob_size_def result_simps checked_simps)

text \<open>A size fold adds the lengths of the encoded items, each of which is valid.\<close>

lemma sum_sizes_encoded:
  assumes "\<And>x acc n. x \<in> set xs \<Longrightarrow> f x acc = Inr n \<Longrightarrow> n = acc + length (enc x) \<and> P x"
  shows "sum_sizes f xs acc = Inr n \<Longrightarrow> n = acc + length (concat (map enc xs)) \<and> list_all P xs"
  using assms
proof (induction xs arbitrary: acc)
  case (Cons x xs)
  obtain m where m: "f x acc = Inr m" "sum_sizes f xs m = Inr n" using Cons.prems(1) by (auto simp: result_simps)
  have "m = acc + length (enc x)" "P x" using Cons.prems(2) [of x acc m] m(1) by auto
  with Cons.IH [OF m(2)] Cons.prems(2) show ?case by auto
qed simp

abbreviation small :: "bytes \<Rightarrow> bool" where
  "small v \<equiv> length v \<le> U32_MAX"

lemma add_blob_Inr: "add_blob v acc = Inr n \<Longrightarrow> n = acc + length (encode_blob v) \<and> small v"
  by (auto simp: add_blob_def blob_size_Inr result_simps checked_simps)

lemma add_scored_Inr: "add_scored sm acc = Inr n \<Longrightarrow> n = acc + length (encode_scored sm) \<and> small (snd sm)"
  by (auto simp: add_scored_def encode_scored_def blob_size_Inr result_simps checked_simps bind_eq_Some_conv split: prod.splits)

lemma add_field_Inr: "add_field fv acc = Inr n \<Longrightarrow> n = acc + length (encode_field fv) \<and> small (fst fv) \<and> small (snd fv)"
  by (auto simp: add_field_def encode_field_def blob_size_Inr result_simps checked_simps bind_eq_Some_conv
      split: prod.splits sum.splits)

text \<open>The values the encoder accepts.\<close>

fun value_small :: "value \<Rightarrow> bool" where
  "value_small (VString v) = small v"
| "value_small (VHash fs) = (fs \<noteq> [] \<and> length fs \<le> U32_MAX \<and> list_all (\<lambda>fv. small (fst fv) \<and> small (snd fv)) fs)"
| "value_small (VList vs) = (vs \<noteq> [] \<and> length vs \<le> U32_MAX \<and> list_all small vs)"
| "value_small (VSet ms) = (ms \<noteq> [] \<and> length ms \<le> U32_MAX \<and> list_all small ms)"
| "value_small (VSortedSet z) =
     (zs_members z \<noteq> [] \<and> length (zs_members z) \<le> U32_MAX \<and> list_all (\<lambda>sm. small (snd sm)) (zs_ordered z))"
| "value_small (VMemory _) = False"

lemma value_size_encoded:
  assumes "value_size v = Inr n"
  shows "\<exists>b. encode_value v = Inr b \<and> length b = n \<and> value_small v"
  using assms sum_sizes_encoded [of _ add_blob encode_blob small, OF add_blob_Inr]
    sum_sizes_encoded [of _ add_scored encode_scored "\<lambda>sm. small (snd sm)", OF add_scored_Inr]
    sum_sizes_encoded [of _ add_field encode_field "\<lambda>fv. small (fst fv) \<and> small (snd fv)", OF add_field_Inr]
  by (cases v) (fastforce simp: blob_size_Inr counted_def result_simps)+

fun mutation_small :: "mutation \<Rightarrow> bool" where
  "mutation_small (Put key v d) = (small key \<and> value_small v)"
| "mutation_small (Delete key) = small key"

lemma mutation_size_encoded:
  assumes "mutation_size mu = Inr n"
  shows "\<exists>b. encode_mutation mu = Inr b \<and> length b = n \<and> mutation_small mu"
proof (cases mu)
  case (Put key v d)
  obtain k where k: "value_size v = Inr k" "small key" "n = length key + 5 + (k + 9)"
    using assms by (auto simp: mutation_size_def Put result_simps checked_simps bind_eq_Some_conv)
  obtain b where b: "encode_value v = Inr b" "length b = k" "value_small v" using value_size_encoded [OF k(1)] by blast
  moreover have "\<exists>tag. mutation_tag mu = Inr tag" using b(3) by (cases v) (auto simp: Put)
  ultimately show ?thesis using k by (auto simp: encode_mutation_def Put)
next
  case (Delete key)
  with assms show ?thesis
    by (auto simp: mutation_size_def encode_mutation_def result_simps checked_simps bind_eq_Some_conv)
qed

section \<open>Decoders invert encoders\<close>

lemma small_u32: "length v \<le> U32_MAX \<Longrightarrow> length v < 4294967296"
  by (simp add: U32_MAX_def)

lemma cursor_blob_at: "small v \<Longrightarrow> at (encode_blob v @ w) c \<Longrightarrow> cursor_blob c = Inr (v, advance (length v + 4) c)"
proof -
  assume s: "small v" and a: "at (encode_blob v @ w) c"
  then have a: "at (u32_to_le (length v) @ v @ w) c" by (simp add: encode_blob_def)
  have "cursor_take (length v) (advance 4 c) = Inr (v, advance (length v) (advance 4 c))"
    using cursor_take_at [OF at_advance [OF a, of 4]] by simp
  then show ?thesis using cursor_u32_at [OF a small_u32 [OF s]]
    by (simp add: cursor_blob_def parse_bind_def add.commute)
qed

interpretation blob: wire_codec encode_blob cursor_blob small
  by unfold_locales (simp add: cursor_blob_at)

lemma cursor_field_at:
  assumes "small f" "small v" "at (encode_blob f @ encode_blob v @ w) c"
  shows "cursor_field c = Inr ((f, v), advance (length f + 4 + (length v + 4)) c)"
  using cursor_blob_at [OF assms(1,3)] cursor_blob_at [OF assms(2) at_advance [OF assms(3)], of "length f + 4"]
  by (simp add: cursor_field_def parse_bind_def parse_return_def add.assoc)

interpretation field: wire_codec encode_field cursor_field "\<lambda>fv. small (fst fv) \<and> small (snd fv)"
  by unfold_locales (auto simp: encode_field_def cursor_field_at split: prod.splits)

lemma score_new_id: "score_ok s \<Longrightarrow> score_new (score_bits s) = Some s"
  by (cases s) (auto simp: score_ok_def score_new_def)

lemma cursor_scored_at:
  assumes "score_ok s" "small m" "at (encode_blob m @ u64_to_le (score_bits s) @ w) c"
  shows "cursor_scored c = Inr ((s, m), advance (length m + 4 + 8) c)"
  using cursor_blob_at [OF assms(2,3)] cursor_u64_at [OF at_advance [OF assms(3)], of "length m + 4"] score_new_id [OF assms(1)]
  by (simp add: cursor_scored_def parse_bind_def parse_return_def parse_lift_def add.assoc)

interpretation scored: wire_codec encode_scored cursor_scored "\<lambda>sm. score_ok (fst sm) \<and> small (snd sm)"
  by unfold_locales (auto simp: encode_scored_def cursor_scored_at split: prod.splits)

subsection \<open>Accumulators\<close>

lemma fold_add_push: "fold_add (\<lambda>x xs. Inr (xs @ [x])) ys xs = Inr (xs @ ys)"
  by (induction ys arbitrary: xs) simp_all

lemma fold_add_members:
  "distinct xs \<Longrightarrow> set xs \<inter> set s = {} \<Longrightarrow> bs_ok s \<Longrightarrow> fold_add insert_member xs s = Inr (fold bs_insert xs s)"
  by (induction xs arbitrary: s) (auto simp: insert_member_def)

lemma fold_add_members_ok: "bs_ok ms \<Longrightarrow> fold_add insert_member ms [] = Inr ms"
proof -
  assume ok: "bs_ok ms"
  have "fold bs_insert ms [] = ms"
    using fold_bs_insert [of "[]" ms] by (intro bs_eqI) (auto simp: ok)
  with fold_add_members [of ms "[]"] show ?thesis using ok bs_ok_distinct by auto
qed

lemma fold_add_fields:
  "distinct (map fst xs) \<Longrightarrow> fst ` set xs \<inter> dom (bm_get m) = {} \<Longrightarrow> bm_ok m \<Longrightarrow>
     \<exists>m'. fold_add insert_field xs m = Inr m' \<and> bm_ok m' \<and> bm_get m' = bm_get m ++ bm_get xs"
proof (induction xs arbitrary: m)
  case (Cons fv xs)
  obtain f v where fv: "fv = (f, v)" by (cases fv)
  have new: "bm_get m f = None" using Cons.prems(2) by (auto simp: fv)
  have "fst ` set xs \<inter> dom (bm_get (bm_insert f v m)) = {}" using Cons.prems by (auto simp: fv)
  from Cons.IH [OF _ this] Cons.prems(1,3) obtain m' where
    m': "fold_add insert_field xs (bm_insert f v m) = Inr m'" "bm_ok m'" "bm_get m' = bm_get (bm_insert f v m) ++ bm_get xs"
    by (metis bm_ok_insert distinct.simps(2) list.simps(9))
  have "f \<notin> dom (bm_get xs)" using Cons.prems(1) by (auto simp: fv dom_map_of_conv_image_fst)
  then have eq: "bm_get m ++ bm_get (fv # xs) = bm_get (bm_insert f v m) ++ bm_get xs"
    by (auto simp: fv fun_eq_iff map_add_def domIff split: option.split)
  have "insert_field fv m = Inr (bm_insert f v m)" using new by (simp add: fv insert_field_def)
  then show ?case unfolding eq using m' by simp
qed simp

lemma fold_add_fields_ok: "bm_ok fs \<Longrightarrow> fold_add insert_field fs [] = Inr fs"
proof -
  assume ok: "bm_ok fs"
  obtain m' where "fold_add insert_field fs [] = Inr m'" "bm_ok m'" "bm_get m' = bm_get fs"
    using fold_add_fields [of fs "[]"] bm_ok_distinct [OF ok] by auto
  with bm_eqI [OF _ ok] show ?thesis by auto
qed

lemma zs_eqI: "zs_ok a \<Longrightarrow> zs_ok b \<Longrightarrow> bm_get (zs_members a) = bm_get (zs_members b) \<Longrightarrow> a = b"
proof -
  assume ok: "zs_ok a" "zs_ok b" and eq: "bm_get (zs_members a) = bm_get (zs_members b)"
  then have "zs_members a = zs_members b" by (auto simp: zs_ok_def intro: bm_eqI)
  moreover have "zs_ordered a = zs_ordered b" using ok eq by (auto simp: zs_ok_def intro: bs_eqI)
  ultimately show ?thesis by simp
qed

lemma fold_add_scored:
  "distinct (map snd xs) \<Longrightarrow> snd ` set xs \<inter> dom (bm_get (zs_members z)) = {} \<Longrightarrow> zs_ok z \<Longrightarrow>
     \<exists>z'. fold_add insert_scored xs z = Inr z' \<and> zs_ok z'
       \<and> bm_get (zs_members z') = bm_get (zs_members z) ++ map_of (map (\<lambda>(s, m). (m, s)) xs)"
proof (induction xs arbitrary: z)
  case (Cons sm xs)
  obtain s m where sm: "sm = (s, m)" by (cases sm)
  let ?z = "snd (zs_insert m s z)"
  have new: "bm_get (zs_members z) m = None" using Cons.prems(2) by (auto simp: sm)
  note ins = zs_insert_ok [OF Cons.prems(3), of m s]
  have "snd ` set xs \<inter> dom (bm_get (zs_members ?z)) = {}" using Cons.prems(1,2) ins(2) by (auto simp: sm)
  from Cons.IH [OF _ this ins(1)] Cons.prems(1) obtain z' where
    z': "fold_add insert_scored xs ?z = Inr z'" "zs_ok z'"
      "bm_get (zs_members z') = bm_get (zs_members ?z) ++ map_of (map (\<lambda>(s, m). (m, s)) xs)"
    by auto
  have "m \<notin> dom (map_of (map (\<lambda>(s, m). (m, s)) xs))"
    using Cons.prems(1) by (auto simp: sm dom_map_of_conv_image_fst image_image case_prod_unfold)
  then have eq: "bm_get (zs_members z) ++ map_of (map (\<lambda>(s, m). (m, s)) (sm # xs))
      = bm_get (zs_members ?z) ++ map_of (map (\<lambda>(s, m). (m, s)) xs)"
    by (auto simp: sm ins(2) fun_eq_iff map_add_def domIff split: option.split)
  have "insert_scored sm z = Inr ?z"
    using new ins(3) by (cases "zs_insert m s z") (auto simp: sm insert_scored_def Let_def split: prod.splits)
  then show ?case unfolding eq using z' by simp
qed simp

lemma fold_add_scored_ok: "zs_ok z \<Longrightarrow> fold_add insert_scored (zs_ordered z) zs_empty = Inr z"
proof -
  assume ok: "zs_ok z"
  let ?xs = "zs_ordered z"
  have set: "set ?xs = {(s, m). bm_get (zs_members z) m = Some s}" using ok by (simp add: zs_ok_def)
  have "inj_on snd (set ?xs)" by (auto simp: inj_on_def set)
  moreover have "distinct ?xs" using ok by (auto simp: zs_ok_def bs_ok_distinct)
  ultimately have d: "distinct (map snd ?xs)" by (simp add: distinct_map)
  obtain z' where z': "fold_add insert_scored ?xs zs_empty = Inr z'" "zs_ok z'"
    "bm_get (zs_members z') = map_of (map (\<lambda>(s, m). (m, s)) ?xs)"
    using fold_add_scored [OF d, of zs_empty] zs_ok_empty by (auto simp: zs_empty_def simp del: zs_ok_empty)
  have "map_of (map (\<lambda>(s, m). (m, s)) ?xs) = bm_get (zs_members z)"
  proof
    fix m
    have dd: "distinct (map fst (map (\<lambda>(s, m). (m, s)) ?xs))" using d by (simp add: comp_def case_prod_unfold)
    show "map_of (map (\<lambda>(s, m). (m, s)) ?xs) m = bm_get (zs_members z) m"
    proof (cases "bm_get (zs_members z) m")
      case None
      then have "m \<notin> fst ` set (map (\<lambda>(s, m). (m, s)) ?xs)" using set by auto
      then have "map_of (map (\<lambda>(s, m). (m, s)) ?xs) m = None" by (simp add: map_of_eq_None_iff)
      with None show ?thesis by simp
    next
      case (Some s)
      then have "(s, m) \<in> set ?xs" using set by auto
      then have "(m, s) \<in> set (map (\<lambda>(s, m). (m, s)) ?xs)" by force
      with map_of_is_SomeI [OF dd] Some show ?thesis by simp
    qed
  qed
  with zs_eqI [OF z'(2) ok] z' show ?thesis by simp
qed

lemma length_zs_ordered: "zs_ok z \<Longrightarrow> length (zs_ordered z) = length (zs_members z)"
proof -
  assume ok: "zs_ok z"
  let ?sw = "\<lambda>(s, m). (m, s)"
  have m: "bm_ok (zs_members z)" "distinct (zs_ordered z)" using ok by (auto simp: zs_ok_def bs_ok_distinct)
  have "set (zs_members z) = ?sw ` set (zs_ordered z)"
    using ok by (force simp: zs_ok_def bm_get_mem)
  moreover have "inj_on ?sw (set (zs_ordered z))" by (auto simp: inj_on_def)
  ultimately have "card (set (zs_members z)) = card (set (zs_ordered z))" by (simp add: card_image)
  moreover have "distinct (zs_members z)" using bm_ok_distinct [OF m(1)] by (simp add: distinct_map)
  ultimately show ?thesis using m(2) by (simp add: distinct_card)
qed

subsection \<open>Values and mutations\<close>

fun scores_ok :: "value \<Rightarrow> bool" where
  "scores_ok (VSortedSet z) = list_all (\<lambda>sm. score_ok (fst sm)) (zs_ordered z)"
| "scores_ok _ = True"

fun mutation_wire :: "mutation \<Rightarrow> bool" where
  "mutation_wire (Put _ v d) = (value_ok v \<and> scores_ok v \<and> (case d of None \<Rightarrow> True | Some d \<Rightarrow> i64_ok d))"
| "mutation_wire (Delete _) = True"

lemma concat_length_ge: "(\<And>x. x \<in> set xs \<Longrightarrow> u \<le> length (enc x)) \<Longrightarrow> length xs * u \<le> length (concat (map enc xs))"
  by (induction xs) (auto simp: add_mono)

lemma cursor_count_at:
  assumes "at (u32_to_le n @ w) c" "0 < n" "n \<le> U32_MAX" "0 < u" "n * u \<le> length w"
  shows "cursor_count u what c = Inr (n, advance 4 c)"
proof -
  have "at w (advance 4 c)" using at_advance [OF assms(1)] by simp
  then have "cursor_rest (advance 4 c) = length w" by (rule cursor_rest_at)
  moreover have "n \<le> length w div u" using assms(4,5) by (simp add: less_eq_div_iff_mult_less_eq)
  ultimately show ?thesis
    using cursor_u32_at [OF assms(1)] assms(2,3) by (simp add: cursor_count_def parse_bind_def U32_MAX_def)
qed

context wire_codec
begin

text \<open>A count followed by that many items.\<close>

lemma counted_items_at:
  assumes "list_all valid xs" "fold_add add xs acc = Inr acc'" "at (u32_to_le (length xs) @ concat (map enc xs) @ w) c"
    "xs \<noteq> []" "length xs \<le> U32_MAX" "0 < u" "\<And>x. x \<in> set xs \<Longrightarrow> u \<le> length (enc x)"
  shows "parse_bind (cursor_count u what) (\<lambda>n. parse_bind (read_into n dec add acc) (\<lambda>r. parse_return (f r))) c
    = Inr (f acc', advance (4 + length (concat (map enc xs))) c)"
proof -
  have "length xs * u \<le> length (concat (map enc xs) @ w)"
    using concat_length_ge [of xs u enc] assms(7) by (simp add: trans_le_add1)
  then have "cursor_count u what c = Inr (length xs, advance 4 c)"
    using cursor_count_at [OF assms(3) _ assms(5,6)] assms(4) by simp
  moreover have "at (concat (map enc xs) @ w) (advance 4 c)" using at_advance [OF assms(3)] by simp
  ultimately show ?thesis
    using read_into_at [OF assms(1,2)] by (simp add: parse_bind_def parse_return_def)
qed

end

fun value_tag :: "value \<Rightarrow> nat" where
  "value_tag (VString _) = 1"
| "value_tag (VHash _) = 3"
| "value_tag (VList _) = 4"
| "value_tag (VSet _) = 5"
| "value_tag (VSortedSet _) = 6"
| "value_tag (VMemory _) = 7"

lemma cursor_value_at:
  assumes "encode_value v = Inr b" "value_small v" "value_ok v" "scores_ok v" "at (b @ w) c"
  shows "cursor_value (value_tag v) c = Inr (v, advance (length b) c)"
proof (cases v)
  case (VString x)
  then have b: "b = encode_blob x" using assms(1) by simp
  then show ?thesis using assms(2,5) VString cursor_blob_at [of x w c]
    by (simp add: cursor_value_def parse_bind_def parse_return_def)
next
  case (VHash fs)
  then have b: "b = u32_to_le (length fs) @ concat (map encode_field fs)" using assms(1) by simp
  have "at (u32_to_le (length fs) @ concat (map encode_field fs) @ w) c" using assms(5) by (simp add: b)
  from field.counted_items_at [OF _ _ this, of insert_field "[]" fs 8 "''field count''" VHash]
  show ?thesis using assms(2,3) VHash fold_add_fields_ok [of fs]
    by (simp add: b cursor_value_def encode_field_def split: prod.splits)
next
  case (VList vs)
  then have b: "b = u32_to_le (length vs) @ concat (map encode_blob vs)" using assms(1) by simp
  have "at (u32_to_le (length vs) @ concat (map encode_blob vs) @ w) c" using assms(5) by (simp add: b)
  from blob.counted_items_at [OF _ _ this, of push_element "[]" vs 4 "''element count''" VList]
  show ?thesis using assms(2,3) VList fold_add_push [of vs "[]"]
    by (simp add: b cursor_value_def push_element_def [abs_def])
next
  case (VSet ms)
  then have b: "b = u32_to_le (length ms) @ concat (map encode_blob ms)" using assms(1) by simp
  have "at (u32_to_le (length ms) @ concat (map encode_blob ms) @ w) c" using assms(5) by (simp add: b)
  from blob.counted_items_at [OF _ _ this, of insert_member "[]" ms 4 "''member count''" VSet]
  show ?thesis using assms(2,3) VSet fold_add_members_ok [of ms]
    by (simp add: b cursor_value_def)
next
  case (VSortedSet z)
  let ?xs = "zs_ordered z"
  have ok: "zs_ok z" using assms(3) VSortedSet by simp
  have b: "b = u32_to_le (length ?xs) @ concat (map encode_scored ?xs)"
    using assms(1) VSortedSet length_zs_ordered [OF ok] by simp
  have "at (u32_to_le (length ?xs) @ concat (map encode_scored ?xs) @ w) c" using assms(5) by (simp add: b)
  from scored.counted_items_at [OF _ _ this, of insert_scored zs_empty z 12 "''sorted member count''" VSortedSet]
  show ?thesis using assms(2-4) VSortedSet fold_add_scored_ok [OF ok] length_zs_ordered [OF ok] zs_members_ordered [OF ok]
    by (auto simp: b cursor_value_def encode_scored_def list_all_iff split: prod.splits)
qed (use assms in simp)

lemma cursor_deadline_at:
  assumes "case d of None \<Rightarrow> True | Some d \<Rightarrow> i64_ok d" "at (encode_deadline d @ w) c"
  shows "cursor_deadline c = Inr (d, advance 9 c)"
proof -
  let ?i = "case d of None \<Rightarrow> 0 | Some d \<Rightarrow> d"
  have ok: "i64_ok ?i" using assms(1) by (cases d) (auto simp: i64_ok_def I64_MIN_def I64_MAX_def)
  have a: "at (char_of (of_bool (d \<noteq> None) :: nat) # i64_to_le ?i @ w) c" using assms(2) by (simp add: encode_deadline_def)
  have "at (i64_to_le ?i @ w) (advance 1 c)" using at_advance [of "[_]", OF _ refl] a by fastforce
  from cursor_i64_at [OF this ok] cursor_byte_at [OF a] show ?thesis
    by (cases d) (simp_all add: cursor_deadline_def parse_bind_def parse_lift_def)
qed

lemma mutation_tag_value: "mutation_small (Put key v d) \<Longrightarrow> mutation_tag (Put key v d) = Inr (value_tag v)"
  by (cases v) simp_all

lemma value_tag_range: "value_small v \<Longrightarrow> value_tag v = 1 \<or> 3 \<le> value_tag v \<and> value_tag v \<le> 6"
  by (cases v) simp_all

lemma cursor_mutation_at:
  assumes "encode_mutation mu = Inr b" "mutation_small mu" "mutation_wire mu" "at (b @ w) c"
  shows "cursor_mutation c = Inr (mu, advance (length b) c)"
proof (cases mu)
  case (Put key v d)
  have small: "small key" "value_small v" using assms(2) Put by auto
  obtain bv where bv: "encode_value v = Inr bv" "b = char_of (value_tag v) # encode_blob key @ bv @ encode_deadline d"
    using assms(1) mutation_tag_value [of key v d] assms(2) by (auto simp: encode_mutation_def Put result_simps)
  have a0: "at (char_of (value_tag v) # encode_blob key @ bv @ encode_deadline d @ w) c" using assms(4) by (simp add: bv(2))
  have a1: "at (encode_blob key @ bv @ encode_deadline d @ w) (advance 1 c)" using at_advance [of "[_]", OF _ refl] a0 by fastforce
  note a2 = at_advance [OF a1 length_encode_blob]
  note a3 = at_advance [OF a2 refl]
  have tag: "of_char (char_of (value_tag v)) = value_tag v" using value_tag_range [OF small(2)] by auto
  show ?thesis
    using cursor_byte_at [OF a0] cursor_blob_at [OF small(1) a1] cursor_value_at [OF bv(1) small(2) _ _ a2]
      cursor_deadline_at [OF _ a3, of] assms(3) value_tag_range [OF small(2)] tag
    by (auto simp: Put bv(2) cursor_mutation_def parse_bind_def parse_return_def Let_def algebra_simps)
next
  case (Delete key)
  have small: "small key" using assms(2) Delete by simp
  have b: "b = char_of (2 :: nat) # encode_blob key" using assms(1) by (simp add: encode_mutation_def Delete)
  have a0: "at (char_of (2 :: nat) # encode_blob key @ w) c" using assms(4) by (simp add: b)
  have a1: "at (encode_blob key @ w) (advance 1 c)" using at_advance [of "[_]", OF _ refl] a0 by fastforce
  show ?thesis using cursor_byte_at [OF a0] cursor_blob_at [OF small a1]
    by (simp add: Delete b cursor_mutation_def parse_bind_def parse_return_def Let_def)
qed

subsection \<open>Records\<close>

abbreviation mutation_bytes :: "mutation \<Rightarrow> bytes" where
  "mutation_bytes mu \<equiv> (case encode_mutation mu of Inl _ \<Rightarrow> [] | Inr b \<Rightarrow> b)"

lemma encode_mutation_small: "mutation_small mu \<Longrightarrow> \<exists>b. encode_mutation mu = Inr b \<and> 5 \<le> length b"
proof (cases mu)
  case (Put key v d)
  assume "mutation_small mu"
  then have "value_small v" "mutation_tag mu = Inr (value_tag v)" using mutation_tag_value [of key v d] by (auto simp: Put)
  moreover have "\<exists>b. encode_value v = Inr b" using calculation(1) by (cases v) auto
  ultimately show ?thesis by (auto simp: encode_mutation_def Put)
qed (simp add: encode_mutation_def)

interpretation mutations: wire_codec mutation_bytes cursor_mutation "\<lambda>mu. mutation_small mu \<and> mutation_wire mu"
  using cursor_mutation_at encode_mutation_small by unfold_locales fastforce

lemma encode_mutations_eq:
  "list_all mutation_small ms \<Longrightarrow> encode_mutations ms = Inr (concat (map mutation_bytes ms))"
proof (induction ms)
  case (Cons mu ms)
  then obtain b where "encode_mutation mu = Inr b" using encode_mutation_small [of mu] by auto
  with Cons show ?case by simp
qed simp

lemma add_mutation_Inr: "add_mutation mu acc = Inr n \<Longrightarrow> n = acc + length (mutation_bytes mu) \<and> mutation_small mu"
  using mutation_size_encoded [of mu] by (auto simp: add_mutation_def result_simps checked_simps split: sum.splits)

fun record_small :: "aof_limits \<Rightarrow> aof_record \<Rightarrow> bool" where
  "record_small limits (RecSnapshot mu) = mutation_small mu"
| "record_small limits (RecSeal _ _ _) = True"
| "record_small limits (RecBatch _ b) =
     (let ms = batch_mutations b in ms \<noteq> [] \<and> length ms \<le> max_mutations limits \<and> length ms \<le> U32_MAX \<and> list_all mutation_small ms)"

fun record_wire :: "aof_record \<Rightarrow> bool" where
  "record_wire (RecSnapshot mu) = mutation_wire mu"
| "record_wire (RecSeal _ _ _) = True"
| "record_wire (RecBatch _ b) = list_all mutation_wire (batch_mutations b)"

lemma record_size_encoded:
  assumes "record_size r limits = Inr n"
  shows "\<exists>b. encode_body r = Inr b \<and> length b = n \<and> 0 < n \<and> record_small limits r"
proof (cases r)
  case (RecSnapshot mu)
  with assms obtain k where "mutation_size mu = Inr k" "n = 1 + k" by (auto simp: result_simps checked_simps)
  with mutation_size_encoded [of mu k] RecSnapshot show ?thesis by auto
next
  case (RecBatch s b)
  let ?ms = "batch_mutations b"
  have c: "?ms \<noteq> []" "length ?ms \<le> max_mutations limits" "length ?ms \<le> U32_MAX" "sum_sizes add_mutation ?ms 14 = Inr n"
    using assms by (auto simp: RecBatch Let_def result_simps)
  have "n = 14 + length (concat (map mutation_bytes ?ms)) \<and> list_all mutation_small ?ms"
    by (rule sum_sizes_encoded [OF add_mutation_Inr c(4)])
  with c(1-3) encode_mutations_eq [of ?ms] show ?thesis by (simp add: RecBatch Let_def)
qed (use assms in auto)

lemma at_byte: "at (b # w) c \<Longrightarrow> at w (advance 1 c)"
  using at_advance [of "[b]" w c 1] by simp

lemma cursor_batch_at:
  assumes "list_all mutation_small ms" "list_all mutation_wire ms" "ms \<noteq> []" "length ms \<le> max_mutations limits"
    "length ms \<le> U32_MAX"
    "at (u64_to_le s @ origin_byte og # u32_to_le (length ms) @ concat (map mutation_bytes ms) @ w) c"
  shows "cursor_batch limits c = Inr (RecBatch s \<lparr>batch_origin = og, batch_mutations = ms\<rparr>,
    advance (13 + length (concat (map mutation_bytes ms))) c)"
proof -
  note a1 = at_advance [OF assms(6) length_le_bytes]
  note a2 = at_byte [OF a1]
  note a3 = at_advance [OF a2 length_le_bytes]
  have valid: "list_all (\<lambda>mu. mutation_small mu \<and> mutation_wire mu) ms" using assms(1,2) by (simp add: list_all_iff)
  have "length ms * 5 \<le> length (concat (map mutation_bytes ms))"
  proof (rule concat_length_ge)
    fix mu
    assume "mu \<in> set ms"
    with assms(1) encode_mutation_small [of mu] show "5 \<le> length (mutation_bytes mu)" by (auto simp: list_all_iff)
  qed
  then have rest: "length ms \<le> cursor_rest (advance 4 (advance 1 (advance 8 c))) div 5"
    by (simp only: cursor_rest_at [OF a3]) (simp add: less_eq_div_iff_mult_less_eq)
  have r: "read_into (length ms) cursor_mutation push_mutation [] (advance 4 (advance 1 (advance 8 c)))
      = Inr (ms, advance (length (concat (map mutation_bytes ms))) (advance 4 (advance 1 (advance 8 c))))"
    using mutations.read_into_at [OF valid _ a3, of push_mutation "[]" ms] fold_add_push [of ms "[]"]
    by (simp add: push_mutation_def [abs_def])
  have "origin_byte og = char_of (1 :: nat) \<and> og = Client \<or> origin_byte og = char_of (2 :: nat) \<and> og = Expiration"
    by (cases og) auto
  then show ?thesis
    using cursor_u64_at [OF assms(6)] cursor_byte_at [OF a1] cursor_u32_at [OF a2] assms(3-5) rest r
    by (auto simp: cursor_batch_def parse_bind_def parse_lift_def parse_return_def U32_MAX_def)
qed

lemma decode_encode_body:
  assumes "encode_body r = Inr b" "record_small limits r" "record_wire r" "length b \<le> USIZE_MAX"
  shows "decode_record b limits = Inr r"
proof -
  let ?c = "\<lparr>cur_bytes = b, cur_offset = 0\<rparr>"
  have a: "at (b @ []) ?c" using assms(4) by (simp add: at_def)
  have "cursor_record limits ?c = Inr (r, advance (length b) ?c)"
  proof (cases r)
    case (RecSnapshot mu)
    then obtain bm where bm: "encode_mutation mu = Inr bm" "b = char_of (1 :: nat) # bm"
      using assms(1) by (auto simp: result_simps)
    have "at (char_of (1 :: nat) # bm @ []) ?c" using a by (simp add: bm(2))
    from cursor_byte_at [OF this] cursor_mutation_at [OF bm(1) _ _ at_byte [OF this]] assms(2,3) show ?thesis
      by (simp add: RecSnapshot bm(2) cursor_record_def parse_bind_def parse_return_def)
  next
    case (RecSeal s e d)
    have b: "b = char_of (2 :: nat) # u64_to_le s @ u64_to_le e @ le_bytes 4 (unat d)"
      using assms(1) by (simp add: RecSeal u32_word_to_le_def)
    have a0: "at (char_of (2 :: nat) # u64_to_le s @ u64_to_le e @ le_bytes 4 (unat d) @ []) ?c" using a by (simp add: b)
    note a1 = at_byte [OF a0]
    note a2 = at_advance [OF a1 length_le_bytes]
    note a3 = at_advance [OF a2 length_le_bytes]
    have "unat d < 2 ^ LENGTH(32)" by (rule unsigned_less)
    then have "unat d < 4294967296" by simp
    from cursor_byte_at [OF a0] cursor_u64_at [OF a1] cursor_u64_at [OF a2] cursor_u32_at [OF a3 this] show ?thesis
      by (simp add: RecSeal b cursor_record_def parse_bind_def parse_return_def)
  next
    case (RecBatch s rb)
    let ?ms = "batch_mutations rb"
    have sm: "list_all mutation_small ?ms" "?ms \<noteq> []" "length ?ms \<le> max_mutations limits" "length ?ms \<le> U32_MAX"
      using assms(2) by (auto simp: RecBatch Let_def)
    have b: "b = char_of (3 :: nat) # u64_to_le s @ origin_byte (batch_origin rb) # u32_to_le (length ?ms)
        @ concat (map mutation_bytes ?ms)"
      using assms(1) encode_mutations_eq [OF sm(1)] by (simp add: RecBatch)
    have a0: "at (char_of (3 :: nat) # u64_to_le s @ origin_byte (batch_origin rb) # u32_to_le (length ?ms)
        @ concat (map mutation_bytes ?ms) @ []) ?c" using a by (simp add: b)
    have wire: "list_all mutation_wire ?ms" using assms(3) by (simp add: RecBatch)
    from cursor_byte_at [OF a0] cursor_batch_at [OF sm(1) wire sm(2-4) at_byte [OF a0]] show ?thesis
      by (simp add: RecBatch b cursor_record_def parse_bind_def)
  qed
  then show ?thesis by (simp add: decode_record_def advance_def)
qed

section \<open>Reading the file\<close>

text \<open>How a reader goes through a prefix of twelve bytes and a body.\<close>

lemma read_framed_parts:
  assumes "length a = 4" "length b = 4" "length k = 4"
  shows "read_framed ended inc decode limits \<lparr>in_bytes = a @ b @ k @ body, in_fault = f\<rparr> =
    (if u32_not (of_le a) \<noteq> of_le b then Inl (FeCorrupt ''length'')
     else if of_le a = 0 \<or> of_le a > max_record_bytes limits \<or> of_le a > MAX_RECORD_BYTES then Inl FeLimit
     else read_rest inc (of_le a) \<lparr>in_bytes = body, in_fault = f\<rparr> (\<lambda>body i.
       if unat (checksum body) \<noteq> of_le k then Inl (FeCorrupt ''checksum'')
       else res_bind (decode body) (\<lambda>r. Inr (r, i))))"
proof -
  obtain x a' where a: "a = x # a'" "length a' = 3" using assms(1) by (cases a) auto
  have "read_exact 11 \<lparr>in_bytes = a' @ b @ k @ body, in_fault = f\<rparr> = Inr (a' @ b @ k, \<lparr>in_bytes = body, in_fault = f\<rparr>)"
    using assms a by (simp add: read_exact_def)
  then show ?thesis
    using assms a by (simp add: read_framed_def read_one_def read_rest_def slice_of_def Let_def)
qed

lemma frame_parts:
  "frame_record (length b) b = u32_to_le (length b) @ u32_to_le (u32_not (length b)) @ u32_word_to_le (checksum b) @ b"
  by (simp add: frame_record_def)

lemma of_le_word [simp]: "of_le (u32_word_to_le w) = unat w"
proof -
  have "unat w < 2 ^ LENGTH(32)" by (rule unsigned_less)
  then show ?thesis by (simp add: u32_word_to_le_def)
qed

lemma u32_not_less: "u32_not n < 4294967296"
  by (simp add: u32_not_def U32_MAX_def less_Suc_eq_le)

lemma max_record_small: "n \<le> MAX_RECORD_BYTES \<Longrightarrow> n < 4294967296 \<and> n \<le> USIZE_MAX"
  by (simp add: MAX_RECORD_BYTES_def USIZE_MAX_def)

text \<open>A body whose length the limits allow.\<close>

definition fits :: "aof_limits \<Rightarrow> bytes \<Rightarrow> bool" where
  "fits limits b \<longleftrightarrow> 0 < length b \<and> length b \<le> max_record_bytes limits \<and> length b \<le> MAX_RECORD_BYTES"

lemma framed_roundtrip:
  assumes "fits limits b" "decode b = Inr r"
  shows "read_framed ended inc decode limits \<lparr>in_bytes = frame_record (length b) b @ rest, in_fault = f\<rparr>
    = Inr (r, \<lparr>in_bytes = rest, in_fault = f\<rparr>)"
proof -
  have b: "0 < length b" "length b \<le> max_record_bytes limits" "length b \<le> MAX_RECORD_BYTES"
    using assms(1) by (auto simp: fits_def)
  have "read_framed ended inc decode limits
        \<lparr>in_bytes = u32_to_le (length b) @ u32_to_le (u32_not (length b)) @ u32_word_to_le (checksum b) @ (b @ rest), in_fault = f\<rparr>
      = Inr (r, \<lparr>in_bytes = rest, in_fault = f\<rparr>)"
    using b max_record_small [OF b(3)] assms(2)
    by (subst read_framed_parts) (simp_all add: u32_not_less read_rest_def read_exact_def)
  then show ?thesis by (simp add: frame_parts)
qed

lemma framed_torn:
  assumes "fits limits b" and n: "n < length (frame_record (length b) b)"
  shows "read_framed ended inc decode limits \<lparr>in_bytes = take n (frame_record (length b) b), in_fault = None\<rparr>
    = Inr (if n = 0 then ended else inc, \<lparr>in_bytes = [], in_fault = None\<rparr>)"
proof -
  let ?w = "frame_record (length b) b"
  have b: "0 < length b" "length b \<le> max_record_bytes limits" "length b \<le> MAX_RECORD_BYTES"
    using assms(1) by (auto simp: fits_def)
  consider "n = 0" | "0 < n" "n < 12" | "12 \<le> n" by linarith
  then show ?thesis
  proof cases
    case 1
    then show ?thesis by (simp add: read_framed_def read_one_def)
  next
    case 2
    then obtain x xs where x: "take n ?w = x # xs" "length xs < 11"
      using n by (cases "take n ?w") (auto dest: arg_cong [of _ _ length])
    then show ?thesis using 2 by (simp add: read_framed_def read_one_def read_rest_def read_exact_def exhausted_def)
  next
    case 3
    have t: "take n ?w = u32_to_le (length b) @ u32_to_le (u32_not (length b)) @ u32_word_to_le (checksum b) @ take (n - 12) b"
      using 3 by (simp add: frame_parts)
    have "n - 12 < length b" using n 3 by (simp add: frame_parts)
    then show ?thesis unfolding t using b max_record_small [OF b(3)] 3
      by (subst read_framed_parts) (simp_all add: u32_not_less read_rest_def read_exact_def exhausted_def)
  qed
qed

lemma u32_not_inj: "m < 4294967296 \<Longrightarrow> n < 4294967296 \<Longrightarrow> u32_not m = u32_not n \<longleftrightarrow> m = n"
  by (auto simp: u32_not_def U32_MAX_def)

lemma update_split: "i < length xs \<Longrightarrow> xs[i := y] = take i xs @ y # drop (Suc i) xs"
  by (simp add: upd_conv_take_nth_drop)

lemma framed_altered:
  assumes "fits limits b" and w: "w = frame_record (length b) b" and i: "i < length w" and y: "y \<noteq> w ! i"
  shows "\<exists>what. read_framed ended inc decode limits \<lparr>in_bytes = w[i := y] @ rest, in_fault = f\<rparr> = Inl (FeCorrupt what)"
proof -
  let ?n = "length b" and ?a = "u32_to_le (length b)" and ?na = "u32_to_le (u32_not (length b))" and ?k = "u32_word_to_le (checksum b)"
  have b: "0 < ?n" "?n \<le> max_record_bytes limits" "?n \<le> MAX_RECORD_BYTES" using assms(1) by (auto simp: fits_def)
  have small: "?n < 4294967296" using max_record_small [OF b(3)] by simp
  have w: "w = ?a @ ?na @ ?k @ b" using w by (simp add: frame_parts)
  have diff: "xs[j := y] \<noteq> xs" if "j < length xs" "xs ! j = w ! i" for xs j
    using that y by (metis nth_list_update_eq)
  note parts = w list_update_append less_diff_conv2
  consider "i < 4" | "4 \<le> i" "i < 8" | "8 \<le> i" "i < 12" | "12 \<le> i" "i - 12 < ?n" using i by (force simp: w)
  then show ?thesis
  proof cases
    case 1
    have "w[i := y] @ rest = ?a[i := y] @ ?na @ ?k @ (b @ rest)" using 1 by (simp add: parts)
    moreover have "of_le (?a[i := y]) < 4294967296" using of_le_less [of "?a[i := y]"] by simp
    moreover have "of_le (?a[i := y]) \<noteq> ?n"
      using diff [of i ?a] 1 small of_le_inj [of "?a[i := y]" ?a] by (auto simp: w nth_append)
    ultimately show ?thesis using small by (simp add: read_framed_parts u32_not_inj u32_not_less)
  next
    case 2
    have "w[i := y] @ rest = ?a @ ?na[i - 4 := y] @ ?k @ (b @ rest)" using 2 by (simp add: parts)
    moreover have "of_le (?na[i - 4 := y]) \<noteq> u32_not ?n"
      using diff [of "i - 4" ?na] 2 u32_not_less of_le_inj [of "?na[i - 4 := y]" ?na] by (auto simp: w nth_append)
    ultimately show ?thesis using small by (auto simp: read_framed_parts)
  next
    case 3
    have "w[i := y] @ rest = ?a @ ?na @ ?k[i - 8 := y] @ (b @ rest)" using 3 by (simp add: parts)
    moreover have "of_le (?k[i - 8 := y]) \<noteq> unat (checksum b)"
      using diff [of "i - 8" ?k] 3 of_le_inj [of "?k[i - 8 := y]" ?k] by (auto simp: w nth_append less_diff_conv2)
    ultimately show ?thesis using small b
      by (simp add: read_framed_parts u32_not_less read_rest_def read_exact_def)
  next
    case 4
    let ?j = "i - 12"
    have "w[i := y] @ rest = ?a @ ?na @ ?k @ (b[?j := y] @ rest)" using 4 by (simp add: parts)
    moreover have "y \<noteq> b ! ?j" using y 4 by (auto simp: w nth_append less_diff_conv2)
    then have "unat (checksum (b[?j := y])) \<noteq> unat (checksum b)"
      using checksum_one_byte [of y "b ! ?j" "take ?j b" "drop (Suc ?j) b"] 4
      by (auto simp: update_split id_take_nth_drop [symmetric] dest!: unsigned_word_eqI)
    ultimately show ?thesis using small b
      by (simp add: read_framed_parts u32_not_less read_rest_def read_exact_def)
  qed
qed

lemma encode_record_frame:
  assumes "encode_record r limits = Inr w"
  obtains b where "encode_body r = Inr b" "w = frame_record (length b) b" "record_small limits r" "fits limits b"
proof -
  obtain n b where n: "record_size r limits = Inr n" "encode_body r = Inr b" "w = frame_record n b"
    "n \<le> max_record_bytes limits" "n \<le> MAX_RECORD_BYTES"
    using assms by (auto simp: encode_record_def result_simps)
  with record_size_encoded [OF n(1)] that show ?thesis by (auto simp: fits_def)
qed

lemma record_decodes:
  assumes "encode_record r limits = Inr w" "record_wire r"
  shows "read_record limits \<lparr>in_bytes = w @ rest, in_fault = f\<rparr> = Inr (NextRecord r, \<lparr>in_bytes = rest, in_fault = f\<rparr>)"
proof -
  obtain b where b: "encode_body r = Inr b" "w = frame_record (length b) b" "record_small limits r" "fits limits b"
    by (rule encode_record_frame [OF assms(1)])
  have "length b \<le> USIZE_MAX" using b(4) max_record_small by (auto simp: fits_def)
  then have "decode_record b limits = Inr r" by (rule decode_encode_body [OF b(1,3) assms(2)])
  then show ?thesis unfolding read_record_def b(2) by (intro framed_roundtrip [OF b(4)]) simp
qed

lemma torn_record:
  assumes "encode_record r limits = Inr w" "n < length w"
  shows "read_record limits \<lparr>in_bytes = take n w, in_fault = None\<rparr>
    = Inr (if n = 0 then NextEnd else NextIncomplete, \<lparr>in_bytes = [], in_fault = None\<rparr>)"
proof -
  obtain b where b: "w = frame_record (length b) b" "fits limits b" by (rule encode_record_frame [OF assms(1)])
  with assms(2) show ?thesis unfolding read_record_def by (simp only: framed_torn)
qed

section \<open>Headers\<close>

lemma read_header_exact_ok:
  "length x = n \<Longrightarrow> read_header_exact n \<lparr>in_bytes = x @ w, in_fault = f\<rparr> = Inr (x, \<lparr>in_bytes = w, in_fault = f\<rparr>)"
  by (simp add: read_header_exact_def read_exact_def)

definition metadata_ok :: "replication_metadata option \<Rightarrow> bool" where
  "metadata_ok r \<longleftrightarrow> (case r of None \<Rightarrow> True | Some m \<Rightarrow> length (rm_epoch m) = 16)"

lemma length_encode_metadata:
  "metadata_ok r \<Longrightarrow> length (encode_metadata r) = (if r = None then 0 else 20)"
  by (auto simp: metadata_ok_def encode_metadata_def split: option.splits)

text \<open>A header split at its twelfth byte: the fixed prefix, then the fields and the checksum.\<close>

lemma read_header_parts:
  assumes "length v = 4" "header_size (of_le v) = Inr n" "12 + length fs + 4 = n" "length k = 4"
  shows "read_header_with_layout \<lparr>in_bytes = MAGIC @ v @ fs @ k @ rest, in_fault = f\<rparr> =
    (let h = MAGIC @ v @ fs @ k;
         layout = (if of_le v = AOF_VERSION then layout_default
           else \<lparr>shard_count = of_le (slice_of 8 12 fs), routing_version = of_le (slice_of 12 16 fs)\<rparr>)
     in res_bind (ensure (unat (checksum (MAGIC @ v @ fs)) = of_le k) FeHeader) (\<lambda>_.
        res_bind (map_err (\<lambda>_. FeCorrupt ''shard configuration'') (layout_validate layout)) (\<lambda>_.
        res_bind (if of_le v = REPLICATION_VERSION then res_bind (decode_metadata h) (\<lambda>m. Inr (Some m)) else Inr None) (\<lambda>replication.
          Inr (\<lparr>ah_sequence = of_nat (of_le (take 8 fs)), ah_layout = layout, ah_version = of_le v,
                ah_bytes = n, ah_replication = replication\<rparr>, \<lparr>in_bytes = rest, in_fault = f\<rparr>)))))"
proof -
  have m: "length MAGIC = 8" by (simp add: MAGIC_def)
  have r1: "read_header_exact 12 \<lparr>in_bytes = MAGIC @ v @ fs @ k @ rest, in_fault = f\<rparr>
      = Inr (MAGIC @ v, \<lparr>in_bytes = fs @ k @ rest, in_fault = f\<rparr>)"
    using read_header_exact_ok [of "MAGIC @ v" 12 "fs @ k @ rest" f] m assms(1) by simp
  have r2: "read_header_exact (n - 12) \<lparr>in_bytes = fs @ k @ rest, in_fault = f\<rparr>
      = Inr (fs @ k, \<lparr>in_bytes = rest, in_fault = f\<rparr>)"
    using read_header_exact_ok [of "fs @ k" "n - 12" rest f] assms(3,4) by simp
  have t: "take (n - 4) (MAGIC @ v @ fs @ k) = MAGIC @ v @ fs" "drop (n - 4) (MAGIC @ v @ fs @ k) = k"
    using assms m by auto
  have n: "24 \<le> n" using assms(2) by (auto simp: header_size_def HEADER_BYTES_def LAYOUT_HEADER_BYTES_def
      REPLICATION_HEADER_BYTES_def split: if_splits)
  have s: "slice_of a (a + 4) (MAGIC @ v @ fs @ k) = slice_of (a - 12) (a - 8) fs" if "12 \<le> a" "a + 4 \<le> n - 4" for a
    using that assms m by (simp add: slice_of_def)
  have q: "slice_of 12 20 (MAGIC @ v @ fs @ k) = take 8 fs"
    using n assms m by (simp add: slice_of_def)
  have "slice_of 20 24 (MAGIC @ v @ fs @ k) = slice_of 8 12 fs"
    "slice_of 24 28 (MAGIC @ v @ fs @ k) = slice_of 12 16 fs" if "of_le v \<noteq> AOF_VERSION"
    using s [of 20] s [of 24] that assms(2)
    by (auto simp: header_size_def LAYOUT_HEADER_BYTES_def REPLICATION_HEADER_BYTES_def split: if_splits)
  then show ?thesis
    unfolding read_header_with_layout_def r1
    using r2 t q m assms(1,2) by (auto simp: Let_def slice_of_def [of 8 12 "MAGIC @ v"])
qed

lemma layout_small: "layout_validate l = Inr () \<Longrightarrow> shard_count l < 4294967296 \<and> routing_version l < 4294967296"
  by (auto simp: layout_validate_def router_new_def result_simps MAX_SHARDS_def ROUTING_VERSION_def)

lemma decode_encode_metadata:
  assumes "length p = 28" "length (rm_epoch m) = 16"
  shows "decode_metadata (p @ encode_metadata (Some m) @ k) = Inr m"
proof (cases m)
  case (fields r e)
  then show ?thesis using assms
    by (cases r) (simp_all add: decode_metadata_def encode_metadata_def slice_of_def nth_append numeral_3_eq_3)
qed

lemma header_decodes:
  assumes "write_header_with_replication s layout r = Inr h" "metadata_ok r"
  shows "read_header_with_layout \<lparr>in_bytes = h @ rest, in_fault = f\<rparr>
      = Inr (\<lparr>ah_sequence = s, ah_layout = layout, ah_version = (if r = None then LAYOUT_VERSION else REPLICATION_VERSION),
          ah_bytes = length h, ah_replication = r\<rparr>, \<lparr>in_bytes = rest, in_fault = f\<rparr>)
    \<and> read_header_with_layout \<lparr>in_bytes = write_header s @ rest, in_fault = f\<rparr>
      = Inr (\<lparr>ah_sequence = s, ah_layout = layout_default, ah_version = AOF_VERSION,
          ah_bytes = length (write_header s), ah_replication = None\<rparr>, \<lparr>in_bytes = rest, in_fault = f\<rparr>)"
proof
  let ?v = "u32_to_le (if r = None then LAYOUT_VERSION else REPLICATION_VERSION)"
  let ?fs = "u64_to_le s @ u32_to_le (shard_count layout) @ u32_to_le (routing_version layout) @ encode_metadata r"
  let ?k = "u32_word_to_le (checksum (MAGIC @ ?v @ ?fs))"
  have ok: "layout_validate layout = Inr ()" and h: "h = MAGIC @ ?v @ ?fs @ ?k"
    using assms(1) by (auto simp: write_header_with_replication_def result_simps sealed_def)
  have m: "length MAGIC = 8" by (simp add: MAGIC_def)
  have v: "of_le ?v = (if r = None then LAYOUT_VERSION else REPLICATION_VERSION)"
    by (simp add: LAYOUT_VERSION_def REPLICATION_VERSION_def)
  have n: "header_size (of_le ?v) = Inr (length h)" "12 + length ?fs + 4 = length h"
    using length_encode_metadata [OF assms(2)] m unfolding v
    by (auto simp: header_size_def h AOF_VERSION_def LAYOUT_VERSION_def REPLICATION_VERSION_def
        LAYOUT_HEADER_BYTES_def REPLICATION_HEADER_BYTES_def)
  have l: "\<lparr>shard_count = of_le (slice_of 8 12 ?fs), routing_version = of_le (slice_of 12 16 ?fs)\<rparr> = layout"
    using layout_small [OF ok] by (simp add: slice_of_def)
  have d: "decode_metadata (MAGIC @ ?v @ ?fs @ ?k) = Inr x" if "r = Some x" for x
    using decode_encode_metadata [of "MAGIC @ ?v @ u64_to_le s @ u32_to_le (shard_count layout) @ u32_to_le (routing_version layout)" x ?k]
      assms(2) m that by (simp add: metadata_ok_def)
  have "read_header_with_layout \<lparr>in_bytes = MAGIC @ ?v @ ?fs @ ?k @ rest, in_fault = f\<rparr>
      = Inr (\<lparr>ah_sequence = s, ah_layout = layout, ah_version = of_le ?v,
          ah_bytes = length h, ah_replication = r\<rparr>, \<lparr>in_bytes = rest, in_fault = f\<rparr>)"
    using ok l d by (subst read_header_parts [OF _ n])
      (auto simp: Let_def v AOF_VERSION_def LAYOUT_VERSION_def REPLICATION_VERSION_def)
  then show "read_header_with_layout \<lparr>in_bytes = h @ rest, in_fault = f\<rparr>
      = Inr (\<lparr>ah_sequence = s, ah_layout = layout, ah_version = (if r = None then LAYOUT_VERSION else REPLICATION_VERSION),
          ah_bytes = length h, ah_replication = r\<rparr>, \<lparr>in_bytes = rest, in_fault = f\<rparr>)"
    unfolding v by (simp add: h)
  have "read_header_with_layout \<lparr>in_bytes = MAGIC @ u32_to_le AOF_VERSION @ u64_to_le s
        @ u32_word_to_le (checksum (MAGIC @ u32_to_le AOF_VERSION @ u64_to_le s)) @ rest, in_fault = f\<rparr>
      = Inr (\<lparr>ah_sequence = s, ah_layout = layout_default, ah_version = AOF_VERSION,
          ah_bytes = HEADER_BYTES, ah_replication = None\<rparr>, \<lparr>in_bytes = rest, in_fault = f\<rparr>)"
    by (subst read_header_parts [where n = HEADER_BYTES])
      (simp_all add: header_size_def Let_def AOF_VERSION_def HEADER_BYTES_def REPLICATION_VERSION_def layout_default_def
        layout_validate_def router_new_def MAX_SHARDS_def ROUTING_VERSION_def)
  then show "read_header_with_layout \<lparr>in_bytes = write_header s @ rest, in_fault = f\<rparr>
      = Inr (\<lparr>ah_sequence = s, ah_layout = layout_default, ah_version = AOF_VERSION,
          ah_bytes = length (write_header s), ah_replication = None\<rparr>, \<lparr>in_bytes = rest, in_fault = f\<rparr>)"
    by (simp add: write_header_def sealed_def HEADER_BYTES_def m)
qed

text \<open>
  C26. Every header a writer publishes is read back with its sequence, its layout and its
  role, whichever of the three versions it has; a version 1 header stands for the
  default layout of one shard.
\<close>

theorem header_roundtrip:
  assumes "write_header_with_replication s layout r = Inr h" "metadata_ok r"
  shows "read_header_with_layout \<lparr>in_bytes = h @ rest, in_fault = f\<rparr>
      = Inr (\<lparr>ah_sequence = s, ah_layout = layout, ah_version = (if r = None then LAYOUT_VERSION else REPLICATION_VERSION),
          ah_bytes = length h, ah_replication = r\<rparr>, \<lparr>in_bytes = rest, in_fault = f\<rparr>)
    \<and> read_header_with_layout \<lparr>in_bytes = write_header s @ rest, in_fault = f\<rparr>
      = Inr (\<lparr>ah_sequence = s, ah_layout = layout_default, ah_version = AOF_VERSION,
          ah_bytes = length (write_header s), ah_replication = None\<rparr>, \<lparr>in_bytes = rest, in_fault = f\<rparr>)"
  by (rule header_decodes [OF assms])

section \<open>Properties\<close>

text \<open>
  C9. What is appended is read back: a record the encoder accepts, followed by any
  bytes, is read as that same record, and the reader then stands at the bytes that
  follow.
\<close>

theorem record_roundtrip:
  assumes "encode_record r limits = Inr w" "record_wire r"
  shows "read_record limits \<lparr>in_bytes = w @ rest, in_fault = f\<rparr> = Inr (NextRecord r, \<lparr>in_bytes = rest, in_fault = f\<rparr>)"
  by (rule record_decodes [OF assms])

text \<open>
  C10. A torn append is recognised as such: when a crash leaves only a part of an
  encoded record at the end of the file, the reader reports an incomplete tail, and the
  end of the file when nothing of the record was written; no part reads as a record or
  as corruption.
\<close>

theorem torn_record_is_incomplete:
  assumes "encode_record r limits = Inr w" "n < length w"
  shows "read_record limits \<lparr>in_bytes = take n w, in_fault = None\<rparr>
    = Inr (if n = 0 then NextEnd else NextIncomplete, \<lparr>in_bytes = [], in_fault = None\<rparr>)"
  by (rule torn_record [OF assms])

text \<open>
  C11. A changed byte is detected: whichever byte of an encoded record is altered - of its
  length, the complement, the checksum or the body - reading it is an error that reports
  corruption, so that no altered record is ever replayed.
\<close>

theorem altered_record_is_refused:
  assumes "encode_record r limits = Inr w" "i < length w" "y \<noteq> w ! i"
  shows "\<exists>what. read_record limits \<lparr>in_bytes = w[i := y] @ rest, in_fault = f\<rparr> = Inl (FeCorrupt what)"
proof -
  obtain b where b: "w = frame_record (length b) b" "fits limits b" by (rule encode_record_frame [OF assms(1)])
  show ?thesis unfolding read_record_def by (rule framed_altered [OF b(2,1) assms(2,3)])
qed

section \<open>Instances\<close>

definition sample_record :: aof_record where
  "sample_record = RecBatch 7 \<lparr>batch_origin = Client,
     batch_mutations = [Put ''k'' (VSet [''a'', ''b'']) (Some 9), Delete ''d'']\<rparr>"

lemma sample_record_encodes: "\<exists>w. encode_record sample_record aof_limits_default = Inr w \<and> length w = 61"
  by (simp add: encode_record_def sample_record_def Let_def add_mutation_def mutation_size_def counted_def add_blob_def
      blob_size_def checked_add_def U32_MAX_def USIZE_MAX_def MAX_RECORD_BYTES_def aof_limits_default_def encode_mutation_def
      frame_record_def)

lemma sample_record_wire: "record_wire sample_record"
proof -
  have "''a'' < ''b''" by (simp add: list_less_def lexordp_simps less_char_def)
  then show ?thesis by (simp add: sample_record_def i64_ok_def I64_MIN_def I64_MAX_def)
qed

theorem record_roundtrip_witness:
  "\<exists>w. encode_record sample_record aof_limits_default = Inr w
    \<and> read_record aof_limits_default \<lparr>in_bytes = w @ ''tail'', in_fault = None\<rparr>
      = Inr (NextRecord sample_record, \<lparr>in_bytes = ''tail'', in_fault = None\<rparr>)"
  using sample_record_encodes record_roundtrip [OF _ sample_record_wire] by blast

theorem torn_record_is_incomplete_witness:
  "\<exists>w. encode_record sample_record aof_limits_default = Inr w
    \<and> read_record aof_limits_default \<lparr>in_bytes = take 20 w, in_fault = None\<rparr>
      = Inr (NextIncomplete, \<lparr>in_bytes = [], in_fault = None\<rparr>)"
proof -
  obtain w where w: "encode_record sample_record aof_limits_default = Inr w" "length w = 61"
    using sample_record_encodes by blast
  with torn_record_is_incomplete [OF w(1), of 20] show ?thesis by auto
qed

theorem altered_record_is_refused_witness:
  "\<exists>w what. encode_record sample_record aof_limits_default = Inr w
    \<and> read_record aof_limits_default \<lparr>in_bytes = w[30 := if w ! 30 = CHR ''x'' then CHR ''y'' else CHR ''x''], in_fault = None\<rparr>
      = Inl (FeCorrupt what)"
proof -
  obtain w where w: "encode_record sample_record aof_limits_default = Inr w" "length w = 61"
    using sample_record_encodes by blast
  let ?y = "if w ! 30 = CHR ''x'' then CHR ''y'' else CHR ''x''"
  have "?y \<noteq> w ! 30" by simp
  from altered_record_is_refused [OF w(1) _ this, of "[]" None] w show ?thesis by auto
qed

theorem header_roundtrip_witness:
  "\<exists>h. write_header_with_replication 5 layout_default (Some \<lparr>rm_role = Replica, rm_epoch = ''0123456789abcdef''\<rparr>) = Inr h
    \<and> read_header_with_layout \<lparr>in_bytes = h, in_fault = None\<rparr>
      = Inr (\<lparr>ah_sequence = 5, ah_layout = layout_default, ah_version = 3, ah_bytes = length h,
          ah_replication = Some \<lparr>rm_role = Replica, rm_epoch = ''0123456789abcdef''\<rparr>\<rparr>, \<lparr>in_bytes = [], in_fault = None\<rparr>)"
proof -
  let ?r = "Some \<lparr>rm_role = Replica, rm_epoch = ''0123456789abcdef''\<rparr>"
  have "layout_validate layout_default = Inr ()"
    by (simp add: layout_default_def layout_validate_def router_new_def MAX_SHARDS_def ROUTING_VERSION_def)
  then obtain h where h: "write_header_with_replication 5 layout_default ?r = Inr h"
    by (simp add: write_header_with_replication_def)
  from header_roundtrip [OF h, of "[]" None] h show ?thesis
    by (auto simp: metadata_ok_def REPLICATION_VERSION_def)
qed

end
