(* ===== verification/Memory_Format.thy ===== *)
theory Memory_Format
  imports Aof_Format
begin

text \<open>
  Record version 2 (\<open>src/src/persistence/memory_format.rs\<close>): mutations of memory
  collections as complete images and guarded deltas, their headers, records and decoder.
\<close>

section \<open>Types\<close>

definition RECORD_VERSION :: nat where "RECORD_VERSION = 2"

definition MEMORY_HEADER_VERSION :: nat where "MEMORY_HEADER_VERSION = 4"

definition MEMORY_REPLICATION_HEADER_VERSION :: nat where "MEMORY_REPLICATION_HEADER_VERSION = 5"

definition MEMORY_HEADER_BYTES :: nat where "MEMORY_HEADER_BYTES = 36"

definition MEMORY_REPLICATION_HEADER_BYTES :: nat where "MEMORY_REPLICATION_HEADER_BYTES = 56"

record mem_header =
  mh_sequence :: u64
  mh_layout :: durable_layout
  mh_replication :: "replication_metadata option"

datatype mem_mutation =
    Legacy mutation
  | Image bytes collection "int option"
  | Delta bytes descriptor "edit list" "int option"

datatype mem_record =
    MemSnapshot mem_mutation
  | MemSeal u64 u64 u32
  | MemBatch u64 mutation_origin "mem_mutation list"

datatype mem_next = MemEnd | MemIncomplete | MemRecord mem_record

fun from_storage :: "mutation \<Rightarrow> mem_mutation" where
  "from_storage (Put key (VMemory c) d) = Image key c d"
| "from_storage mu = Legacy mu"

fun mem_key :: "mem_mutation \<Rightarrow> bytes" where
  "mem_key (Legacy mu) = mutation_key mu"
| "mem_key (Image key _ _) = key"
| "mem_key (Delta key _ _ _) = key"

fun add_edit :: "edit \<Rightarrow> nat \<Rightarrow> format_error + nat" where
  "add_edit e acc = ok_or (checked_add acc (edit_encoded_bytes e)) FeLimit"

fun mem_encoded_bytes :: "mem_mutation \<Rightarrow> format_error + nat" where
  "mem_encoded_bytes (Legacy mu) = mutation_size mu"
| "mem_encoded_bytes (Image key c _) =
     res_bind (map_err (\<lambda>_. FeCorrupt ''memory image'') (validate_key c key)) (\<lambda>_.
       Inr (5 + length key + coll_encoded_bytes c + 9))"
| "mem_encoded_bytes (Delta key d es _) =
     res_bind (ensure (\<not> (key = [] \<or> length key > 256 \<or> length es > MAX_EDITS)) (FeCorrupt ''memory delta bounds'')) (\<lambda>_.
     res_bind (map_err (\<lambda>_. FeCorrupt ''memory delta'') (validate_edits d es)) (\<lambda>_.
       sum_sizes add_edit es (18 + length key + descriptor_encoded_bytes d)))"

section \<open>Headers\<close>

definition zero_epoch :: bytes where "zero_epoch = replicate 16 (char_of (0 :: nat))"

definition primary_epoch_missing :: "replication_metadata option \<Rightarrow> bool" where
  "primary_epoch_missing r \<longleftrightarrow> (case r of None \<Rightarrow> False | Some m \<Rightarrow> rm_role m = Primary \<and> rm_epoch m = zero_epoch)"

definition mem_encode_header :: "mem_header \<Rightarrow> format_error + bytes" where
  "mem_encode_header h =
     res_bind (map_err (\<lambda>_. FeCorrupt ''layout'') (layout_validate (mh_layout h))) (\<lambda>_.
     res_bind (ensure (\<not> primary_epoch_missing (mh_replication h)) (FeCorrupt ''primary epoch'')) (\<lambda>_.
       Inr (sealed (MAGIC
         @ u32_to_le (if mh_replication h = None then MEMORY_HEADER_VERSION else MEMORY_REPLICATION_HEADER_VERSION)
         @ u64_to_le (mh_sequence h) @ u32_to_le (shard_count (mh_layout h)) @ u32_to_le (routing_version (mh_layout h))
         @ u32_to_le RECORD_VERSION @ encode_metadata (mh_replication h)))))"

definition mem_header_size :: "nat \<Rightarrow> format_error + nat" where
  "mem_header_size version =
     (if version = MEMORY_HEADER_VERSION then Inr MEMORY_HEADER_BYTES
      else if version = MEMORY_REPLICATION_HEADER_VERSION then Inr MEMORY_REPLICATION_HEADER_BYTES
      else Inl (FeVersion version))"

definition mem_decode_metadata :: "bytes \<Rightarrow> format_error + replication_metadata" where
  "mem_decode_metadata h =
     res_bind (ensure (slice_of 33 36 h = replicate 3 (char_of (0 :: nat))) (FeCorrupt ''reserved header bytes'')) (\<lambda>_.
     res_bind (if h ! 32 = char_of (1 :: nat) then Inr Primary
               else if h ! 32 = char_of (2 :: nat) then Inr Replica
               else Inl (FeCorrupt ''role'')) (\<lambda>role.
     res_bind (ensure (\<not> (role = Primary \<and> slice_of 36 52 h = zero_epoch)) (FeCorrupt ''primary epoch'')) (\<lambda>_.
       Inr \<lparr>rm_role = role, rm_epoch = slice_of 36 52 h\<rparr>)))"

definition mem_read_header :: "input \<Rightarrow> format_error + mem_header \<times> input" where
  "mem_read_header i =
     res_bind (map_err FeIo (read_exact 12 i)) (\<lambda>(prefix, i).
     res_bind (ensure (take 8 prefix = MAGIC) (FeCorrupt ''magic'')) (\<lambda>_.
       let version = of_le (slice_of 8 12 prefix)
       in res_bind (mem_header_size version) (\<lambda>len.
          res_bind (map_err FeIo (read_exact (len - 12) i)) (\<lambda>(rest, i).
            let h = prefix @ rest
            in res_bind (ensure (unat (checksum (take (len - 4) h)) = of_le (drop (len - 4) h)) (FeCorrupt ''header checksum'')) (\<lambda>_.
               let layout = \<lparr>shard_count = of_le (slice_of 20 24 h), routing_version = of_le (slice_of 24 28 h)\<rparr>
               in res_bind (map_err (\<lambda>_. FeCorrupt ''layout'') (layout_validate layout)) (\<lambda>_.
                  res_bind (ensure (of_le (slice_of 28 32 h) = RECORD_VERSION) (FeCorrupt ''record version'')) (\<lambda>_.
                  res_bind (if version = MEMORY_REPLICATION_HEADER_VERSION
                            then res_bind (mem_decode_metadata h) (\<lambda>m. Inr (Some m)) else Inr None) (\<lambda>replication.
                    Inr (\<lparr>mh_sequence = of_nat (of_le (slice_of 12 20 h)), mh_layout = layout,
                          mh_replication = replication\<rparr>, i)))))))))"

section \<open>Encoding\<close>

definition encode_descriptor :: "descriptor \<Rightarrow> bytes" where
  "encode_descriptor d =
     u32_to_le 1 @ u32_to_le (dimension d) @ [char_of (1 :: nat), char_of (1 :: nat)]
     @ concat (map encode_blob [provider d, model d, revision d, transform d])"

fun encode_scalar :: "scalar \<Rightarrow> bytes" where
  "encode_scalar (SBytes v) = char_of (1 :: nat) # encode_blob v"
| "encode_scalar (SInteger i) = char_of (2 :: nat) # i64_to_le i"
| "encode_scalar (SBool b) = [char_of (3 :: nat), char_of (of_bool b :: nat)]"

definition encode_metadata_field :: "bytes \<times> scalar \<Rightarrow> bytes" where
  "encode_metadata_field = (\<lambda>(field, scalar). encode_blob field @ encode_scalar scalar)"

definition encode_member :: "nat \<Rightarrow> member \<Rightarrow> bytes" where
  "encode_member dim m =
     encode_blob (mem_id m) @ encode_blob (mem_namespace m) @ encode_blob (mem_content m)
     @ u32_to_le dim @ mem_vector m @ encode_deadline (mem_deadline m)
     @ u32_to_le (length (mem_metadata m)) @ concat (map encode_metadata_field (mem_metadata m))
     @ u32_to_le (length (mem_provenance m)) @ concat (map encode_field (mem_provenance m))"

fun encode_edit :: "nat \<Rightarrow> edit \<Rightarrow> bytes" where
  "encode_edit dim (Upsert m) = char_of (1 :: nat) # encode_member dim m"
| "encode_edit dim (Remove ident) = char_of (2 :: nat) # encode_blob ident"

fun mem_encode_mutation :: "mem_mutation \<Rightarrow> format_error + bytes" where
  "mem_encode_mutation (Legacy mu) = encode_mutation mu"
| "mem_encode_mutation (Image key c d) =
     Inr (char_of (7 :: nat) # encode_blob key @ encode_descriptor (coll_descriptor c)
       @ u32_to_le (length (coll_members c))
       @ concat (map (encode_member (dimension (coll_descriptor c))) (map snd (coll_members c))) @ encode_deadline d)"
| "mem_encode_mutation (Delta key schema es d) =
     Inr (char_of (8 :: nat) # encode_blob key @ encode_descriptor schema @ u32_to_le (length es)
       @ concat (map (encode_edit (dimension schema)) es) @ encode_deadline d)"

fun mem_encode_mutations :: "mem_mutation list \<Rightarrow> format_error + bytes" where
  "mem_encode_mutations [] = Inr []"
| "mem_encode_mutations (mu # ms) =
     res_bind (mem_encode_mutation mu) (\<lambda>b. res_bind (mem_encode_mutations ms) (\<lambda>bs. Inr (b @ bs)))"

text \<open>The size of a batch, refusing a repeated key.\<close>

fun mem_batch_size :: "mem_mutation list \<Rightarrow> bytes btree_set \<Rightarrow> nat \<Rightarrow> format_error + nat" where
  "mem_batch_size [] keys acc = Inr acc"
| "mem_batch_size (mu # ms) keys acc =
     res_bind (ensure (mem_key mu \<notin> set keys) (FeCorrupt ''duplicate batch key'')) (\<lambda>_.
     res_bind (mem_encoded_bytes mu) (\<lambda>n.
     res_bind (ok_or (checked_add acc n) FeLimit) (\<lambda>acc. mem_batch_size ms (bs_insert (mem_key mu) keys) acc)))"

fun mem_record_size :: "mem_record \<Rightarrow> aof_limits \<Rightarrow> format_error + nat" where
  "mem_record_size (MemSnapshot (Delta _ _ _ _)) limits = Inl (FeCorrupt ''delta snapshot'')"
| "mem_record_size (MemSnapshot mu) limits = res_bind (mem_encoded_bytes mu) (\<lambda>n. ok_or (checked_add n 1) FeLimit)"
| "mem_record_size (MemSeal _ _ _) limits = Inr 21"
| "mem_record_size (MemBatch _ _ ms) limits =
     res_bind (ensure (\<not> (ms = [] \<or> length ms > max_mutations limits \<or> length ms > U32_MAX)) FeLimit) (\<lambda>_.
       mem_batch_size ms [] 14)"

fun mem_encode_body :: "mem_record \<Rightarrow> format_error + bytes" where
  "mem_encode_body (MemSnapshot mu) = res_bind (mem_encode_mutation mu) (\<lambda>b. Inr (char_of (1 :: nat) # b))"
| "mem_encode_body (MemSeal sequence entries digest) =
     Inr (char_of (2 :: nat) # u64_to_le sequence @ u64_to_le entries @ u32_word_to_le digest)"
| "mem_encode_body (MemBatch sequence origin ms) =
     res_bind (mem_encode_mutations ms) (\<lambda>bs.
       Inr (char_of (3 :: nat) # u64_to_le sequence @ origin_byte origin # u32_to_le (length ms) @ bs))"

definition mem_encode_record :: "mem_record \<Rightarrow> aof_limits \<Rightarrow> format_error + bytes" where
  "mem_encode_record r limits =
     res_bind (mem_record_size r limits) (\<lambda>n.
     res_bind (ensure (\<not> (n > max_record_bytes limits \<or> n > MAX_RECORD_BYTES)) FeLimit) (\<lambda>_.
     res_bind (mem_encode_body r) (\<lambda>body. Inr (frame_record n body))))"

section \<open>Decoding\<close>

definition bounded_blob :: "nat \<Rightarrow> nat \<Rightarrow> bytes parser" where
  "bounded_blob minimum maximum =
     parse_bind cursor_u32 (\<lambda>n.
       if n < minimum \<or> n > maximum then parse_lift (Inl (FeCorrupt ''memory blob length'')) else cursor_take n)"

definition bounded_deadline :: "bool \<Rightarrow> int option parser" where
  "bounded_deadline member =
     parse_bind cursor_byte (\<lambda>flag.
     parse_bind cursor_i64 (\<lambda>d.
       parse_lift (if flag = char_of (0 :: nat) \<and> d = 0 then Inr None
                   else if flag = char_of (1 :: nat) \<and> (\<not> member \<or> d > 0) then Inr (Some d)
                   else Inl (FeCorrupt ''deadline''))))"

definition cursor_descriptor :: "descriptor parser" where
  "cursor_descriptor =
     parse_bind cursor_u32 (\<lambda>schema.
     parse_bind (parse_lift (ensure (schema = 1) (FeCorrupt ''memory schema version''))) (\<lambda>_.
     parse_bind cursor_u32 (\<lambda>dim.
     parse_bind (parse_lift (ensure (1 \<le> dim \<and> dim \<le> 4096) (FeCorrupt ''memory dimension''))) (\<lambda>_.
     parse_bind cursor_byte (\<lambda>a.
     parse_bind (if a \<noteq> char_of (1 :: nat) then parse_lift (Inl (FeCorrupt ''memory encoding or metric''))
                 else parse_bind cursor_byte (\<lambda>b.
                   parse_lift (ensure (b = char_of (1 :: nat)) (FeCorrupt ''memory encoding or metric'')))) (\<lambda>_.
     parse_bind (bounded_blob 1 256) (\<lambda>p.
     parse_bind (bounded_blob 1 256) (\<lambda>m.
     parse_bind (bounded_blob 1 256) (\<lambda>r.
     parse_bind (bounded_blob 1 256) (\<lambda>t.
       parse_return \<lparr>dimension = dim, provider = p, model = m, revision = r, transform = t\<rparr>))))))))))"

definition bounded_count :: "nat \<Rightarrow> nat \<Rightarrow> nat parser" where
  "bounded_count maximum minimum_encoded_size =
     parse_bind cursor_u32 (\<lambda>n c.
       if n > maximum \<or> n > cursor_rest c div minimum_encoded_size then Inl (FeCorrupt ''memory count'') else Inr (n, c))"

definition ordered :: "bytes option \<Rightarrow> bytes \<Rightarrow> format_error + bytes option" where
  "ordered previous v =
     (if (case previous of None \<Rightarrow> False | Some p \<Rightarrow> p \<ge> v) then Inl (FeCorrupt ''memory order or duplicate'')
      else Inr (Some v))"

definition cursor_scalar :: "scalar parser" where
  "cursor_scalar =
     parse_bind cursor_byte (\<lambda>tag.
       if tag = char_of (1 :: nat) then parse_bind (bounded_blob 0 4096) (\<lambda>v. parse_return (SBytes v))
       else if tag = char_of (2 :: nat) then parse_bind cursor_i64 (\<lambda>i. parse_return (SInteger i))
       else if tag = char_of (3 :: nat) then
         parse_bind cursor_byte (\<lambda>b.
           parse_lift (if b = char_of (0 :: nat) then Inr (SBool False)
                       else if b = char_of (1 :: nat) then Inr (SBool True)
                       else Inl (FeCorrupt ''memory bool'')))
       else parse_lift (Inl (FeCorrupt ''memory scalar'')))"

definition metadata_step ::
  "bytes option \<times> (bytes, scalar) btree_map \<Rightarrow> (bytes option \<times> (bytes, scalar) btree_map) parser" where
  "metadata_step = (\<lambda>(previous, acc).
     parse_bind (bounded_blob 1 64) (\<lambda>field.
     parse_bind (parse_lift (ordered previous field)) (\<lambda>previous.
     parse_bind cursor_scalar (\<lambda>scalar. parse_return (previous, bm_insert field scalar acc)))))"

definition provenance_step ::
  "bytes option \<times> (bytes, bytes) btree_map \<Rightarrow> (bytes option \<times> (bytes, bytes) btree_map) parser" where
  "provenance_step = (\<lambda>(previous, acc).
     parse_bind (bounded_blob 1 64) (\<lambda>field.
     parse_bind (parse_lift (ordered previous field)) (\<lambda>previous.
     parse_bind (bounded_blob 0 4096) (\<lambda>v. parse_return (previous, bm_insert field v acc)))))"

definition cursor_member :: "descriptor \<Rightarrow> member parser" where
  "cursor_member d =
     parse_bind (bounded_blob 1 256) (\<lambda>ident.
     parse_bind (bounded_blob 0 256) (\<lambda>namespace.
     parse_bind (bounded_blob 0 65536) (\<lambda>content.
     parse_bind cursor_u32 (\<lambda>dim.
     parse_bind (parse_lift (ensure (dim = dimension d) (FeCorrupt ''memory vector dimension''))) (\<lambda>_.
     parse_bind (cursor_take (dimension d * 4)) (\<lambda>vector.
     parse_bind (bounded_deadline True) (\<lambda>deadline.
     parse_bind (bounded_count 32 6) (\<lambda>n.
     parse_bind (read_loop n metadata_step (None, [])) (\<lambda>(_, metadata).
     parse_bind (bounded_count 16 9) (\<lambda>n.
     parse_bind (read_loop n provenance_step (None, [])) (\<lambda>(_, provenance).
       let m = \<lparr>mem_id = ident, mem_namespace = namespace, mem_content = content, mem_vector = vector,
                mem_deadline = deadline, mem_metadata = metadata, mem_provenance = provenance\<rparr>
       in parse_bind (parse_lift (map_err (\<lambda>_. FeCorrupt ''memory member'') (validate_member m d))) (\<lambda>_.
            parse_return m))))))))))))"

definition member_step :: "descriptor \<Rightarrow> bytes option \<times> member list \<Rightarrow> (bytes option \<times> member list) parser" where
  "member_step d = (\<lambda>(previous, acc).
     parse_bind (cursor_member d) (\<lambda>m.
     parse_bind (parse_lift (ordered previous (mem_id m))) (\<lambda>previous. parse_return (previous, acc @ [m]))))"

definition cursor_edit :: "descriptor \<Rightarrow> edit parser" where
  "cursor_edit d =
     parse_bind cursor_byte (\<lambda>b.
       if b = char_of (1 :: nat) then parse_bind (cursor_member d) (\<lambda>m. parse_return (Upsert m))
       else if b = char_of (2 :: nat) then parse_bind (bounded_blob 1 256) (\<lambda>ident. parse_return (Remove ident))
       else parse_lift (Inl (FeCorrupt ''memory edit'')))"

definition edit_step :: "descriptor \<Rightarrow> bytes option \<times> edit list \<Rightarrow> (bytes option \<times> edit list) parser" where
  "edit_step d = (\<lambda>(previous, acc).
     parse_bind (cursor_edit d) (\<lambda>e.
     parse_bind (parse_lift (ordered previous (edit_id e))) (\<lambda>previous. parse_return (previous, acc @ [e]))))"

definition cursor_image :: "bytes \<Rightarrow> descriptor \<Rightarrow> mem_mutation parser" where
  "cursor_image key d =
     parse_bind (bounded_count MAX_MEMBERS 38) (\<lambda>n.
     parse_bind (parse_lift (ensure (case checked_mul n (dimension d) of None \<Rightarrow> False | Some work \<Rightarrow> work \<le> MAX_COMPONENTS)
       (FeCorrupt ''memory component quota''))) (\<lambda>_.
     parse_bind (read_loop n (member_step d) (None, [])) (\<lambda>(_, ms).
     parse_bind (bounded_deadline False) (\<lambda>deadline.
     parse_bind (parse_lift (map_err (\<lambda>_. FeCorrupt ''memory image quota'') (from_members d ms key))) (\<lambda>c.
       parse_return (Image key c deadline))))))"

definition cursor_delta :: "bytes \<Rightarrow> descriptor \<Rightarrow> mem_mutation parser" where
  "cursor_delta key d =
     parse_bind (bounded_count MAX_EDITS 6) (\<lambda>n.
     parse_bind (read_loop n (edit_step d) (None, [])) (\<lambda>(_, es).
     parse_bind (bounded_deadline False) (\<lambda>deadline. parse_return (Delta key d es deadline))))"

text \<open>A legacy tag is decoded by the cursor of record version 1, from the tag on.\<close>

definition mem_cursor_mutation :: "mem_mutation parser" where
  "mem_cursor_mutation start =
     parse_bind cursor_byte (\<lambda>b.
       let tag = of_char b :: nat
       in if 1 \<le> tag \<and> tag \<le> 6 then
            (\<lambda>_. parse_bind cursor_mutation (\<lambda>mu. parse_return (Legacy mu)) start)
          else if tag \<noteq> 7 \<and> tag \<noteq> 8 then parse_lift (Inl (FeCorrupt ''mutation type''))
          else parse_bind (bounded_blob 1 256) (\<lambda>key.
               parse_bind cursor_descriptor (\<lambda>d.
                 if tag = 7 then cursor_image key d else cursor_delta key d))) start"

definition mem_batch_step ::
  "bytes btree_set \<times> mem_mutation list \<Rightarrow> (bytes btree_set \<times> mem_mutation list) parser" where
  "mem_batch_step = (\<lambda>(keys, acc).
     parse_bind mem_cursor_mutation (\<lambda>mu.
     parse_bind (parse_lift (ensure (mem_key mu \<notin> set keys) (FeCorrupt ''duplicate batch key''))) (\<lambda>_.
       parse_return (bs_insert (mem_key mu) keys, acc @ [mu]))))"

definition mem_cursor_batch :: "aof_limits \<Rightarrow> mem_record parser" where
  "mem_cursor_batch limits =
     parse_bind cursor_u64 (\<lambda>sequence.
     parse_bind cursor_byte (\<lambda>b.
     parse_bind (parse_lift (if b = char_of (1 :: nat) then Inr Client
                             else if b = char_of (2 :: nat) then Inr Expiration
                             else Inl (FeCorrupt ''source''))) (\<lambda>origin.
     parse_bind (bounded_count (max_mutations limits) 5) (\<lambda>n.
     parse_bind (parse_lift (ensure (n \<noteq> 0) FeLimit)) (\<lambda>_.
     parse_bind (read_loop n mem_batch_step ([], [])) (\<lambda>(_, ms). parse_return (MemBatch sequence origin ms)))))))"

fun is_delta :: "mem_mutation \<Rightarrow> bool" where
  "is_delta (Delta _ _ _ _) = True"
| "is_delta _ = False"

definition mem_cursor_record :: "aof_limits \<Rightarrow> mem_record parser" where
  "mem_cursor_record limits =
     parse_bind cursor_byte (\<lambda>b.
       if b = char_of (1 :: nat) then
         parse_bind mem_cursor_mutation (\<lambda>mu.
         parse_bind (parse_lift (ensure (\<not> is_delta mu) (FeCorrupt ''delta snapshot''))) (\<lambda>_. parse_return (MemSnapshot mu)))
       else if b = char_of (2 :: nat) then
         parse_bind cursor_u64 (\<lambda>sequence. parse_bind cursor_u64 (\<lambda>entries. parse_bind cursor_u32 (\<lambda>digest.
           parse_return (MemSeal sequence entries (of_nat digest)))))
       else if b = char_of (3 :: nat) then mem_cursor_batch limits
       else parse_lift (Inl (FeCorrupt ''record type'')))"

definition mem_decode_record :: "bytes \<Rightarrow> aof_limits \<Rightarrow> format_error + mem_record" where
  "mem_decode_record body limits =
     res_bind (mem_cursor_record limits \<lparr>cur_bytes = body, cur_offset = 0\<rparr>) (\<lambda>(r, c).
       res_bind (ensure (cur_offset c = length (cur_bytes c)) (FeCorrupt ''bytes extras'')) (\<lambda>_. Inr r))"

definition mem_read_record :: "aof_limits \<Rightarrow> input \<Rightarrow> format_error + mem_next \<times> input" where
  "mem_read_record limits =
     read_framed MemEnd MemIncomplete (\<lambda>body. res_bind (mem_decode_record body limits) (\<lambda>r. Inr (MemRecord r))) limits"

end
