(* ===== verification/Memory_Format_Correct.thy ===== *)
theory Memory_Format_Correct
  imports Memory_Format Aof_Correct Memory_Correct
begin

text \<open>
  Records of version 2 read back as they were written: descriptors, members, edits,
  images and deltas, through the same cursor and framing as version 1.
\<close>

section \<open>What is valid on the wire\<close>

fun scalar_wire :: "scalar \<Rightarrow> bool" where
  "scalar_wire (SInteger i) = i64_ok i"
| "scalar_wire _ = True"

abbreviation deadline_wire :: "int option \<Rightarrow> bool" where
  "deadline_wire d \<equiv> (case d of None \<Rightarrow> True | Some d \<Rightarrow> i64_ok d)"

definition member_wire :: "descriptor \<Rightarrow> member \<Rightarrow> bool" where
  "member_wire d m \<longleftrightarrow> validate_member m d = Inr () \<and> bm_ok (mem_metadata m) \<and> bm_ok (mem_provenance m)
     \<and> (\<forall>(field, s) \<in> set (mem_metadata m). scalar_wire s) \<and> deadline_wire (mem_deadline m)"

fun edit_wire :: "descriptor \<Rightarrow> edit \<Rightarrow> bool" where
  "edit_wire d (Upsert m) = member_wire d m"
| "edit_wire d (Remove _) = True"

fun mem_wire :: "mem_mutation \<Rightarrow> bool" where
  "mem_wire (Legacy mu) = mutation_wire mu"
| "mem_wire (Image _ c d) =
     (collection_ok c \<and> (\<forall>(k, m) \<in> set (coll_members c). member_wire (coll_descriptor c) m) \<and> deadline_wire d)"
| "mem_wire (Delta _ schema es d) = ((\<forall>e \<in> set es. edit_wire schema e) \<and> deadline_wire d)"

lemma descriptor_bounds:
  "validate_descriptor d = Inr () \<Longrightarrow> 1 \<le> dimension d \<and> dimension d \<le> 4096
    \<and> (\<forall>v\<in>{provider d, model d, revision d, transform d}. 1 \<le> length v \<and> length v \<le> 256)"
  by (auto simp: validate_descriptor_def bounded_def result_simps MAX_DIMENSION_def)

lemma metadata_bounds:
  "metadata_bytes ms acc = Inr n \<Longrightarrow>
     \<forall>(f, s)\<in>set ms. 1 \<le> length f \<and> length f \<le> 64 \<and> (case s of SBytes v \<Rightarrow> length v \<le> 4096 | _ \<Rightarrow> True)"
proof (induction ms arbitrary: acc)
  case (Cons fs ms)
  obtain f s where fs: "fs = (f, s)" by (cases fs)
  with Cons show ?case by (cases s) (fastforce simp: bounded_def result_simps)+
qed simp

lemma provenance_bounds:
  "provenance_bytes ps acc = Inr n \<Longrightarrow> \<forall>(f, v)\<in>set ps. 1 \<le> length f \<and> length f \<le> 64 \<and> length v \<le> 4096"
proof (induction ps arbitrary: acc)
  case (Cons fv ps)
  obtain f v where fv: "fv = (f, v)" by (cases fv)
  with Cons show ?case by (fastforce simp: bounded_def result_simps)
qed simp

lemma member_bounds:
  assumes "validate_member m d = Inr ()"
  shows "1 \<le> length (mem_id m) \<and> length (mem_id m) \<le> 256" "length (mem_namespace m) \<le> 256"
    "length (mem_content m) \<le> 65536" "length (mem_vector m) = dimension d * 4" "1 \<le> dimension d \<and> dimension d \<le> 4096"
    "length (mem_metadata m) \<le> 32" "length (mem_provenance m) \<le> 16"
    "\<forall>(f, s)\<in>set (mem_metadata m). 1 \<le> length f \<and> length f \<le> 64 \<and> (case s of SBytes v \<Rightarrow> length v \<le> 4096 | _ \<Rightarrow> True)"
    "\<forall>(f, v)\<in>set (mem_provenance m). 1 \<le> length f \<and> length f \<le> 64 \<and> length v \<le> 4096"
    "\<And>x. mem_deadline m = Some x \<Longrightarrow> 0 < x"
proof -
  obtain a b where ab: "metadata_bytes (mem_metadata m) 0 = Inr a" "provenance_bytes (mem_provenance m) a = Inr b"
    "validate_descriptor d = Inr ()"
    using assms by (auto simp: validate_member_def result_simps)
  show "1 \<le> length (mem_id m) \<and> length (mem_id m) \<le> 256" "length (mem_namespace m) \<le> 256"
    "length (mem_content m) \<le> 65536" "length (mem_vector m) = dimension d * 4"
    "length (mem_metadata m) \<le> 32" "length (mem_provenance m) \<le> 16" "\<And>x. mem_deadline m = Some x \<Longrightarrow> 0 < x"
    using assms by (auto simp: validate_member_def bounded_def result_simps split: option.splits)
  show "1 \<le> dimension d \<and> dimension d \<le> 4096" using descriptor_bounds [OF ab(3)] by simp
  show "\<forall>(f, s)\<in>set (mem_metadata m). 1 \<le> length f \<and> length f \<le> 64 \<and> (case s of SBytes v \<Rightarrow> length v \<le> 4096 | _ \<Rightarrow> True)"
    by (rule metadata_bounds [OF ab(1)])
  show "\<forall>(f, v)\<in>set (mem_provenance m). 1 \<le> length f \<and> length f \<le> 64 \<and> length v \<le> 4096"
    by (rule provenance_bounds [OF ab(2)])
qed

section \<open>Sizes\<close>

lemma length_encode_scalar: "length (encode_scalar s) = scalar_encoded_bytes s"
  by (cases s) simp_all

lemma length_concat_map: "length (concat (map f xs)) = sum_list (map (\<lambda>x. length (f x)) xs)"
  by (simp add: length_concat comp_def)

lemma length_encode_member: "length (encode_member dim m) = member_encoded_bytes m"
proof -
  have "(\<lambda>x. length (encode_metadata_field x)) = (\<lambda>(f, s). 4 + length f + scalar_encoded_bytes s)"
    "(\<lambda>x. length (encode_field x)) = (\<lambda>(f, v). 8 + length f + length v)"
    by (auto simp: encode_metadata_field_def encode_field_def length_encode_scalar)
  then show ?thesis by (simp add: encode_member_def member_encoded_bytes_def length_concat_map)
qed

lemma length_encode_edit: "length (encode_edit dim e) = edit_encoded_bytes e"
  by (cases e) (simp_all add: length_encode_member)

lemma length_encode_descriptor: "length (encode_descriptor d) = descriptor_encoded_bytes d"
  by (simp add: encode_descriptor_def descriptor_encoded_bytes_def)

section \<open>Decoders\<close>

lemma bounded_blob_at:
  assumes "at (encode_blob v @ w) c" "lo \<le> length v" "length v \<le> hi" "hi < 4294967296"
  shows "bounded_blob lo hi c = Inr (v, advance (length v + 4) c)"
proof -
  have a: "at (u32_to_le (length v) @ v @ w) c" using assms(1) by (simp add: encode_blob_def)
  have "cursor_take (length v) (advance 4 c) = Inr (v, advance (length v) (advance 4 c))"
    using cursor_take_at [OF at_advance [OF a, of 4]] by simp
  then show ?thesis using cursor_u32_at [OF a] assms(2-4)
    by (simp add: bounded_blob_def parse_bind_def add.commute)
qed

lemma bounded_deadline_at:
  assumes "at (encode_deadline d @ w) c" "deadline_wire d" "member \<Longrightarrow> (case d of None \<Rightarrow> True | Some x \<Rightarrow> 0 < x)"
  shows "bounded_deadline member c = Inr (d, advance 9 c)"
proof -
  let ?i = "case d of None \<Rightarrow> 0 | Some d \<Rightarrow> d"
  have ok: "i64_ok ?i" using assms(2) by (cases d) (auto simp: i64_ok_def I64_MIN_def I64_MAX_def)
  have a: "at (char_of (of_bool (d \<noteq> None) :: nat) # i64_to_le ?i @ w) c" using assms(1) by (simp add: encode_deadline_def)
  from cursor_i64_at [OF at_byte [OF a] ok] cursor_byte_at [OF a] assms(3) show ?thesis
    by (cases d) (auto simp: bounded_deadline_def parse_bind_def parse_lift_def)
qed

lemma bounded_count_at:
  assumes "at (u32_to_le n @ w) c" "n \<le> hi" "hi < 4294967296" "0 < u" "n * u \<le> length w"
  shows "bounded_count hi u c = Inr (n, advance 4 c)"
proof -
  have "at w (advance 4 c)" using at_advance [OF assms(1)] by simp
  then have "cursor_rest (advance 4 c) = length w" by (rule cursor_rest_at)
  moreover have "n \<le> length w div u" using assms(4,5) by (simp add: less_eq_div_iff_mult_less_eq)
  ultimately show ?thesis
    using cursor_u32_at [OF assms(1)] assms(2,3) by (simp add: bounded_count_def parse_bind_def)
qed

lemma cursor_descriptor_at:
  assumes "at (encode_descriptor d @ w) c" "validate_descriptor d = Inr ()"
  shows "cursor_descriptor c = Inr (d, advance (descriptor_encoded_bytes d) c)"
proof -
  note bd = descriptor_bounds [OF assms(2)]
  have a0: "at (u32_to_le 1 @ u32_to_le (dimension d) @ char_of (1 :: nat) # char_of (1 :: nat) # encode_blob (provider d)
      @ encode_blob (model d) @ encode_blob (revision d) @ encode_blob (transform d) @ w) c"
    using assms(1) by (simp add: encode_descriptor_def)
  note a1 = at_advance [OF a0 length_le_bytes]
  note a2 = at_advance [OF a1 length_le_bytes]
  note a3 = at_byte [OF a2]
  note a4 = at_byte [OF a3]
  note a5 = at_advance [OF a4 length_encode_blob]
  note a6 = at_advance [OF a5 length_encode_blob]
  note a7 = at_advance [OF a6 length_encode_blob]
  show ?thesis
    using cursor_u32_at [OF a0] cursor_u32_at [OF a1] cursor_byte_at [OF a2] cursor_byte_at [OF a3] bd
      bounded_blob_at [OF a4, of 1 256] bounded_blob_at [OF a5, of 1 256] bounded_blob_at [OF a6, of 1 256]
      bounded_blob_at [OF a7, of 1 256]
    by (simp add: cursor_descriptor_def parse_bind_def parse_lift_def parse_return_def descriptor_encoded_bytes_def algebra_simps)
qed

subsection \<open>Ordered loops\<close>

definition progress :: "('a \<Rightarrow> bytes) \<Rightarrow> 'a list \<Rightarrow> bytes option \<times> 'a list \<Rightarrow> 'a list \<Rightarrow> bool" where
  "progress key full s rest \<longleftrightarrow> snd s @ rest = full
     \<and> fst s = (if snd s = [] then None else Some (key (last (snd s)))) \<and> sorted_wrt (<) (map key full)"

lemma progress_start: "sorted_wrt (<) (map key full) \<Longrightarrow> progress key full (None, []) full"
  by (simp add: progress_def)

lemma progress_end: "progress key full s [] \<Longrightarrow> snd s = full"
  by (simp add: progress_def)

lemma progress_next:
  assumes "progress key full (prev, acc) (x # xs)"
  shows "ordered prev (key x) = Inr (Some (key x))" "progress key full (Some (key x), acc @ [x]) xs"
    "\<forall>y\<in>set acc. key y < key x"
proof -
  have p: "acc @ x # xs = full" "prev = (if acc = [] then None else Some (key (last acc)))" "sorted_wrt (<) (map key full)"
    using assms by (auto simp: progress_def)
  show lt: "\<forall>y\<in>set acc. key y < key x" using p(3) by (auto simp: p(1) [symmetric] sorted_wrt_append)
  then show "ordered prev (key x) = Inr (Some (key x))"
    using p(2) by (auto simp: ordered_def dest: leD)
  show "progress key full (Some (key x), acc @ [x]) xs" using p by (simp add: progress_def)
qed

text \<open>A loop whose step adds the next item of an ordered list.\<close>

lemma ordered_loop_at:
  assumes step: "\<And>prev acc x xs w c. progress key full (prev, acc) (x # xs) \<Longrightarrow> at (enc x @ w) c \<Longrightarrow>
      step (prev, acc) c = Inr ((Some (key x), acc @ [x]), advance (length (enc x)) c)"
    and "at (concat (map enc full) @ w) c" "sorted_wrt (<) (map key full)"
  shows "\<exists>p. read_loop (length full) step (None, []) c = Inr ((p, full), advance (length (concat (map enc full))) c)"
proof -
  have "\<exists>s'. read_loop (length full) step (None, []) c = Inr (s', advance (length (concat (map enc full))) c)
      \<and> progress key full s' []"
  proof (rule read_loop_at [where R = "progress key full", OF _ progress_start [OF assms(3)] assms(2)])
    fix s x xs w c
    assume R: "progress key full s (x # xs)" and a: "at (enc x @ w) c"
    obtain prev acc where s: "s = (prev, acc)" by (cases s)
    show "\<exists>s'. step s c = Inr (s', advance (length (enc x)) c) \<and> progress key full s' xs"
      using step [OF R [unfolded s] a] progress_next(2) [OF R [unfolded s]] by (simp add: s)
  qed
  then obtain s' where s': "read_loop (length full) step (None, []) c = Inr (s', advance (length (concat (map enc full))) c)"
    "progress key full s' []" by blast
  with progress_end [OF s'(2)] show ?thesis by (cases s') auto
qed

lemma bm_insert_last: "\<forall>y\<in>set m. fst y < k \<Longrightarrow> bm_insert k v m = m @ [(k, v)]"
  by (induction k v m rule: bm_insert.induct) (auto dest: less_asym)

lemma sorted_keys: "bm_ok m \<Longrightarrow> sorted_wrt (<) (map fst m)"
  by (simp add: bm_ok_def)

lemma cursor_scalar_at:
  assumes "at (encode_scalar s @ w) c" "scalar_wire s" "case s of SBytes v \<Rightarrow> length v \<le> 4096 | _ \<Rightarrow> True"
  shows "cursor_scalar c = Inr (s, advance (scalar_encoded_bytes s) c)"
proof (cases s)
  case (SBytes v)
  have a: "at (char_of (1 :: nat) # encode_blob v @ w) c" using assms(1) SBytes by simp
  from cursor_byte_at [OF a] bounded_blob_at [OF at_byte [OF a], of 0 4096] assms(3) show ?thesis
    by (simp add: SBytes cursor_scalar_def parse_bind_def parse_return_def algebra_simps)
next
  case (SInteger i)
  have a: "at (char_of (2 :: nat) # i64_to_le i @ w) c" using assms(1) SInteger by simp
  from cursor_byte_at [OF a] cursor_i64_at [OF at_byte [OF a]] assms(2) show ?thesis
    by (simp add: SInteger cursor_scalar_def parse_bind_def parse_return_def)
next
  case (SBool b)
  have a: "at (char_of (3 :: nat) # char_of (of_bool b :: nat) # w) c" using assms(1) SBool by simp
  from cursor_byte_at [OF a] cursor_byte_at [OF at_byte [OF a]] show ?thesis
    by (cases b) (simp_all add: SBool cursor_scalar_def parse_bind_def parse_lift_def numeral_2_eq_2)
qed

lemma metadata_loop_at:
  assumes "at (concat (map encode_metadata_field ms) @ w) c" "bm_ok ms"
    "\<forall>(f, s)\<in>set ms. scalar_wire s \<and> 1 \<le> length f \<and> length f \<le> 64 \<and> (case s of SBytes v \<Rightarrow> length v \<le> 4096 | _ \<Rightarrow> True)"
  shows "\<exists>p. read_loop (length ms) metadata_step (None, []) c
    = Inr ((p, ms), advance (length (concat (map encode_metadata_field ms))) c)"
proof (rule ordered_loop_at [OF _ assms(1) sorted_keys [OF assms(2)]])
  fix prev acc x xs w c
  assume R: "progress fst ms (prev, acc) (x # xs)" and a: "at (encode_metadata_field x @ w) c"
  obtain f sc where s: "x = (f, sc)" by (cases x)
  have x: "scalar_wire sc" "1 \<le> length f" "length f \<le> 64" "case sc of SBytes v \<Rightarrow> length v \<le> 4096 | _ \<Rightarrow> True"
    using assms(3) R by (auto simp: progress_def s)
  have a: "at (encode_blob f @ encode_scalar sc @ w) c" using a by (simp add: s encode_metadata_field_def)
  note p = progress_next [OF R]
  have "bm_insert f sc acc = acc @ [(f, sc)]" using p(3) by (intro bm_insert_last) (simp add: s)
  then show "metadata_step (prev, acc) c = Inr ((Some (fst x), acc @ [x]), advance (length (encode_metadata_field x)) c)"
    using bounded_blob_at [OF a x(2,3)] cursor_scalar_at [OF at_advance [OF a length_encode_blob] x(1,4)] p(1)
    by (simp add: s metadata_step_def parse_bind_def parse_lift_def parse_return_def encode_metadata_field_def
        length_encode_scalar algebra_simps)
qed

lemma provenance_loop_at:
  assumes "at (concat (map encode_field ps) @ w) c" "bm_ok ps"
    "\<forall>(f, v)\<in>set ps. 1 \<le> length f \<and> length f \<le> 64 \<and> length v \<le> 4096"
  shows "\<exists>p. read_loop (length ps) provenance_step (None, []) c = Inr ((p, ps), advance (length (concat (map encode_field ps))) c)"
proof (rule ordered_loop_at [OF _ assms(1) sorted_keys [OF assms(2)]])
  fix prev acc x xs w c
  assume R: "progress fst ps (prev, acc) (x # xs)" and a: "at (encode_field x @ w) c"
  obtain f v where s: "x = (f, v)" by (cases x)
  have x: "1 \<le> length f" "length f \<le> 64" "length v \<le> 4096" using assms(3) R by (auto simp: progress_def s)
  have a: "at (encode_blob f @ encode_blob v @ w) c" using a by (simp add: s encode_field_def)
  note p = progress_next [OF R]
  have "bm_insert f v acc = acc @ [(f, v)]" using p(3) by (intro bm_insert_last) (simp add: s)
  then show "provenance_step (prev, acc) c = Inr ((Some (fst x), acc @ [x]), advance (length (encode_field x)) c)"
    using bounded_blob_at [OF a x(1,2)] bounded_blob_at [OF at_advance [OF a length_encode_blob], of 0 4096] x(3) p(1)
    by (simp add: s provenance_step_def parse_bind_def parse_lift_def parse_return_def encode_field_def algebra_simps)
qed

subsection \<open>Members and mutations\<close>

lemma field_sizes:
  assumes "\<forall>(f, s)\<in>set ms. 1 \<le> length f"
  shows "length ms * 6 \<le> length (concat (map encode_metadata_field ms))"
proof (rule concat_length_ge)
  fix x
  assume "x \<in> set ms"
  obtain f s where x: "x = (f, s)" by (cases x)
  with \<open>x \<in> set ms\<close> assms have "1 \<le> length f" by auto
  then show "6 \<le> length (encode_metadata_field x)"
    by (cases s) (simp_all add: x encode_metadata_field_def)
qed

lemma member_eta:
  "\<lparr>mem_id = mem_id m, mem_namespace = mem_namespace m, mem_content = mem_content m, mem_vector = mem_vector m,
    mem_deadline = mem_deadline m, mem_metadata = mem_metadata m, mem_provenance = mem_provenance m\<rparr> = m"
  by (cases m) simp

lemma cursor_member_at:
  assumes "at (encode_member (dimension d) m @ w) c" "member_wire d m"
  shows "cursor_member d c = Inr (m, advance (member_encoded_bytes m) c)"
proof -
  have v: "validate_member m d = Inr ()" and ok: "bm_ok (mem_metadata m)" "bm_ok (mem_provenance m)"
    and sc: "\<forall>(f, s) \<in> set (mem_metadata m). scalar_wire s" and dl: "deadline_wire (mem_deadline m)"
    using assms(2) by (auto simp: member_wire_def)
  note b = member_bounds [OF v]
  let ?md = "concat (map encode_metadata_field (mem_metadata m))" and ?pv = "concat (map encode_field (mem_provenance m))"
  have a0: "at (encode_blob (mem_id m) @ encode_blob (mem_namespace m) @ encode_blob (mem_content m)
      @ u32_to_le (dimension d) @ mem_vector m @ encode_deadline (mem_deadline m)
      @ u32_to_le (length (mem_metadata m)) @ ?md @ u32_to_le (length (mem_provenance m)) @ ?pv @ w) c"
    using assms(1) by (simp add: encode_member_def)
  define c1 where "c1 = advance (length (mem_id m) + 4) c"
  define c2 where "c2 = advance (length (mem_namespace m) + 4) c1"
  define c3 where "c3 = advance (length (mem_content m) + 4) c2"
  define c4 where "c4 = advance 4 c3"
  define c5 where "c5 = advance (dimension d * 4) c4"
  define c6 where "c6 = advance 9 c5"
  define c7 where "c7 = advance 4 c6"
  define c8 where "c8 = advance (length ?md) c7"
  define c9 where "c9 = advance 4 c8"
  note a1 = at_advance [OF a0 length_encode_blob, folded c1_def]
  note a2 = at_advance [OF a1 length_encode_blob, folded c2_def]
  note a3 = at_advance [OF a2 length_encode_blob, folded c3_def]
  note a4 = at_advance [OF a3 length_le_bytes, folded c4_def]
  note a5 = at_advance [OF a4 b(4), folded c5_def]
  note a6 = at_advance [OF a5 length_encode_deadline, folded c6_def]
  note a7 = at_advance [OF a6 length_le_bytes, folded c7_def]
  note a8 = at_advance [OF a7 refl, folded c8_def]
  note a9 = at_advance [OF a8 length_le_bytes, folded c9_def]
  have "length (mem_metadata m) * 6 \<le> length ?md" by (rule field_sizes) (use b(8) in auto)
  then have n1: "length (mem_metadata m) * 6 \<le> length (?md @ u32_to_le (length (mem_provenance m)) @ ?pv @ w)"
    by (simp only: length_append)
  have "length (mem_provenance m) * 9 \<le> length ?pv"
    by (rule concat_length_ge) (use b(9) in \<open>force simp: encode_field_def\<close>)
  then have n2: "length (mem_provenance m) * 9 \<le> length (?pv @ w)" by (simp only: length_append)
  have md: "\<forall>(f, s)\<in>set (mem_metadata m). scalar_wire s \<and> 1 \<le> length f \<and> length f \<le> 64 \<and> (case s of SBytes v \<Rightarrow> length v \<le> 4096 | _ \<Rightarrow> True)"
    using b(8) sc by auto
  obtain p1 where r1: "read_loop (length (mem_metadata m)) metadata_step (None, []) c7 = Inr ((p1, mem_metadata m), c8)"
    using metadata_loop_at [OF a7 ok(1) md] unfolding c8_def by blast
  obtain p2 where r2: "read_loop (length (mem_provenance m)) provenance_step (None, []) c9 = Inr ((p2, mem_provenance m), advance (length ?pv) c9)"
    using provenance_loop_at [OF a9 ok(2) b(9)] by blast
  have dm: "case mem_deadline m of None \<Rightarrow> True | Some x \<Rightarrow> 0 < x" using b(10) by (cases "mem_deadline m") auto
  note parses = bounded_blob_at [OF a0, of 1 256, folded c1_def] bounded_blob_at [OF a1, of 0 256, folded c2_def]
    bounded_blob_at [OF a2, of 0 65536, folded c3_def] cursor_u32_at [OF a3, folded c4_def]
    cursor_take_at [OF a4 b(4), folded c5_def] bounded_deadline_at [OF a5 dl, of True, folded c6_def]
    bounded_count_at [OF a6 b(6) _ _ n1, folded c7_def] bounded_count_at [OF a8 b(7) _ _ n2, folded c9_def]
  have "advance (length ?pv) c9 = advance (length (encode_member (dimension d) m)) c"
    by (simp add: c1_def c2_def c3_def c4_def c5_def c6_def c7_def c8_def c9_def encode_member_def b(4) algebra_simps)
  then show ?thesis
    unfolding cursor_member_def
    using parses b(1-5) r1 r2 dm v
    by (simp add: parse_bind_def parse_lift_def parse_return_def Let_def member_eta length_encode_member)
qed

subsection \<open>Images and deltas\<close>

lemma member_loop_at:
  assumes "at (concat (map (encode_member (dimension d)) ms) @ w) c" "sorted_wrt (<) (map mem_id ms)" "\<forall>m\<in>set ms. member_wire d m"
  shows "\<exists>p. read_loop (length ms) (member_step d) (None, []) c
    = Inr ((p, ms), advance (length (concat (map (encode_member (dimension d)) ms))) c)"
proof (rule ordered_loop_at [OF _ assms(1,2)])
  fix prev acc m xs w c
  assume R: "progress mem_id ms (prev, acc) (m # xs)" and a: "at (encode_member (dimension d) m @ w) c"
  have "member_wire d m" using assms(3) R by (auto simp: progress_def)
  from cursor_member_at [OF a this] progress_next(1) [OF R]
  show "member_step d (prev, acc) c = Inr ((Some (mem_id m), acc @ [m]), advance (length (encode_member (dimension d) m)) c)"
    by (simp add: member_step_def parse_bind_def parse_lift_def parse_return_def length_encode_member)
qed

fun edit_sized :: "edit \<Rightarrow> bool" where
  "edit_sized (Upsert m) = True"
| "edit_sized (Remove ident) = (1 \<le> length ident \<and> length ident \<le> 256)"

lemma cursor_edit_at:
  assumes "at (encode_edit (dimension d) e @ w) c" "edit_wire d e" "edit_sized e"
  shows "cursor_edit d c = Inr (e, advance (edit_encoded_bytes e) c)"
proof (cases e)
  case (Upsert m)
  have a: "at (char_of (1 :: nat) # encode_member (dimension d) m @ w) c" using assms(1) Upsert by simp
  from cursor_byte_at [OF a] cursor_member_at [OF at_byte [OF a]] assms(2) show ?thesis
    by (simp add: Upsert cursor_edit_def parse_bind_def parse_return_def add.commute)
next
  case (Remove ident)
  have a: "at (char_of (2 :: nat) # encode_blob ident @ w) c" using assms(1) Remove by simp
  from cursor_byte_at [OF a] bounded_blob_at [OF at_byte [OF a], of 1 256] assms(3) show ?thesis
    by (simp add: Remove cursor_edit_def parse_bind_def parse_return_def algebra_simps)
qed

lemma edit_loop_at:
  assumes "at (concat (map (encode_edit (dimension d)) es) @ w) c" "sorted_wrt (<) (map edit_id es)"
    "\<forall>e\<in>set es. edit_wire d e \<and> edit_sized e"
  shows "\<exists>p. read_loop (length es) (edit_step d) (None, []) c
    = Inr ((p, es), advance (length (concat (map (encode_edit (dimension d)) es))) c)"
proof (rule ordered_loop_at [OF _ assms(1,2)])
  fix prev acc e xs w c
  assume R: "progress edit_id es (prev, acc) (e # xs)" and a: "at (encode_edit (dimension d) e @ w) c"
  have "edit_wire d e" "edit_sized e" using assms(3) R by (auto simp: progress_def)
  from cursor_edit_at [OF a this] progress_next(1) [OF R]
  show "edit_step d (prev, acc) c = Inr ((Some (edit_id e), acc @ [e]), advance (length (encode_edit (dimension d) e)) c)"
    by (simp add: edit_step_def parse_bind_def parse_lift_def parse_return_def length_encode_edit)
qed

text \<open>Validated edits come in ascending order, each identifier within its bounds.\<close>

lemma validate_edits_from_sorted:
  "validate_edits_from d prev es = Inr () \<Longrightarrow> sorted_wrt (<) (map edit_id es) \<and> (\<forall>e\<in>set es. edit_sized e)
    \<and> (\<forall>p. prev = Some p \<longrightarrow> (\<forall>e\<in>set es. p < edit_id e))"
proof (induction es arbitrary: prev)
  case (Cons e es)
  then have b: "1 \<le> length (edit_id e) \<and> length (edit_id e) \<le> 256" "\<And>p. prev = Some p \<Longrightarrow> p < edit_id e"
    and rec: "validate_edits_from d (Some (edit_id e)) es = Inr ()"
    by (auto simp: result_simps bounded_def not_le split: option.splits)
  have "edit_sized e" using b(1) by (cases e) auto
  with Cons.IH [OF rec] b(2) show ?case by (auto dest: less_trans)
qed simp

text \<open>A valid collection is rebuilt from its members.\<close>

lemma add_members_all:
  assumes "sorted_wrt (<) (map mem_id (ps @ ms))" "\<forall>m\<in>set ms. validate_member m (coll_descriptor c) = Inr ()"
    "previous = (if ps = [] then None else Some (mem_id (last ps)))" "coll_members c = map (\<lambda>m. (mem_id m, m)) ps"
    "coll_logical_bytes c + sum_list (map member_logical_bytes ms) \<le> USIZE_MAX"
    "coll_encoded_bytes c + sum_list (map member_encoded_bytes ms) \<le> USIZE_MAX"
  shows "add_members ms previous c = Inr (c\<lparr>coll_members := map (\<lambda>m. (mem_id m, m)) (ps @ ms),
    coll_logical_bytes := coll_logical_bytes c + sum_list (map member_logical_bytes ms),
    coll_encoded_bytes := coll_encoded_bytes c + sum_list (map member_encoded_bytes ms)\<rparr>)"
  using assms
proof (induction ms arbitrary: ps previous c)
  case (Cons m ms)
  have lt: "\<forall>p\<in>set ps. mem_id p < mem_id m" using Cons.prems(1) by (auto simp: sorted_wrt_append)
  let ?c = "c\<lparr>coll_logical_bytes := coll_logical_bytes c + member_logical_bytes m,
      coll_encoded_bytes := coll_encoded_bytes c + member_encoded_bytes m, coll_members := map (\<lambda>m. (mem_id m, m)) (ps @ [m])\<rparr>"
  have "bm_insert (mem_id m) m (coll_members c) = map (\<lambda>m. (mem_id m, m)) (ps @ [m])"
    using bm_insert_last [of "coll_members c" "mem_id m" m] lt by (auto simp: Cons.prems(4))
  then have "add_member m c = Inr ?c"
    using Cons.prems(5,6) by (simp add: add_member_def checked_add_def)
  moreover have "\<not> (case previous of None \<Rightarrow> False | Some ident \<Rightarrow> mem_id m \<le> ident)"
    using lt by (auto simp: Cons.prems(3) dest: leD)
  moreover have "add_members ms (Some (mem_id m)) ?c = Inr (?c\<lparr>coll_members := map (\<lambda>m. (mem_id m, m)) ((ps @ [m]) @ ms),
      coll_logical_bytes := coll_logical_bytes ?c + sum_list (map member_logical_bytes ms),
      coll_encoded_bytes := coll_encoded_bytes ?c + sum_list (map member_encoded_bytes ms)\<rparr>)"
    by (rule Cons.IH) (use Cons.prems in \<open>simp_all add: add.assoc\<close>)
  ultimately show ?case using Cons.prems(2) by (simp add: add.assoc)
qed simp

lemma from_members_inverse:
  assumes "collection_ok c" "validate_key c key = Inr ()"
  shows "from_members (coll_descriptor c) (map snd (coll_members c)) key = Inr c"
proof -
  let ?ms = "map snd (coll_members c)"
  have ok: "bm_ok (coll_members c)" "\<forall>(k, m) \<in> set (coll_members c). mem_id m = k \<and> validate_member m (coll_descriptor c) = Inr ()"
    using assms(1) by (auto simp: collection_ok_def members_ok_def)
  have ids: "map mem_id ?ms = map fst (coll_members c)" using ok(2) by auto
  have eq: "map (\<lambda>m. (mem_id m, m)) ?ms = coll_members c" using ok(2) by (auto intro!: map_idI)
  define c0 where "c0 = \<lparr>coll_descriptor = coll_descriptor c, coll_members = [],
    coll_logical_bytes = descriptor_logical_bytes (coll_descriptor c),
    coll_encoded_bytes = descriptor_encoded_bytes (coll_descriptor c) + 4\<rparr>"
  have c0: "collection_new (coll_descriptor c) = Inr c0" "coll_descriptor c0 = coll_descriptor c" "coll_members c0 = []"
    "coll_logical_bytes c0 = descriptor_logical_bytes (coll_descriptor c)" "coll_encoded_bytes c0 = descriptor_encoded_bytes (coll_descriptor c) + 4"
    using assms(1) by (simp_all add: collection_new_def collection_ok_def c0_def)
  have sums: "coll_logical_bytes c = coll_logical_bytes c0 + sum_list (map member_logical_bytes ?ms)" "coll_logical_bytes c \<le> USIZE_MAX"
    "coll_encoded_bytes c = coll_encoded_bytes c0 + sum_list (map member_encoded_bytes ?ms)" "coll_encoded_bytes c \<le> USIZE_MAX"
    using assms(1) by (simp_all add: collection_ok_def c0 o_def)
  have "add_members ?ms None c0 = Inr (c0\<lparr>coll_members := map (\<lambda>m. (mem_id m, m)) ([] @ ?ms),
    coll_logical_bytes := coll_logical_bytes c0 + sum_list (map member_logical_bytes ?ms),
    coll_encoded_bytes := coll_encoded_bytes c0 + sum_list (map member_encoded_bytes ?ms)\<rparr>)"
    by (rule add_members_all) (use sums ok sorted_keys [OF ok(1)] in \<open>auto simp: ids c0(2,3) simp del: map_map\<close>)
  also have "\<dots> = Inr c"
    unfolding sums(1,3) [symmetric] using eq by (simp add: c0_def)
  finally show ?thesis using c0(1) assms(2) by (simp add: from_members_def)
qed

lemma member_size_ge: "member_wire d m \<Longrightarrow> 38 \<le> length (encode_member (dimension d) m)"
  using member_bounds [of m d] by (auto simp: member_wire_def length_encode_member member_encoded_bytes_def)

lemma cursor_image_at:
  assumes "collection_ok coll" "validate_key coll key = Inr ()" "\<forall>(k, m) \<in> set (coll_members coll). member_wire (coll_descriptor coll) m"
    "deadline_wire dl"
    "at (u32_to_le (length (coll_members coll))
       @ concat (map (encode_member (dimension (coll_descriptor coll))) (map snd (coll_members coll))) @ encode_deadline dl @ w) c"
  shows "cursor_image key (coll_descriptor coll) c = Inr (Image key coll dl,
    advance (13 + sum_list (map (member_encoded_bytes \<circ> snd) (coll_members coll))) c)"
proof -
  let ?d = "coll_descriptor coll" and ?ms = "map snd (coll_members coll)"
  let ?b = "concat (map (encode_member (dimension (coll_descriptor coll))) (map snd (coll_members coll)))"
  define c1 where "c1 = advance 4 c"
  define c2 where "c2 = advance (length ?b) c1"
  note a1 = at_advance [OF assms(5) length_le_bytes, folded c1_def]
  note a2 = at_advance [OF a1 refl, folded c2_def]
  have quota: "length (coll_members coll) \<le> MAX_MEMBERS"
    "case checked_mul (length (coll_members coll)) (dimension ?d) of None \<Rightarrow> False | Some work \<Rightarrow> work \<le> MAX_COMPONENTS"
    using assms(2) by (auto simp: validate_key_def too_many_components_def result_simps split: option.splits)
  have wires: "\<forall>m\<in>set ?ms. member_wire ?d m" using assms(3) by auto
  have "length ?ms * 38 \<le> length ?b" by (rule concat_length_ge) (use wires member_size_ge in blast)
  then have n: "length (coll_members coll) * 38 \<le> length (?b @ encode_deadline dl @ w)"
    by (simp only: length_append length_map)
  have ids: "map mem_id ?ms = map fst (coll_members coll)"
    using assms(1) by (auto simp: collection_ok_def members_ok_def)
  have srt: "sorted_wrt (<) (map mem_id ?ms)"
    unfolding ids using assms(1) by (intro sorted_keys) (simp add: collection_ok_def members_ok_def)
  obtain p where r: "read_loop (length (coll_members coll)) (member_step ?d) (None, []) c1 = Inr ((p, ?ms), c2)"
    using member_loop_at [OF a1 srt wires] unfolding c2_def by (metis length_map)
  have "length ?b = sum_list (map (member_encoded_bytes \<circ> snd) (coll_members coll))"
    by (simp add: length_concat_map length_encode_member o_def)
  then have fin: "advance 9 c2 = advance (13 + sum_list (map (member_encoded_bytes \<circ> snd) (coll_members coll))) c"
    by (simp add: c1_def c2_def algebra_simps)
  show ?thesis
    using bounded_count_at [OF assms(5) quota(1) _ _ n, folded c1_def] quota(2) r bounded_deadline_at [OF a2 assms(4), of False]
      from_members_inverse [OF assms(1,2)] fin
    by (simp add: cursor_image_def parse_bind_def parse_lift_def parse_return_def MAX_MEMBERS_def)
qed

lemma edit_size_ge: "edit_wire d e \<Longrightarrow> edit_sized e \<Longrightarrow> 6 \<le> length (encode_edit (dimension d) e)"
  using member_size_ge by (cases e) force+

lemma cursor_delta_at:
  assumes "length es \<le> MAX_EDITS" "validate_edits d es = Inr ()" "\<forall>e \<in> set es. edit_wire d e" "deadline_wire dl"
    "at (u32_to_le (length es) @ concat (map (encode_edit (dimension d)) es) @ encode_deadline dl @ w) c"
  shows "cursor_delta key d c = Inr (Delta key d es dl, advance (13 + sum_list (map edit_encoded_bytes es)) c)"
proof -
  let ?b = "concat (map (encode_edit (dimension d)) es)"
  define c1 where "c1 = advance 4 c"
  define c2 where "c2 = advance (length ?b) c1"
  note a1 = at_advance [OF assms(5) length_le_bytes, folded c1_def]
  note a2 = at_advance [OF a1 refl, folded c2_def]
  have v: "sorted_wrt (<) (map edit_id es)" "\<forall>e\<in>set es. edit_sized e"
    using assms(2) validate_edits_from_sorted by (auto simp: validate_edits_def result_simps)
  have wires: "\<forall>e\<in>set es. edit_wire d e \<and> edit_sized e" using assms(3) v(2) by blast
  have "length es * 6 \<le> length ?b" by (rule concat_length_ge) (use wires edit_size_ge in blast)
  then have n: "length es * 6 \<le> length (?b @ encode_deadline dl @ w)" by (simp only: length_append)
  obtain p where r: "read_loop (length es) (edit_step d) (None, []) c1 = Inr ((p, es), c2)"
    using edit_loop_at [OF a1 v(1) wires] unfolding c2_def by blast
  have "length ?b = sum_list (map edit_encoded_bytes es)" by (simp add: length_concat_map length_encode_edit)
  then have fin: "advance 9 c2 = advance (13 + sum_list (map edit_encoded_bytes es)) c"
    by (simp add: c1_def c2_def algebra_simps)
  show ?thesis
    using bounded_count_at [OF assms(5,1) _ _ n, folded c1_def] r bounded_deadline_at [OF a2 assms(4), of False] fin
    by (simp add: cursor_delta_def parse_bind_def parse_return_def MAX_EDITS_def)
qed

lemma sum_edits: "sum_sizes add_edit es acc = Inr n \<Longrightarrow> n = acc + sum_list (map edit_encoded_bytes es)"
  by (induction es arbitrary: acc) (fastforce simp: result_simps checked_simps)+

abbreviation mem_bytes :: "mem_mutation \<Rightarrow> bytes" where
  "mem_bytes mu \<equiv> (case mem_encode_mutation mu of Inl _ \<Rightarrow> [] | Inr b \<Rightarrow> b)"

lemma mem_size_encoded:
  assumes "mem_encoded_bytes mu = Inr n" "mem_wire mu"
  shows "mem_encode_mutation mu = Inr (mem_bytes mu) \<and> length (mem_bytes mu) = n \<and> 5 \<le> n"
proof (cases mu)
  case (Legacy m)
  with assms mutation_size_encoded [of m n] encode_mutation_small [of m] show ?thesis by auto
next
  case (Image key c d)
  have "length (concat (map (encode_member (dimension (coll_descriptor c))) (map snd (coll_members c))))
      = sum_list (map (member_encoded_bytes \<circ> snd) (coll_members c))"
    by (simp add: length_concat_map length_encode_member o_def)
  with assms show ?thesis
    by (auto simp: Image result_simps length_encode_descriptor collection_ok_def simp del: map_map)
next
  case (Delta key d es dl)
  have "length (concat (map (encode_edit (dimension d)) es)) = sum_list (map edit_encoded_bytes es)"
    by (simp add: length_concat_map length_encode_edit)
  with assms sum_edits show ?thesis
    by (fastforce simp: Delta result_simps length_encode_descriptor)
qed

subsection \<open>Records\<close>

text \<open>The key and the schema in front of an image or a delta.\<close>

lemma tagged_at:
  assumes "at (char_of t # encode_blob key @ encode_descriptor d @ w) c" "t = 7 \<or> t = (8 :: nat)" "1 \<le> length key" "length key \<le> 256"
    "validate_descriptor d = Inr ()"
  shows "mem_cursor_mutation c = (if t = 7 then cursor_image key d else cursor_delta key d)
      (advance (5 + length key + descriptor_encoded_bytes d) c)"
    "at w (advance (5 + length key + descriptor_encoded_bytes d) c)"
proof -
  note a1 = at_byte [OF assms(1)]
  note a2 = at_advance [OF a1 length_encode_blob]
  show "mem_cursor_mutation c = (if t = 7 then cursor_image key d else cursor_delta key d)
      (advance (5 + length key + descriptor_encoded_bytes d) c)"
    using cursor_byte_at [OF assms(1)] bounded_blob_at [OF a1 assms(3,4)] cursor_descriptor_at [OF a2 assms(5)] assms(2)
    by (auto simp: mem_cursor_mutation_def parse_bind_def Let_def algebra_simps)
  show "at w (advance (5 + length key + descriptor_encoded_bytes d) c)"
    using at_advance [OF a2 length_encode_descriptor] by (simp add: algebra_simps)
qed

lemma legacy_tag: "encode_mutation m = Inr b \<Longrightarrow> mutation_small m \<Longrightarrow> \<exists>t b'. b = char_of t # b' \<and> 1 \<le> t \<and> t \<le> (6 :: nat)"
proof (cases m)
  case (Put key v d)
  assume "encode_mutation m = Inr b" "mutation_small m"
  then show ?thesis using mutation_tag_value [of key v d] value_tag_range [of v]
    by (force simp: Put encode_mutation_def result_simps)
qed (auto simp: encode_mutation_def)

lemma mem_cursor_mutation_at:
  assumes "mem_encoded_bytes mu = Inr n" "mem_wire mu" "at (mem_bytes mu @ w) c"
  shows "mem_cursor_mutation c = Inr (mu, advance (length (mem_bytes mu)) c)"
proof (cases mu)
  case (Legacy m)
  have sm: "mutation_small m" and enc: "encode_mutation m = Inr (mem_bytes mu)"
    using assms(1,2) mutation_size_encoded [of m n] mem_size_encoded [OF assms(1,2)] by (auto simp: Legacy)
  obtain t b where tb: "mem_bytes mu = char_of t # b" "1 \<le> t" "t \<le> (6 :: nat)" using legacy_tag [OF enc sm] by blast
  have "at (char_of t # b @ w) c" using assms(3) unfolding tb(1) by simp
  from cursor_byte_at [OF this] cursor_mutation_at [OF enc sm _ assms(3)] assms(2) tb(2,3) show ?thesis
    by (simp add: Legacy mem_cursor_mutation_def parse_bind_def parse_return_def Let_def)
next
  case (Image key coll dl)
  have v: "validate_key coll key = Inr ()" "1 \<le> length key" "length key \<le> 256" "validate_descriptor (coll_descriptor coll) = Inr ()"
    and wire: "collection_ok coll" "\<forall>(k, m) \<in> set (coll_members coll). member_wire (coll_descriptor coll) m" "deadline_wire dl"
    using assms(1,2) by (auto simp: Image result_simps validate_key_def bounded_def collection_ok_def)
  have a: "at (char_of (7 :: nat) # encode_blob key @ encode_descriptor (coll_descriptor coll) @ u32_to_le (length (coll_members coll))
      @ concat (map (encode_member (dimension (coll_descriptor coll))) (map snd (coll_members coll))) @ encode_deadline dl @ w) c"
    using assms(3) by (simp add: Image)
  have len: "length (mem_bytes mu) = 18 + length key + descriptor_encoded_bytes (coll_descriptor coll)
      + sum_list (map (member_encoded_bytes \<circ> snd) (coll_members coll))"
    using mem_size_encoded [OF assms(1,2)] assms(1,2) by (auto simp: Image result_simps collection_ok_def)
  note t = tagged_at [OF a _ v(2-4)]
  from t(1) cursor_image_at [OF wire(1) v(1) wire(2,3) t(2)] show ?thesis
    unfolding len by (simp add: Image algebra_simps)
next
  case (Delta key d es dl)
  have v: "1 \<le> length key" "length key \<le> 256" "length es \<le> MAX_EDITS" "validate_edits d es = Inr ()" "validate_descriptor d = Inr ()"
    and sz: "sum_sizes add_edit es (18 + length key + descriptor_encoded_bytes d) = Inr n"
    using assms(1) by (auto simp: Delta result_simps validate_edits_def Suc_le_eq)
  have wire: "\<forall>e \<in> set es. edit_wire d e" "deadline_wire dl" using assms(2) by (auto simp: Delta)
  have a: "at (char_of (8 :: nat) # encode_blob key @ encode_descriptor d @ u32_to_le (length es)
      @ concat (map (encode_edit (dimension d)) es) @ encode_deadline dl @ w) c"
    using assms(3) by (simp add: Delta)
  have len: "length (mem_bytes mu) = 18 + length key + descriptor_encoded_bytes d + sum_list (map edit_encoded_bytes es)"
    using mem_size_encoded [OF assms(1,2)] sum_edits [OF sz] by simp
  note t = tagged_at [OF a _ v(1,2,5)]
  from t(1) cursor_delta_at [OF v(3,4) wire t(2)] show ?thesis
    unfolding len by (simp add: Delta algebra_simps)
qed

definition mem_sized :: "mem_mutation \<Rightarrow> bool" where
  "mem_sized mu \<longleftrightarrow> (case mem_encoded_bytes mu of Inl _ \<Rightarrow> False | Inr _ \<Rightarrow> True) \<and> mem_wire mu"

lemma mem_sizedE: "mem_sized mu \<Longrightarrow> (\<And>n. mem_encoded_bytes mu = Inr n \<Longrightarrow> mem_wire mu \<Longrightarrow> thesis) \<Longrightarrow> thesis"
  by (auto simp: mem_sized_def split: sum.splits)

lemma mem_batch_size_encoded:
  "mem_batch_size ms keys acc = Inr n \<Longrightarrow> list_all mem_wire ms \<Longrightarrow> n = acc + length (concat (map mem_bytes ms))
    \<and> list_all mem_sized ms \<and> distinct (map mem_key ms) \<and> set (map mem_key ms) \<inter> set keys = {}
    \<and> mem_encode_mutations ms = Inr (concat (map mem_bytes ms))"
proof (induction ms arbitrary: keys acc)
  case (Cons mu ms)
  then obtain k where k: "mem_key mu \<notin> set keys" "mem_encoded_bytes mu = Inr k" "mem_wire mu"
      "mem_batch_size ms (bs_insert (mem_key mu) keys) (acc + k) = Inr n"
    by (auto simp: result_simps checked_simps)
  obtain b where "mem_encode_mutation mu = Inr b" "length b = k" using mem_size_encoded [OF k(2,3)] by metis
  with Cons.IH [OF k(4)] Cons.prems(2) k show ?case by (auto simp: mem_sized_def)
qed simp

lemma mem_batch_loop_at:
  assumes "list_all mem_sized ms" "distinct (map mem_key ms)" "at (concat (map mem_bytes ms) @ w) c"
  shows "\<exists>keys. read_loop (length ms) mem_batch_step ([], []) c = Inr ((keys, ms), advance (length (concat (map mem_bytes ms))) c)"
proof -
  let ?R = "\<lambda>s rest. snd s @ rest = ms \<and> set (fst s) = set (map mem_key (snd s))"
  have "\<exists>s'. read_loop (length ms) mem_batch_step ([], []) c = Inr (s', advance (length (concat (map mem_bytes ms))) c) \<and> ?R s' []"
  proof (rule read_loop_at [where R = ?R, OF _ _ assms(3)])
    fix s mu xs w c
    assume R: "?R s (mu # xs)" and a: "at (mem_bytes mu @ w) c"
    obtain keys acc where s: "s = (keys, acc)" by (cases s)
    have ms: "ms = acc @ mu # xs" and keys: "set keys = mem_key ` set acc" using R by (auto simp: s)
    have "mem_sized mu" using assms(1) by (simp add: ms)
    then obtain n where n: "mem_encoded_bytes mu = Inr n" "mem_wire mu" by (rule mem_sizedE)
    have "mem_key mu \<notin> set keys" using assms(2) by (auto simp: ms keys)
    with mem_cursor_mutation_at [OF n a]
    have "mem_batch_step s c = Inr ((bs_insert (mem_key mu) keys, acc @ [mu]), advance (length (mem_bytes mu)) c)"
      by (simp add: s mem_batch_step_def parse_bind_def parse_lift_def parse_return_def)
    then show "\<exists>s'. mem_batch_step s c = Inr (s', advance (length (mem_bytes mu)) c) \<and> ?R s' xs"
      by (auto simp: ms keys)
  qed simp
  then show ?thesis by auto
qed

fun mem_record_wire :: "mem_record \<Rightarrow> bool" where
  "mem_record_wire (MemSnapshot mu) = mem_wire mu"
| "mem_record_wire (MemSeal _ _ _) = True"
| "mem_record_wire (MemBatch _ _ ms) = list_all mem_wire ms"

fun mem_record_small :: "aof_limits \<Rightarrow> mem_record \<Rightarrow> bool" where
  "mem_record_small limits (MemSnapshot mu) = (mem_sized mu \<and> \<not> is_delta mu)"
| "mem_record_small limits (MemSeal _ _ _) = True"
| "mem_record_small limits (MemBatch _ _ ms) = (ms \<noteq> [] \<and> length ms \<le> max_mutations limits \<and> length ms \<le> U32_MAX
     \<and> list_all mem_sized ms \<and> distinct (map mem_key ms))"

fun mem_body :: "mem_record \<Rightarrow> bytes" where
  "mem_body (MemSnapshot mu) = char_of (1 :: nat) # mem_bytes mu"
| "mem_body (MemSeal s e d) = char_of (2 :: nat) # u64_to_le s @ u64_to_le e @ le_bytes 4 (unat d)"
| "mem_body (MemBatch s og ms) =
     char_of (3 :: nat) # u64_to_le s @ origin_byte og # u32_to_le (length ms) @ concat (map mem_bytes ms)"

lemma mem_snapshot_size:
  "mem_record_size (MemSnapshot mu) limits = Inr n \<Longrightarrow> \<exists>k. mem_encoded_bytes mu = Inr k \<and> n = k + 1 \<and> \<not> is_delta mu"
  by (cases mu) (auto simp: result_simps checked_simps)

lemma mem_record_size_encoded:
  assumes "mem_record_size r limits = Inr n" "mem_record_wire r"
  shows "mem_encode_body r = Inr (mem_body r) \<and> length (mem_body r) = n \<and> 0 < n \<and> mem_record_small limits r"
proof (cases r)
  case (MemSnapshot mu)
  with assms(1) obtain k where k: "mem_encoded_bytes mu = Inr k" "n = k + 1" "\<not> is_delta mu"
    using mem_snapshot_size [of mu limits n] by auto
  have wire: "mem_wire mu" using assms(2) MemSnapshot by simp
  obtain b where "mem_encode_mutation mu = Inr b" "length b = k" using mem_size_encoded [OF k(1) wire] by metis
  with k wire show ?thesis by (simp add: MemSnapshot mem_sized_def)
next
  case (MemBatch s og ms)
  have c: "ms \<noteq> []" "length ms \<le> max_mutations limits" "length ms \<le> U32_MAX" "mem_batch_size ms [] 14 = Inr n" "list_all mem_wire ms"
    using assms by (auto simp: MemBatch result_simps)
  from mem_batch_size_encoded [OF c(4,5)] c(1-3) show ?thesis by (simp add: MemBatch)
qed (use assms in \<open>auto simp: u32_word_to_le_def\<close>)

lemma mem_cursor_batch_at:
  assumes "mem_record_small limits (MemBatch s og ms)"
    "at (u64_to_le s @ origin_byte og # u32_to_le (length ms) @ concat (map mem_bytes ms) @ w) c" "max_mutations limits < 4294967296"
  shows "mem_cursor_batch limits c = Inr (MemBatch s og ms, advance (13 + length (concat (map mem_bytes ms))) c)"
proof -
  define c1 where "c1 = advance 8 c"
  define c2 where "c2 = advance 1 c1"
  define c3 where "c3 = advance 4 c2"
  note a1 = at_advance [OF assms(2) length_le_bytes, folded c1_def]
  note a2 = at_byte [OF a1, folded c2_def]
  note a3 = at_advance [OF a2 length_le_bytes, folded c3_def]
  have sm: "ms \<noteq> []" "length ms \<le> max_mutations limits" "list_all mem_sized ms" "distinct (map mem_key ms)"
    using assms(1) by auto
  have "length ms * 5 \<le> length (concat (map mem_bytes ms))"
    by (rule concat_length_ge) (use sm(3) mem_size_encoded in \<open>auto simp: list_all_iff elim!: mem_sizedE\<close>)
  then have n: "length ms * 5 \<le> length (concat (map mem_bytes ms) @ w)" by (simp only: length_append)
  obtain keys where r: "read_loop (length ms) mem_batch_step ([], []) c3
      = Inr ((keys, ms), advance (length (concat (map mem_bytes ms))) c3)"
    using mem_batch_loop_at [OF sm(3,4) a3] by blast
  have fin: "advance (length (concat (map mem_bytes ms))) c3 = advance (13 + length (concat (map mem_bytes ms))) c"
    by (simp only: c1_def c2_def c3_def advance_advance) (simp add: algebra_simps)
  have og: "origin_byte og = char_of (1 :: nat) \<and> og = Client \<or> origin_byte og = char_of (2 :: nat) \<and> og = Expiration"
    by (cases og) auto
  show ?thesis
    using cursor_u64_at [OF assms(2), folded c1_def] cursor_byte_at [OF a1, folded c2_def]
      bounded_count_at [OF a2 sm(2) assms(3) _ n, folded c3_def] sm(1) r fin og
    by (auto simp: mem_cursor_batch_def parse_bind_def parse_lift_def parse_return_def)
qed

lemma mem_decode_body:
  assumes "mem_record_small limits r" "length (mem_body r) \<le> USIZE_MAX" "max_mutations limits < 4294967296"
  shows "mem_decode_record (mem_body r) limits = Inr r"
proof -
  let ?c = "\<lparr>cur_bytes = mem_body r, cur_offset = 0\<rparr>"
  have a: "at (mem_body r @ []) ?c" using assms(2) by (simp add: at_def)
  have "mem_cursor_record limits ?c = Inr (r, advance (length (mem_body r)) ?c)"
  proof (cases r)
    case (MemSnapshot mu)
    obtain n where n: "mem_encoded_bytes mu = Inr n" "mem_wire mu" using assms(1) by (auto simp: MemSnapshot elim: mem_sizedE)
    have a0: "at (char_of (1 :: nat) # mem_bytes mu @ []) ?c" using a by (simp add: MemSnapshot)
    from cursor_byte_at [OF a0] mem_cursor_mutation_at [OF n at_byte [OF a0]] assms(1) show ?thesis
      by (simp add: MemSnapshot mem_cursor_record_def parse_bind_def parse_lift_def parse_return_def)
  next
    case (MemSeal s e d)
    have a0: "at (char_of (2 :: nat) # u64_to_le s @ u64_to_le e @ le_bytes 4 (unat d) @ []) ?c" using a by (simp add: MemSeal)
    note a1 = at_byte [OF a0]
    note a2 = at_advance [OF a1 length_le_bytes]
    note a3 = at_advance [OF a2 length_le_bytes]
    have "unat d < 2 ^ LENGTH(32)" by (rule unsigned_less)
    then have "unat d < 4294967296" by simp
    from cursor_byte_at [OF a0] cursor_u64_at [OF a1] cursor_u64_at [OF a2] cursor_u32_at [OF a3 this] show ?thesis
      by (simp add: MemSeal mem_cursor_record_def parse_bind_def parse_return_def)
  next
    case (MemBatch s og ms)
    have a0: "at (char_of (3 :: nat) # u64_to_le s @ origin_byte og # u32_to_le (length ms) @ concat (map mem_bytes ms) @ []) ?c"
      using a by (simp add: MemBatch)
    from cursor_byte_at [OF a0] mem_cursor_batch_at [OF assms(1) [unfolded MemBatch] at_byte [OF a0] assms(3)] show ?thesis
      by (simp add: MemBatch mem_cursor_record_def parse_bind_def)
  qed
  then show ?thesis by (simp add: mem_decode_record_def advance_def)
qed

lemma mem_encode_frame:
  assumes "mem_encode_record r limits = Inr w" "mem_record_wire r"
  shows "w = frame_record (length (mem_body r)) (mem_body r)" "fits limits (mem_body r)" "mem_record_small limits r"
proof -
  obtain n where n: "mem_record_size r limits = Inr n" "n \<le> max_record_bytes limits" "n \<le> MAX_RECORD_BYTES"
    "mem_encode_body r = Inr (mem_body r)" "w = frame_record n (mem_body r)"
    using assms mem_record_size_encoded [OF _ assms(2)] by (auto simp: mem_encode_record_def result_simps)
  with mem_record_size_encoded [OF n(1) assms(2)]
  show "w = frame_record (length (mem_body r)) (mem_body r)" "fits limits (mem_body r)" "mem_record_small limits r"
    by (auto simp: fits_def)
qed

section \<open>Properties\<close>

text \<open>
  C19. Records of semantic memory survive the file: whatever the encoder of record
  version 2 accepts - key mutations of version 1, complete images of a collection, and
  deltas of ordered edits, one per key in a batch - is read back unchanged, with the
  collection rebuilt member by member equal to the one written, cached sizes included.
\<close>

theorem mem_record_roundtrip:
  assumes "mem_encode_record r limits = Inr w" "mem_record_wire r" "max_mutations limits < 4294967296"
  shows "mem_read_record limits \<lparr>in_bytes = w @ rest, in_fault = f\<rparr> = Inr (MemRecord r, \<lparr>in_bytes = rest, in_fault = f\<rparr>)"
proof -
  note e = mem_encode_frame [OF assms(1,2)]
  have "length (mem_body r) \<le> USIZE_MAX" using e(2) max_record_small by (auto simp: fits_def)
  then have "mem_decode_record (mem_body r) limits = Inr r" by (rule mem_decode_body [OF e(3) _ assms(3)])
  then show ?thesis unfolding mem_read_record_def e(1) by (intro framed_roundtrip [OF e(2)]) simp
qed

section \<open>Instances\<close>

definition sample_mem_record :: mem_record where
  "sample_mem_record = MemBatch 3 Client
     [Image ''c'' sample_members (Some 5), Delta ''d'' sample_descriptor [Remove ''a'', Upsert (sample_member ''b'' [CHR 0x00, CHR 0x00, CHR 0x00, CHR 0x40])] None]"

lemma sample_mem_wire: "mem_record_wire sample_mem_record"
proof -
  have "collection_ok sample_members" using apply_edits_ok [OF sample_collection_ok sample_apply] by simp
  then show ?thesis
    by (auto simp: sample_mem_record_def collection_ok_def members_ok_def sample_members_def member_wire_def sample_member_def
        memory_eval i64_ok_def I64_MIN_def I64_MAX_def)
qed

lemma sample_mem_encodes: "\<exists>w. mem_encode_record sample_mem_record aof_limits_default = Inr w"
proof -
  have "''a'' < ''b''" by (simp add: list_less_def lexordp_simps less_char_def)
  then show ?thesis
    by (simp add: mem_encode_record_def sample_mem_record_def sample_members_def memory_eval aof_limits_default_def U32_MAX_def
        MAX_RECORD_BYTES_def)
qed

theorem mem_record_roundtrip_witness:
  "\<exists>w. mem_encode_record sample_mem_record aof_limits_default = Inr w
    \<and> mem_read_record aof_limits_default \<lparr>in_bytes = w @ ''tail'', in_fault = None\<rparr>
      = Inr (MemRecord sample_mem_record, \<lparr>in_bytes = ''tail'', in_fault = None\<rparr>)"
proof -
  obtain w where w: "mem_encode_record sample_mem_record aof_limits_default = Inr w" using sample_mem_encodes by blast
  have "max_mutations aof_limits_default < 4294967296" by (simp add: aof_limits_default_def)
  from mem_record_roundtrip [OF w sample_mem_wire this] w show ?thesis by blast
qed

end
