(* ===== verification/Memory_Lifecycle.thy ===== *)
theory Memory_Lifecycle
  imports Memory_Format
begin

text \<open>
  Memory commands in the owning store (\<open>src/src/storage/memory_lifecycle.rs\<close>, and
  \<open>Store::execute\<close>). An operation runs on a shadow that holds a copy of its key; the
  entry it leaves is prepared for application, and what is logged is a guarded delta
  (or the image of a new collection). Replay turns deltas back into images.
\<close>

record prepared_memory =
  pm_prepared :: prepared
  pm_resolved :: "mem_mutation option"
  pm_stats :: "search_stats option"

section \<open>Replies\<close>

definition memory_limit_exceeded :: bytes where "memory_limit_exceeded = ''ERR memory limit exceeded''"
definition vector_length_mismatch :: bytes where "vector_length_mismatch = ''ERR memory vector length mismatch''"
definition vector_not_finite :: bytes where "vector_not_finite = ''ERR memory vector contains non-finite value''"
definition invalid_memory_ttl :: bytes where "invalid_memory_ttl = ''ERR invalid memory ttl''"
definition identity_mismatch :: bytes where "identity_mismatch = ''ERR memory model identity mismatch''"

fun memory_failure :: "memory_error \<Rightarrow> execution_error" where
  "memory_failure MeDimension = EMemory vector_length_mismatch"
| "memory_failure MeNonFinite = EMemory vector_not_finite"
| "memory_failure MeDeadline = EMemory invalid_memory_ttl"
| "memory_failure MeIdentity = EMemory identity_mismatch"
| "memory_failure _ = EMemory memory_limit_exceeded"

definition descriptor_reply :: "descriptor \<Rightarrow> reply" where
  "descriptor_reply d =
     RArray [RInteger 1, RInteger (int (dimension d)), RBulk (Some ''L2SQ''),
       bulk (provider d), bulk (model d), bulk (revision d), bulk (transform d)]"

fun scalar_reply :: "bytes \<times> scalar \<Rightarrow> reply" where
  "scalar_reply (field, SBytes v) = RArray [bulk field, RBulk (Some ''BYTES''), RBulk (Some v)]"
| "scalar_reply (field, SInteger i) = RArray [bulk field, RBulk (Some ''I64''), RBulk (Some (int_to_string i))]"
| "scalar_reply (field, SBool b) = RArray [bulk field, RBulk (Some ''BOOL''), RBulk (Some (if b then ''1'' else ''0''))]"

definition member_reply :: "member \<Rightarrow> reply" where
  "member_reply m =
     RArray [bulk (mem_namespace m), bulk (mem_content m), bulk (mem_vector m),
       RInteger (case mem_deadline m of None \<Rightarrow> - 1 | Some d \<Rightarrow> d),
       RArray (map scalar_reply (mem_metadata m)),
       RArray (map (\<lambda>(field, v). RArray [bulk field, bulk v]) (mem_provenance m))]"

definition hit_reply :: "bytes \<times> u64 \<Rightarrow> reply" where
  "hit_reply = (\<lambda>(ident, distance). RArray [RBulk (Some ident), RBulk (Some (u64_to_le distance))])"

section \<open>One operation\<close>

definition filter_field_ok :: "bytes \<times> scalar \<Rightarrow> bool" where
  "filter_field_ok = (\<lambda>(field, v). \<not> (field = [] \<or> length field > 64
     \<or> (case v of SBytes b \<Rightarrow> length b > 4096 | _ \<Rightarrow> False)))"

text \<open>What is checked before the key is looked at.\<close>

definition memory_preflight :: "bytes \<Rightarrow> operation \<Rightarrow> execution_error + unit" where
  "memory_preflight key oper =
     res_bind (ensure (\<not> (key = [] \<or> length key > 256)) (EMemory memory_limit_exceeded)) (\<lambda>_.
       case oper of
         OpCreate d \<Rightarrow> map_err memory_failure (validate_descriptor d)
       | OpPut d m _ _ \<Rightarrow> map_err memory_failure (validate_member m d)
       | OpSearch d vector k namespace metadata \<Rightarrow>
           res_bind (map_err memory_failure (validate_descriptor d)) (\<lambda>_.
           res_bind (ensure (length vector = dimension d * 4) (EMemory vector_length_mismatch)) (\<lambda>_.
           res_bind (ensure (vector_finite vector) (EMemory vector_not_finite)) (\<lambda>_.
           res_bind (ensure (1 \<le> k \<and> k \<le> MAX_SEARCH_K) (EMemory ''ERR memory k is out of range'')) (\<lambda>_.
           res_bind (ensure (\<not> (length namespace > 256 \<or> length metadata > 32)) (EMemory memory_limit_exceeded)) (\<lambda>_.
             ensure (list_all filter_field_ok metadata) (EMemory memory_limit_exceeded))))))
       | _ \<Rightarrow> Inr ())"

definition same_model :: "descriptor \<Rightarrow> descriptor \<Rightarrow> execution_error + unit" where
  "same_model d stored =
     res_bind (ensure (\<not> (provider d \<noteq> provider stored \<or> model d \<noteq> model stored \<or> revision d \<noteq> revision stored
         \<or> transform d \<noteq> transform stored)) (EMemory identity_mismatch)) (\<lambda>_.
       ensure (dimension d = dimension stored) (EMemory vector_length_mismatch))"

definition member_expired :: "int \<Rightarrow> entry \<Rightarrow> bytes \<Rightarrow> bool" where
  "member_expired now e ident \<longleftrightarrow>
     (case bm_get (ent_deadlines e) ident of None \<Rightarrow> False | Some d \<Rightarrow> d \<le> now)"

definition future_deadline :: "sample \<Rightarrow> int \<Rightarrow> execution_error + int" where
  "future_deadline t milliseconds =
     ok_or (opt_filter (\<lambda>absolute. absolute > 0) (map_option snd (deadline t milliseconds))) (EMemory invalid_memory_ttl)"

fun put_deadline :: "sample \<Rightarrow> ttl \<Rightarrow> member option \<Rightarrow> execution_error + int option" where
  "put_deadline t TtlPersistent live = Inr None"
| "put_deadline t TtlKeep live = Inr (Option.bind live mem_deadline)"
| "put_deadline t (TtlAfter milliseconds) live =
     res_bind (ensure (\<not> milliseconds \<le> 0) (EMemory invalid_memory_ttl)) (\<lambda>_.
       res_bind (future_deadline t milliseconds) (\<lambda>absolute. Inr (Some absolute)))"

definition member_pttl :: "int \<Rightarrow> entry \<Rightarrow> member \<Rightarrow> reply" where
  "member_pttl now e m =
     RInteger (case (ent_expires e, bm_get (ent_deadlines e) (mem_id m)) of
         (None, None) \<Rightarrow> - 1
       | (x, y) \<Rightarrow>
           (let d = (case (x, y) of (Some a, Some b) \<Rightarrow> min a b | (Some a, None) \<Rightarrow> a | (None, Some b) \<Rightarrow> b | _ \<Rightarrow> 0);
                ttl = duration_as_millis (max 0 (d - now))
            in if ttl \<le> I64_MAX then ttl else I64_MAX))"

text \<open>What an operation on a member decides: to answer, to answer and drop an expired
  member, or to change the collection.\<close>

datatype memory_decision = Answer reply | Purge reply | Change edit

fun operation_member :: "operation \<Rightarrow> bytes" where
  "operation_member (OpPut _ m _ _) = mem_id m"
| "operation_member (OpGet ident) = ident"
| "operation_member (OpDelete ident) = ident"
| "operation_member (OpPttl ident) = ident"
| "operation_member (OpExpire ident _) = ident"
| "operation_member (OpPersist ident) = ident"
| "operation_member _ = []"

fun memory_decide ::
  "sample \<Rightarrow> entry \<Rightarrow> collection \<Rightarrow> member option \<Rightarrow> bool \<Rightarrow> operation \<Rightarrow> execution_error + memory_decision" where
  "memory_decide t e c live expired (OpPut d m ttl cond) =
     res_bind (same_model d (coll_descriptor c)) (\<lambda>_.
       if cond = Missing \<and> live \<noteq> None \<or> cond = Present \<and> live = None then Inr (Answer (RInteger 0))
       else res_bind (put_deadline t ttl live) (\<lambda>absolute. Inr (Change (Upsert (m\<lparr>mem_deadline := absolute\<rparr>)))))"
| "memory_decide t e c live expired (OpGet ident) =
     Inr (case live of
         Some m \<Rightarrow> Answer (member_reply m)
       | None \<Rightarrow> if expired then Purge (RBulk None) else Answer (RBulk None))"
| "memory_decide t e c live expired (OpPttl ident) =
     Inr (case live of
         Some m \<Rightarrow> Answer (member_pttl (t_now t) e m)
       | None \<Rightarrow> if expired then Purge (RInteger (- 2)) else Answer (RInteger (- 2)))"
| "memory_decide t e c live expired (OpDelete ident) =
     Inr (if live = None then Answer (RInteger 0) else Change (Remove ident))"
| "memory_decide t e c live expired (OpExpire ident milliseconds) =
     (case live of
        None \<Rightarrow> Inr (Answer (RInteger 0))
      | Some m \<Rightarrow>
          if milliseconds \<le> 0 then Inr (Change (Remove (mem_id m)))
          else res_bind (future_deadline t milliseconds) (\<lambda>absolute.
            Inr (Change (Upsert (m\<lparr>mem_deadline := Some absolute\<rparr>)))))"
| "memory_decide t e c live expired (OpPersist ident) =
     Inr (case live of
         None \<Rightarrow> Answer (RInteger 0)
       | Some m \<Rightarrow> if mem_deadline m = None then Answer (RInteger 0) else Change (Upsert (m\<lparr>mem_deadline := None\<rparr>)))"
| "memory_decide t e c live expired _ = Inr (Answer ROk)"

definition apply_memory_edit ::
  "sample \<Rightarrow> bytes \<Rightarrow> collection \<Rightarrow> edit \<Rightarrow> store \<Rightarrow> ((execution_error + mem_mutation) \<times> store) option" where
  "apply_memory_edit t key c e st =
     (case res_bind (map_err memory_failure (apply_edits c (coll_descriptor c) [e] key)) (\<lambda>candidate.
           res_bind (ensure (can_replace key (VMemory candidate) st) EOutOfMemory) (\<lambda>_.
           res_bind (map_err memory_failure (resolve_member_deadlines t key (VMemory candidate) st)) (\<lambda>_.
             Inr candidate))) of
        Inl err \<Rightarrow> Some (Inl err, st)
      | Inr candidate \<Rightarrow>
          (let expiry' = Option.bind (bm_get (st_values st) key) entry_expiry
           in do {
             st' \<leftarrow> insert_value t key (VMemory candidate) expiry' st;
             Some (Inr (Delta key (coll_descriptor c) [e] (map_option snd expiry')), st')
           }))"

type_synonym memory_outcome = "(execution_error + reply \<times> mem_mutation option) \<times> search_stats option \<times> store"

definition memory_create :: "sample \<Rightarrow> bytes \<Rightarrow> descriptor \<Rightarrow> store \<Rightarrow> memory_outcome option" where
  "memory_create t key d st =
     (case res_bind (map_err memory_failure (collection_new d)) (\<lambda>c.
           res_bind (map_err memory_failure (validate_key c key)) (\<lambda>_.
           res_bind (ensure (can_replace key (VMemory c) st) EOutOfMemory) (\<lambda>_. Inr c))) of
        Inl err \<Rightarrow> Some (Inl err, None, st)
      | Inr c \<Rightarrow> do {
          st' \<leftarrow> insert_value t key (VMemory c) None st;
          Some (Inr (ROk, Some (Image key c None)), None, st')
        })"

fun memory_absent :: "operation \<Rightarrow> (execution_error + reply \<times> mem_mutation option) \<times> search_stats option" where
  "memory_absent (OpPut _ _ _ _) = (Inl (EMemory ''ERR memory collection does not exist''), None)"
| "memory_absent OpInfo = (Inr (RBulk None, None), None)"
| "memory_absent (OpGet _) = (Inr (RBulk None, None), None)"
| "memory_absent (OpSearch _ _ _ _ _) = (Inr (RArray [], None), Some \<lparr>visits = 0, components = 0\<rparr>)"
| "memory_absent (OpPttl _) = (Inr (RInteger (- 2), None), None)"
| "memory_absent _ = (Inr (RInteger 0, None), None)"

definition memory_search ::
  "sample \<Rightarrow> entry \<Rightarrow> collection \<Rightarrow> descriptor \<Rightarrow> bytes \<Rightarrow> nat \<Rightarrow> bytes \<Rightarrow> (bytes, scalar) btree_map
     \<Rightarrow> execution_error + reply \<times> search_stats" where
  "memory_search t e c d vector k namespace metadata =
     res_bind (same_model d (coll_descriptor c)) (\<lambda>_.
     res_bind (map_err (\<lambda>err. if err = MeQuota then EMemory ''ERR memory search work limit exceeded'' else memory_failure err)
         (search_with_visibility_stats c vector k namespace metadata (t_unix t)
            (\<lambda>m. \<not> member_expired (t_now t) e (mem_id m)))) (\<lambda>(hits, stats).
       Inr (RArray (map hit_reply hits), stats)))"

definition memory_edit :: "sample \<Rightarrow> bytes \<Rightarrow> operation \<Rightarrow> collection \<Rightarrow> entry \<Rightarrow> store \<Rightarrow> memory_outcome option" where
  "memory_edit t key oper c e st =
     (let ident = operation_member oper;
          expired = member_expired (t_now t) e ident;
          live = opt_filter (\<lambda>_. \<not> expired) (bm_get (coll_members c) ident)
      in case res_bind (ensure (\<not> (ident = [] \<or> length ident > 256)) (EMemory memory_limit_exceeded)) (\<lambda>_.
               memory_decide t e c live expired oper) of
           Inl err \<Rightarrow> Some (Inl err, None, st)
         | Inr (Answer r) \<Rightarrow> Some (Inr (r, None), None, st)
         | Inr (Purge r) \<Rightarrow> do {
             (res, st) \<leftarrow> apply_memory_edit t key c (Remove ident) st;
             Some (res_bind res (\<lambda>mu. Inr (r, Some mu)), None, st)
           }
         | Inr (Change edit) \<Rightarrow> do {
             (res, st) \<leftarrow> apply_memory_edit t key c edit st;
             Some (res_bind res (\<lambda>mu. Inr (RInteger 1, Some mu)), None, st)
           })"

definition memory_existing :: "sample \<Rightarrow> bytes \<Rightarrow> operation \<Rightarrow> collection \<Rightarrow> entry \<Rightarrow> store \<Rightarrow> memory_outcome option" where
  "memory_existing t key oper c e st =
     (case oper of
        OpCreate d \<Rightarrow>
          Some (if coll_descriptor c = d then Inr (ROk, None) else Inl (EMemory ''ERR memory schema mismatch''), None, st)
      | OpInfo \<Rightarrow> Some (Inr (descriptor_reply (coll_descriptor c), None), None, st)
      | OpSearch d vector k namespace metadata \<Rightarrow>
          (case memory_search t e c d vector k namespace metadata of
             Inl err \<Rightarrow> Some (Inl err, None, st)
           | Inr (r, stats) \<Rightarrow> Some (Inr (r, None), Some stats, st))
      | _ \<Rightarrow> memory_edit t key oper c e st)"

definition try_memory_inner :: "sample \<Rightarrow> bytes \<Rightarrow> operation \<Rightarrow> store \<Rightarrow> memory_outcome option" where
  "try_memory_inner t key oper st =
     (case memory_preflight key oper of
        Inl err \<Rightarrow> Some (Inl err, None, st)
      | Inr _ \<Rightarrow> do {
          st \<leftarrow> expire_key (t_now t) key st;
          (case bm_get (st_values st) key of
             None \<Rightarrow>
               (case oper of
                  OpCreate d \<Rightarrow> memory_create t key d st
                | _ \<Rightarrow> Some (fst (memory_absent oper), snd (memory_absent oper), st))
           | Some e \<Rightarrow>
               (case ent_value e of
                  VMemory c \<Rightarrow> memory_existing t key oper c e st
                | _ \<Rightarrow> Some (Inl EWrongType, None, st)))
        })"

definition memory_inner ::
  "sample \<Rightarrow> bytes \<Rightarrow> operation \<Rightarrow> store \<Rightarrow> (reply \<times> mem_mutation option \<times> search_stats option \<times> store) option" where
  "memory_inner t key oper st = do {
     (res, stats, st) \<leftarrow> try_memory_inner t key oper st;
     Some (case res of Inl err \<Rightarrow> (RError err, None, stats, st) | Inr (r, mu) \<Rightarrow> (r, mu, stats, st))
   }"

section \<open>Preparation and application\<close>

definition memory_shadow :: "bytes \<Rightarrow> store \<Rightarrow> store option" where
  "memory_shadow key st = do {
     shadow \<leftarrow> shadow_base st;
     Some (case bm_get (st_values st) key of
         None \<Rightarrow> shadow
       | Some e \<Rightarrow>
           shadow\<lparr>st_values := bm_insert key e (st_values shadow),
             st_expirations := (case ent_expires e of
                  None \<Rightarrow> st_expirations shadow
                | Some d \<Rightarrow> bs_insert (d, ent_generation e, key) (st_expirations shadow)),
             st_members := fold (\<lambda>(ident, d). bs_insert (d, key, ident)) (ent_deadlines e) (st_members shadow)\<rparr>)
   }"

text \<open>Both the batch and the snapshot of the collection have to fit in a record.\<close>

definition memory_fits :: "nat \<Rightarrow> bytes \<Rightarrow> entry option \<Rightarrow> mem_mutation \<Rightarrow> bool" where
  "memory_fits record_limit key after mu \<longleftrightarrow>
     \<not> ((case (case mem_encoded_bytes mu of Inl _ \<Rightarrow> None | Inr n \<Rightarrow> checked_add n 14) of
            None \<Rightarrow> True | Some n \<Rightarrow> n > record_limit \<or> n > MAX_RECORD_BYTES)
        \<or> (case map_option ent_value after of
             Some (VMemory c) \<Rightarrow>
               (let n = 15 + length key + coll_encoded_bytes c in n > record_limit \<or> n > MAX_RECORD_BYTES)
           | _ \<Rightarrow> False))"

definition memory_origin :: "operation \<Rightarrow> mutation_origin" where
  "memory_origin oper = (if operation_writes_dataset oper then Client else Expiration)"

definition prepare_memory_with_limit :: "sample \<Rightarrow> bytes \<Rightarrow> operation \<Rightarrow> nat \<Rightarrow> store \<Rightarrow> prepared_memory option" where
  "prepare_memory_with_limit t key oper record_limit st = do {
     shadow \<leftarrow> memory_shadow key st;
     (r, resolved, stats, shadow) \<leftarrow> memory_inner t key oper shadow;
     let origin = memory_origin oper;
     let before = bm_get (st_values st) key;
     let after = bm_get (st_values shadow) key;
     let changed = map_option ent_generation before \<noteq> map_option ent_generation after;
     let resolved = (if changed \<and> resolved = None then Some (Legacy (Delete key)) else resolved);
     Some (if (case resolved of None \<Rightarrow> True | Some mu \<Rightarrow> memory_fits record_limit key after mu)
       then \<lparr>pm_prepared = prepared_of r (if changed then [(key, after)] else []) origin st,
             pm_resolved = resolved, pm_stats = stats\<rparr>
       else \<lparr>pm_prepared = prepared_of (RError EAofRecordLimit) [] origin st, pm_resolved = None, pm_stats = None\<rparr>)
   }"

definition prepare_memory :: "sample \<Rightarrow> bytes \<Rightarrow> operation \<Rightarrow> store \<Rightarrow> prepared_memory option" where
  "prepare_memory t key oper st = prepare_memory_with_limit t key oper MAX_RECORD_BYTES st"

definition apply_memory :: "prepared_memory \<Rightarrow> store \<Rightarrow> (reply \<times> store) option" where
  "apply_memory pm st = apply_prepared (pm_prepared pm) st"

definition execute :: "sample \<Rightarrow> command \<Rightarrow> store \<Rightarrow> (reply \<times> store) option" where
  "execute t c st =
     (case c of
        CMemory key oper \<Rightarrow> do { pm \<leftarrow> prepare_memory t key oper st; apply_memory pm st }
      | _ \<Rightarrow> do { p \<leftarrow> prepare t c st; apply_prepared p st })"

section \<open>Replay\<close>

definition replay_image :: "store \<Rightarrow> mem_mutation \<Rightarrow> replay_error + mutation" where
  "replay_image st mu =
     (case mu of
        Legacy mu \<Rightarrow> Inr mu
      | Image key c d \<Rightarrow> res_bind (map_err ReMemory (validate_key c key)) (\<lambda>_. Inr (Put key (VMemory c) d))
      | Delta key schema es d \<Rightarrow>
          (case map_option ent_value (bm_get (st_values st) key) of
             Some (VMemory c) \<Rightarrow>
               res_bind (map_err ReMemory (apply_edits c schema es key)) (\<lambda>candidate. Inr (Put key (VMemory candidate) d))
           | _ \<Rightarrow> Inl (ReMemory MeIdentity)))"

fun replay_images :: "store \<Rightarrow> bytes btree_set \<Rightarrow> mem_mutation list \<Rightarrow> replay_error + mutation list" where
  "replay_images st keys [] = Inr []"
| "replay_images st keys (mu # ms) =
     res_bind (ensure (mem_key mu \<notin> set keys) ReDuplicateKey) (\<lambda>_.
     res_bind (replay_image st mu) (\<lambda>image.
     res_bind (replay_images st (bs_insert (mem_key mu) keys) ms) (\<lambda>images. Inr (image # images))))"

definition prepare_memory_replay :: "sample \<Rightarrow> mem_mutation list \<Rightarrow> mutation_origin \<Rightarrow> store \<Rightarrow> replay_error + prepared" where
  "prepare_memory_replay t ms origin st =
     res_bind (replay_images st [] ms) (\<lambda>images. prepare_replay t images origin st)"

definition replay_memory :: "sample \<Rightarrow> mem_mutation list \<Rightarrow> store \<Rightarrow> replay_error + store option" where
  "replay_memory t ms st =
     res_bind (prepare_memory_replay t ms Client st) (\<lambda>p. Inr (map_option snd (apply_prepared p st)))"

definition snapshot_memory :: "store \<Rightarrow> mem_mutation list" where
  "snapshot_memory st = map from_storage (snapshot st)"

text \<open>A prepared batch of key mutations as guarded deltas, against the store it was
  prepared from.\<close>

definition removed_edits :: "collection \<Rightarrow> collection \<Rightarrow> (bytes, edit) btree_map" where
  "removed_edits before after =
     fold (\<lambda>(ident, _) edits. if bm_get (coll_members after) ident = None then bm_insert ident (Remove ident) edits else edits)
       (coll_members before) []"

definition changed_edits :: "collection \<Rightarrow> collection \<Rightarrow> (bytes, edit) btree_map" where
  "changed_edits before after =
     fold (\<lambda>(ident, m) edits. if bm_get (coll_members before) ident \<noteq> Some m then bm_insert ident (Upsert m) edits else edits)
       (coll_members after) (removed_edits before after)"

definition resolved_mutation :: "store \<Rightarrow> mutation \<Rightarrow> mem_mutation" where
  "resolved_mutation st mu =
     (case mu of
        Put key (VMemory after) d \<Rightarrow>
          (case map_option ent_value (bm_get (st_values st) key) of
             Some (VMemory before) \<Rightarrow>
               if coll_descriptor before = coll_descriptor after
               then Delta key (coll_descriptor after) (map snd (changed_edits before after)) d
               else from_storage mu
           | _ \<Rightarrow> from_storage mu)
      | _ \<Rightarrow> from_storage mu)"

definition resolved_memory_mutations :: "store \<Rightarrow> prepared \<Rightarrow> mem_mutation list" where
  "resolved_memory_mutations st p = map (resolved_mutation st) (batch_mutations (pr_batch p))"

definition removed_members :: "store \<Rightarrow> mutation \<Rightarrow> nat" where
  "removed_members st mu =
     (case mu of
        Put key (VMemory after) _ \<Rightarrow>
          (case map_option ent_value (bm_get (st_values st) key) of
             Some (VMemory before) \<Rightarrow>
               length (filter (\<lambda>(ident, _). bm_get (coll_members after) ident = None) (coll_members before))
           | _ \<Rightarrow> 0)
      | _ \<Rightarrow> 0)"

definition expired_memory_members :: "store \<Rightarrow> prepared \<Rightarrow> nat" where
  "expired_memory_members st p =
     (if batch_origin (pr_batch p) \<noteq> Expiration then 0
      else sum_list (map (removed_members st) (batch_mutations (pr_batch p))))"

end
