(* ===== verification/Memory_Delta.thy ===== *)
theory Memory_Delta
  imports Memory_Lifecycle Memory_Format_Correct
begin

text \<open>
  The guarded delta between two images of a collection: applied to the first it gives
  the second. It never fails on a size: edits of validated members cannot overflow the
  cached sums.
\<close>

section \<open>Sizes of validated members\<close>

lemma sum_list_le: "(\<And>x. x \<in> set xs \<Longrightarrow> f x \<le> (b :: nat)) \<Longrightarrow> sum_list (map f xs) \<le> length xs * b"
  by (induction xs) (auto simp: add_mono)

lemma member_sizes:
  assumes "validate_member m d = Inr ()"
  shows "member_logical_bytes m \<le> 1000000" "member_encoded_bytes m \<le> 1000000"
proof -
  note b = member_bounds [OF assms]
  have f: "length f \<le> 64 \<and> scalar_logical_bytes s \<le> 4096 \<and> scalar_encoded_bytes s \<le> 4101"
    if "(f, s) \<in> set (mem_metadata m)" for f s
    using bspec [OF b(8) that] by (cases s) auto
  have p: "length f \<le> 64 \<and> length v \<le> 4096" if "(f, v) \<in> set (mem_provenance m)" for f v
    using bspec [OF b(9) that] by auto
  have "sum_list (map (\<lambda>(f, s). 64 + length f + scalar_logical_bytes s) (mem_metadata m)) \<le> length (mem_metadata m) * 4300"
    "sum_list (map (\<lambda>(f, s). 4 + length f + scalar_encoded_bytes s) (mem_metadata m)) \<le> length (mem_metadata m) * 4300"
    "sum_list (map (\<lambda>(f, v). 64 + length f + length v) (mem_provenance m)) \<le> length (mem_provenance m) * 4300"
    "sum_list (map (\<lambda>(f, v). 8 + length f + length v) (mem_provenance m)) \<le> length (mem_provenance m) * 4300"
    by (rule sum_list_le; use f p in fastforce)+
  with b(1-7) show "member_logical_bytes m \<le> 1000000" "member_encoded_bytes m \<le> 1000000"
    by (simp_all add: member_logical_bytes_def member_encoded_bytes_def)
qed

lemma collection_sizes:
  assumes "collection_ok c" "validate_key c key = Inr ()"
  shows "coll_logical_bytes c \<le> 2000000000" "coll_encoded_bytes c \<le> 2000000000"
proof -
  have n: "length (coll_members c) \<le> 1024"
    using assms(2) by (simp add: validate_key_def too_many_components_def result_simps MAX_MEMBERS_def)
  have d: "descriptor_logical_bytes (coll_descriptor c) \<le> 2000" "descriptor_encoded_bytes (coll_descriptor c) \<le> 2000"
    using descriptor_bounds [of "coll_descriptor c"] assms(1)
    by (auto simp: collection_ok_def descriptor_logical_bytes_def descriptor_encoded_bytes_def)
  have v: "validate_member (snd x) (coll_descriptor c) = Inr ()" if "x \<in> set (coll_members c)" for x
    using that assms(1) by (auto simp: collection_ok_def members_ok_def)
  have "sum_list (map (member_logical_bytes \<circ> snd) (coll_members c)) \<le> length (coll_members c) * 1000000"
    "sum_list (map (member_encoded_bytes \<circ> snd) (coll_members c)) \<le> length (coll_members c) * 1000000"
    by (rule sum_list_le; use member_sizes [OF v] in simp)+
  with n d assms(1) show "coll_logical_bytes c \<le> 2000000000" "coll_encoded_bytes c \<le> 2000000000"
    by (simp_all add: collection_ok_def)
qed

section \<open>Applying edits never overflows\<close>

definition room_for :: "nat \<Rightarrow> collection \<Rightarrow> bool" where
  "room_for n c \<longleftrightarrow> coll_logical_bytes c + n * 1000000 \<le> USIZE_MAX \<and> coll_encoded_bytes c + n * 1000000 \<le> USIZE_MAX"

lemma drop_member_smaller:
  assumes "collection_ok c" "bm_get (coll_members c) k = Some m"
  shows "coll_logical_bytes (drop_member k m c) \<le> coll_logical_bytes c" "coll_encoded_bytes (drop_member k m c) \<le> coll_encoded_bytes c"
proof -
  note sums = sum_bm_remove [OF assms(2), of "\<lambda>x. member_logical_bytes (snd x)"]
    sum_bm_remove [OF assms(2), of "\<lambda>x. member_encoded_bytes (snd x)"]
  have "member_logical_bytes m \<le> coll_logical_bytes c" "member_encoded_bytes m \<le> coll_encoded_bytes c"
    "coll_logical_bytes c \<le> USIZE_MAX" "coll_encoded_bytes c \<le> USIZE_MAX"
    using assms(1) sums by (simp_all add: collection_ok_def comp_def)
  then show "coll_logical_bytes (drop_member k m c) \<le> coll_logical_bytes c" "coll_encoded_bytes (drop_member k m c) \<le> coll_encoded_bytes c"
    by (simp_all add: drop_member_def wrapping_sub_ok)
qed

lemma apply_edit_total:
  assumes c: "collection_ok c" "room_for (Suc n) c"
    and e: "\<And>m. e = Upsert m \<Longrightarrow> validate_member m (coll_descriptor c) = Inr ()"
      "\<And>ident. e = Remove ident \<Longrightarrow> bm_get (coll_members c) ident \<noteq> None"
  shows "\<exists>c'. apply_edit e c = Inr c' \<and> room_for n c'"
proof -
  define c1 where "c1 = (case bm_get (coll_members c) (edit_id e) of Some previous \<Rightarrow> drop_member (edit_id e) previous c | None \<Rightarrow> c)"
  have "coll_logical_bytes c1 \<le> coll_logical_bytes c \<and> coll_encoded_bytes c1 \<le> coll_encoded_bytes c"
    using drop_member_smaller [OF c(1)] by (auto simp: c1_def split: option.split)
  then have r: "room_for (Suc n) c1" using c(2) by (simp add: room_for_def)
  show ?thesis
  proof (cases e)
    case (Upsert m)
    note s = member_sizes [OF e(1) [OF Upsert]]
    have "apply_edit e c = add_member m c1" by (simp add: apply_edit_def Upsert c1_def split: option.split)
    with r s show ?thesis by (simp add: add_member_def checked_add_def room_for_def)
  next
    case (Remove ident)
    with e(2) have "apply_edit e c = Inr c1" by (auto simp: apply_edit_def Remove c1_def split: option.split)
    with r show ?thesis by (simp add: room_for_def)
  qed
qed

lemma apply_edit_list_total:
  assumes "collection_ok c" "room_for (length es) c" "distinct (map edit_id es)"
    and "\<And>m. Upsert m \<in> set es \<Longrightarrow> validate_member m (coll_descriptor c) = Inr ()"
    and "\<And>ident. Remove ident \<in> set es \<Longrightarrow> bm_get (coll_members c) ident \<noteq> None"
  shows "\<exists>c'. apply_edit_list es c = Inr c'"
  using assms
proof (induction es arbitrary: c)
  case (Cons e es)
  obtain c1 where c1: "apply_edit e c = Inr c1" "room_for (length es) c1"
    using apply_edit_total [OF Cons.prems(1), of "length es" e] Cons.prems(2,4,5) by auto
  have ok: "collection_ok c1" "coll_descriptor c1 = coll_descriptor c"
    "bm_get (coll_members c1) = edit_effect e (bm_get (coll_members c))"
    using apply_edit_ok [OF Cons.prems(1) c1(1)] Cons.prems(4) by auto
  have "bm_get (coll_members c1) ident \<noteq> None" if "Remove ident \<in> set es" for ident
  proof -
    have "edit_id (Remove ident) \<in> edit_id ` set es" using that by (rule imageI)
    moreover have "edit_id e \<notin> edit_id ` set es" using Cons.prems(3) by simp
    ultimately have "ident \<noteq> edit_id e" by force
    moreover have "bm_get (coll_members c) ident \<noteq> None" using Cons.prems(5) that by simp
    ultimately show ?thesis by (cases e) (simp_all add: ok(3))
  qed
  with Cons.IH [OF ok(1) c1(2)] Cons.prems(3,4) ok(2) have "\<exists>c'. apply_edit_list es c1 = Inr c'" by simp
  with c1(1) show ?case by simp
qed simp

lemma validate_edits_from_intro:
  assumes "sorted_wrt (<) (map edit_id es)" "\<And>e. e \<in> set es \<Longrightarrow> 1 \<le> length (edit_id e) \<and> length (edit_id e) \<le> 256"
    "\<And>m. Upsert m \<in> set es \<Longrightarrow> validate_member m d = Inr ()" "\<And>p e. previous = Some p \<Longrightarrow> e \<in> set es \<Longrightarrow> p < edit_id e"
  shows "validate_edits_from d previous es = Inr ()"
  using assms
proof (induction es arbitrary: previous)
  case (Cons e es)
  have "validate_edits_from d (Some (edit_id e)) es = Inr ()" by (rule Cons.IH) (use Cons.prems in auto)
  moreover have "(case e of Upsert m \<Rightarrow> validate_member m d | Remove _ \<Rightarrow> Inr ()) = Inr ()"
    using Cons.prems(3) by (cases e) auto
  moreover have "\<not> (case previous of None \<Rightarrow> False | Some ident \<Rightarrow> edit_id e \<le> ident)"
    using Cons.prems(4) [of _ e] by (auto split: option.split dest: leD)
  ultimately show ?case using Cons.prems(2) [of e] by (simp add: bounded_def)
qed simp

section \<open>The delta between two images\<close>

lemma fold_insert_if:
  "distinct (map fst xs) \<Longrightarrow>
   bm_get (fold (\<lambda>(i, x) acc. if P i x then bm_insert i (f i x) acc else acc) xs acc) k =
     (case map_of xs k of Some x \<Rightarrow> if P k x then Some (f k x) else bm_get acc k | None \<Rightarrow> bm_get acc k)"
proof (induction xs arbitrary: acc)
  case (Cons ix xs)
  obtain i x where ix: "ix = (i, x)" by (cases ix)
  have "map_of xs i = None" using Cons.prems by (simp add: ix map_of_eq_None_iff)
  with Cons.IH [of "if P i x then bm_insert i (f i x) acc else acc"] Cons.prems show ?case
    by (auto simp: ix split: option.split)
qed simp

lemma fold_insert_if_ok:
  "bm_ok acc \<Longrightarrow> bm_ok (fold (\<lambda>(i, x) acc. if P i x then bm_insert i (f i x) acc else acc) xs acc)"
  by (induction xs arbitrary: acc) (auto simp: case_prod_unfold)

definition delta_edit :: "collection \<Rightarrow> collection \<Rightarrow> bytes \<Rightarrow> edit option" where
  "delta_edit before after ident =
     (case bm_get (coll_members after) ident of
        Some m \<Rightarrow> if bm_get (coll_members before) ident \<noteq> Some m then Some (Upsert m) else None
      | None \<Rightarrow> if bm_get (coll_members before) ident \<noteq> None then Some (Remove ident) else None)"

lemma changed_edits_get:
  assumes "bm_ok (coll_members before)" "bm_ok (coll_members after)"
  shows "bm_ok (changed_edits before after)" "bm_get (changed_edits before after) = delta_edit before after"
proof -
  note d = bm_ok_distinct [OF assms(1)] bm_ok_distinct [OF assms(2)]
  have "bm_ok (removed_edits before after)" unfolding removed_edits_def by (rule fold_insert_if_ok) simp
  then show "bm_ok (changed_edits before after)" unfolding changed_edits_def by (rule fold_insert_if_ok)
  show "bm_get (changed_edits before after) = delta_edit before after"
    by (auto simp: fun_eq_iff changed_edits_def removed_edits_def fold_insert_if [OF d(1)] fold_insert_if [OF d(2)]
        delta_edit_def split: option.split)
qed

lemma fold_edit_effect:
  assumes "distinct (map edit_id es)"
  shows "fold edit_effect es f k =
    (case map_of (map (\<lambda>e. (edit_id e, e)) es) k of
       Some (Upsert m) \<Rightarrow> Some m | Some (Remove _) \<Rightarrow> None | None \<Rightarrow> f k)"
  using assms
proof (induction es arbitrary: f)
  case (Cons e es)
  have "map_of (map (\<lambda>e. (edit_id e, e)) es) (edit_id e) = None"
    using Cons.prems by (simp add: map_of_eq_None_iff image_image)
  moreover have "edit_effect e f k = (if k = edit_id e then (case e of Upsert m \<Rightarrow> Some m | Remove _ \<Rightarrow> None) else f k)"
    by (cases e) auto
  ultimately show ?case using Cons by (auto split: option.split edit.split)
qed simp

lemma collection_eqI:
  assumes "collection_ok c" "collection_ok c'" "coll_descriptor c = coll_descriptor c'" "coll_members c = coll_members c'"
  shows "c = c'"
  using assms by (cases c, cases c') (auto simp: collection_ok_def)

lemma changed_edits_apply:
  assumes before: "collection_ok before" "validate_key before key = Inr ()"
    and after: "collection_ok after" "validate_key after key = Inr ()" "coll_descriptor before = coll_descriptor after"
    and n: "length (changed_edits before after) \<le> MAX_EDITS"
  shows "apply_edits before (coll_descriptor after) (map snd (changed_edits before after)) key = Inr after"
proof -
  let ?es = "map snd (changed_edits before after)"
  have mb: "bm_ok (coll_members before)" "\<And>k m. bm_get (coll_members before) k = Some m \<Longrightarrow> mem_id m = k \<and> validate_member m (coll_descriptor after) = Inr ()"
    and ma: "bm_ok (coll_members after)" "\<And>k m. bm_get (coll_members after) k = Some m \<Longrightarrow> mem_id m = k \<and> validate_member m (coll_descriptor after) = Inr ()"
    using before(1) after(1,3) by (auto simp: collection_ok_def members_ok_iff)
  note ch = changed_edits_get [OF mb(1) ma(1)]
  have edit: "delta_edit before after i = Some e" if "(i, e) \<in> set (changed_edits before after)" for i e
    using that ch bm_get_mem [OF ch(1)] by metis
  have ids: "edit_id e = i \<and> 1 \<le> length i \<and> length i \<le> 256" if "(i, e) \<in> set (changed_edits before after)" for i e
    using edit [OF that] mb(2) [of i] ma(2) [of i] member_bounds(1)
    by (fastforce simp: delta_edit_def split: option.splits if_splits)
  have map_ids: "map edit_id ?es = map fst (changed_edits before after)" using ids by auto
  have srt: "sorted_wrt (<) (map edit_id ?es)" unfolding map_ids by (rule sorted_keys [OF ch(1)])
  have dist: "distinct (map edit_id ?es)" unfolding map_ids by (rule bm_ok_distinct [OF ch(1)])
  have ups: "validate_member m (coll_descriptor after) = Inr ()" if u: "Upsert m \<in> set ?es" for m
  proof -
    obtain i where "(i, Upsert m) \<in> set (changed_edits before after)" using u by auto
    from edit [OF this] ma(2) [of i] show ?thesis by (auto simp: delta_edit_def split: option.splits if_splits)
  qed
  have rem: "bm_get (coll_members before) ident \<noteq> None" if u: "Remove ident \<in> set ?es" for ident
  proof -
    obtain i where "(i, Remove ident) \<in> set (changed_edits before after)" using u by auto
    from edit [OF this] show ?thesis by (auto simp: delta_edit_def split: option.splits if_splits)
  qed
  have v: "validate_edits (coll_descriptor after) ?es = Inr ()"
  proof -
    have "validate_edits_from (coll_descriptor after) None ?es = Inr ()"
      by (rule validate_edits_from_intro [OF srt _ ups]) (use ids in auto)
    then show ?thesis using after(1) by (simp add: validate_edits_def collection_ok_def)
  qed
  have "room_for (length ?es) before"
    using collection_sizes [OF before] n by (simp add: room_for_def MAX_EDITS_def USIZE_MAX_def)
  then obtain c where c: "apply_edit_list ?es before = Inr c"
    using apply_edit_list_total [OF before(1) _ dist] ups rem after(3) by auto
  have ok: "collection_ok c" "coll_descriptor c = coll_descriptor before"
    "bm_get (coll_members c) = fold edit_effect ?es (bm_get (coll_members before))"
    using apply_edit_list_ok [OF before(1) c] ups after(3) by auto
  have "map (\<lambda>e. (edit_id e, e)) ?es = changed_edits before after" using ids by (auto intro!: map_idI)
  then have "bm_get (coll_members c) = bm_get (coll_members after)"
    by (auto simp: fun_eq_iff ok(3) fold_edit_effect [OF dist] ch(2) delta_edit_def split: option.split)
  then have "coll_members c = coll_members after"
    using ok(1) ma(1) by (intro bm_eqI) (auto simp: collection_ok_def members_ok_def)
  then have "c = after" using collection_eqI [OF ok(1) after(1)] ok(2) after(3) by simp
  with c v n after(2,3) show ?thesis by (simp add: apply_edits_def)
qed

end
