(* ===== verification/Memory_Lifecycle_Correct.thy ===== *)
theory Memory_Lifecycle_Correct
  imports Memory_Delta Replay_Correct
begin

text \<open>
  Memory commands: preparing and applying one is executing it in place, and what it logs
  replays to the same durable state.
\<close>

section \<open>On the shadow as in place\<close>

lemma apply_memory_edit_sim:
  assumes "sim K sh st" "key \<in> K"
  shows "sim_result K (apply_memory_edit t key c e sh) (apply_memory_edit t key c e st)"
  using assms insert_value_sim [OF assms] resolve_sim [OF assms] can_replace_sim [OF assms] sim_get [OF assms]
  by (auto simp: apply_memory_edit_def Let_def split: sum.split intro!: rel_bind)

abbreviation sim_outcome :: "bytes set \<Rightarrow> ('a \<times> 'b \<times> store) option \<Rightarrow> ('a \<times> 'b \<times> store) option \<Rightarrow> bool" where
  "sim_outcome K \<equiv> rel_option (rel_prod (=) (rel_prod (=) (sim K)))"

lemma memory_edit_sim:
  assumes "sim K sh st" "key \<in> K"
  shows "sim_outcome K (memory_edit t key oper c e sh) (memory_edit t key oper c e st)"
  using assms by (auto simp: memory_edit_def Let_def split: sum.split memory_decision.split
      intro!: rel_bind [OF apply_memory_edit_sim])

lemma memory_existing_sim:
  assumes "sim K sh st" "key \<in> K"
  shows "sim_outcome K (memory_existing t key oper c e sh) (memory_existing t key oper c e st)"
  using assms memory_edit_sim [OF assms]
  by (cases oper) (auto simp: memory_existing_def split: sum.split)

lemma memory_create_sim:
  assumes "sim K sh st" "key \<in> K"
  shows "sim_outcome K (memory_create t key d sh) (memory_create t key d st)"
  using assms insert_value_sim [OF assms] can_replace_sim [OF assms]
  by (auto simp: memory_create_def split: sum.split intro!: rel_bind)

lemma try_memory_inner_sim:
  assumes "sim K sh st" "key \<in> K"
  shows "sim_outcome K (try_memory_inner t key oper sh) (try_memory_inner t key oper st)"
proof (cases "memory_preflight key oper")
  case (Inl err)
  with assms show ?thesis by (simp add: try_memory_inner_def)
next
  case (Inr u)
  have "sim_outcome K
      (case bm_get (st_values s) key of
         None \<Rightarrow> (case oper of OpCreate d \<Rightarrow> memory_create t key d s | _ \<Rightarrow> Some (fst (memory_absent oper), snd (memory_absent oper), s))
       | Some e \<Rightarrow> (case ent_value e of VMemory c \<Rightarrow> memory_existing t key oper c e s | _ \<Rightarrow> Some (Inl EWrongType, None, s)))
      (case bm_get (st_values s') key of
         None \<Rightarrow> (case oper of OpCreate d \<Rightarrow> memory_create t key d s' | _ \<Rightarrow> Some (fst (memory_absent oper), snd (memory_absent oper), s'))
       | Some e \<Rightarrow> (case ent_value e of VMemory c \<Rightarrow> memory_existing t key oper c e s' | _ \<Rightarrow> Some (Inl EWrongType, None, s')))"
    if "sim K s s'" for s s'
    using that memory_create_sim [OF that assms(2)] memory_existing_sim [OF that assms(2)]
    by (auto simp: sim_get [OF that assms(2)] split: option.split operation.split value_split)
  then show ?thesis
    unfolding try_memory_inner_def Inr by (simp add: rel_bind [OF expire_key_sim [OF assms]])
qed

abbreviation sim_memory ::
  "bytes set \<Rightarrow> ('a \<times> 'b \<times> 'c \<times> store) option \<Rightarrow> ('a \<times> 'b \<times> 'c \<times> store) option \<Rightarrow> bool" where
  "sim_memory K \<equiv> rel_option (rel_prod (=) (rel_prod (=) (rel_prod (=) (sim K))))"

lemma memory_inner_sim:
  assumes "sim K sh st" "key \<in> K"
  shows "sim_memory K (memory_inner t key oper sh) (memory_inner t key oper st)"
  unfolding memory_inner_def
  by (rule rel_bind [OF try_memory_inner_sim [OF assms]]) (auto split: sum.split)

subsection \<open>Steps of the generation\<close>

lemma apply_memory_edit_evolves:
  "apply_memory_edit t key c e st = Some (r, st') \<Longrightarrow> evolves {key} 2 st st'"
  by (auto simp: apply_memory_edit_def Let_def bind_eq_Some_conv evolves_refl split: sum.splits intro: insert_value_evolves)

lemma memory_edit_evolves: "memory_edit t key oper c e st = Some (r, x, st') \<Longrightarrow> evolves {key} 2 st st'"
  by (auto simp: memory_edit_def Let_def bind_eq_Some_conv evolves_refl split: sum.splits memory_decision.splits
      intro: apply_memory_edit_evolves)

lemma memory_existing_evolves: "memory_existing t key oper c e st = Some (r, x, st') \<Longrightarrow> evolves {key} 2 st st'"
  by (cases oper) (auto simp: memory_existing_def evolves_refl split: sum.splits intro: memory_edit_evolves)

lemma memory_create_evolves: "memory_create t key d st = Some (r, x, st') \<Longrightarrow> evolves {key} 2 st st'"
  by (auto simp: memory_create_def bind_eq_Some_conv evolves_refl split: sum.splits intro: insert_value_evolves)

abbreviation outcome_mutation :: "execution_error + reply \<times> mem_mutation option \<Rightarrow> mem_mutation option" where
  "outcome_mutation res \<equiv> (case res of Inl _ \<Rightarrow> None | Inr x \<Rightarrow> snd x)"

abbreviation outcome_reply :: "execution_error + reply \<times> mem_mutation option \<Rightarrow> reply" where
  "outcome_reply res \<equiv> (case res of Inl err \<Rightarrow> RError err | Inr x \<Rightarrow> fst x)"

lemma memory_inner_outcome:
  "memory_inner t key oper st =
     map_option (\<lambda>(res, stats, st'). (outcome_reply res, outcome_mutation res, stats, st')) (try_memory_inner t key oper st)"
  by (cases "try_memory_inner t key oper st") (auto simp: memory_inner_def split: sum.split)

lemma memory_inner_evolves:
  assumes "memory_inner t key oper st = Some (r, mu, stats, st')"
  shows "evolves {key} 4 st st'"
proof -
  obtain res x where run: "try_memory_inner t key oper st = Some (res, x, st')"
    using assms by (auto simp: memory_inner_outcome)
  show ?thesis
  proof (cases "memory_preflight key oper")
    case (Inl err)
    with run show ?thesis by (simp add: try_memory_inner_def evolves_refl)
  next
    case (Inr u)
    then obtain st1 where 1: "expire_key (t_now t) key st = Some st1"
      and 2: "(case bm_get (st_values st1) key of
         None \<Rightarrow> (case oper of OpCreate d \<Rightarrow> memory_create t key d st1 | _ \<Rightarrow> Some (fst (memory_absent oper), snd (memory_absent oper), st1))
       | Some e \<Rightarrow> (case ent_value e of VMemory c \<Rightarrow> memory_existing t key oper c e st1 | _ \<Rightarrow> Some (Inl EWrongType, None, st1)))
        = Some (res, x, st')"
      using run by (auto simp: try_memory_inner_def bind_eq_Some_conv)
    have "evolves {key} 1 st st1" by (rule expire_key_evolves [OF 1]) simp
    moreover have "evolves {key} 2 st1 st'"
      using 2 by (auto simp: evolves_refl split: option.splits operation.splits value_splits
          intro: memory_create_evolves memory_existing_evolves)
    ultimately show ?thesis by (rule evolves_step) simp
  qed
qed

section \<open>What an operation does to its key\<close>

text \<open>The entry before (unless it had expired), the mutation that is logged, and the
  entry after.\<close>

definition memory_step :: "bytes \<Rightarrow> entry option \<Rightarrow> mem_mutation option \<Rightarrow> entry option \<Rightarrow> bool" where
  "memory_step key before mu after \<longleftrightarrow>
     (case mu of
        None \<Rightarrow> after = before
      | Some (Legacy _) \<Rightarrow> False
      | Some (Image k c d) \<Rightarrow> k = key \<and> d = None \<and> before = None \<and> collection_ok c \<and> validate_key c key = Inr ()
          \<and> (\<exists>e. after = Some e \<and> ent_value e = VMemory c \<and> ent_expires e = None \<and> ent_unix e = None)
      | Some (Delta k schema es d) \<Rightarrow> k = key
          \<and> (\<exists>e e' c c'. before = Some e \<and> ent_value e = VMemory c \<and> schema = coll_descriptor c \<and> d = ent_unix e
              \<and> apply_edits c schema es key = Inr c' \<and> after = Some e' \<and> ent_value e' = VMemory c'
              \<and> ent_expires e' = ent_expires e \<and> ent_unix e' = ent_unix e))"

text \<open>An entry written within \<open>n\<close> steps of the generation.\<close>

definition stamped :: "nat \<Rightarrow> store \<Rightarrow> store \<Rightarrow> bytes \<Rightarrow> bool" where
  "stamped n st st' key \<longleftrightarrow> (\<exists>e i. bm_get (st_values st') key = Some e \<and> ent_generation e = st_generation st + of_nat i \<and> i \<in> {1..n})"

definition memory_keeps :: "store \<Rightarrow> store \<Rightarrow> bool" where
  "memory_keeps st st' \<longleftrightarrow> store_ok st' \<and> st_quota st' = st_quota st \<and> st_used st' \<le> max (st_quota st) (st_used st)"

lemma memory_keeps_refl: "store_ok st \<Longrightarrow> memory_keeps st st"
  by (simp add: memory_keeps_def)

lemma insert_memory_ok:
  assumes ok: "store_ok st" and c: "collection_ok c" "validate_key c key = Inr ()" and room: "can_replace key (VMemory c) st"
    and ds: "resolve_member_deadlines t key (VMemory c) st = Inr ds"
  obtains st' where "insert_value t key (VMemory c) x st = Some st'" "memory_keeps st st'"
    "bm_get (st_values st') key = Some \<lparr>ent_value = VMemory c, ent_expires = map_option fst x, ent_unix = map_option snd x,
       ent_generation = st_generation st', ent_deadlines = ds\<rparr>" "stamped 2 st st' key"
proof -
  have v: "value_ok (VMemory c)" "memory_key_ok key (VMemory c)" using c by (simp_all add: memory_key_ok_def)
  note r = can_replace_room [OF ok v(1) room]
  obtain st' j where "insert_value t key (VMemory c) x st = Some st'" "store_ok st'"
    "st_values st' = bm_insert key \<lparr>ent_value = VMemory c, ent_expires = map_option fst x, ent_unix = map_option snd x,
       ent_generation = st_generation st', ent_deadlines = ds\<rparr> (st_values st)"
    "st_used st' = st_used st - key_size key st + entry_size key (VMemory c)"
    "st_generation st' = st_generation st + of_nat j" "1 \<le> j" "j \<le> 2" "st_quota st' = st_quota st"
    by (rule insert_value_ok [OF ok v r(2) ds])
  with r(1) that [of st'] show ?thesis by (auto simp: memory_keeps_def stamped_def)
qed

lemma entry_memory_ok:
  assumes "store_ok st" "bm_get (st_values st) key = Some e" "ent_value e = VMemory c"
  shows "collection_ok c" "validate_key c key = Inr ()" "ent_expires e = None \<longleftrightarrow> ent_unix e = None"
  using store_okD(4) [OF assms(1,2)] assms(3) by (auto simp: entry_ok_def memory_key_ok_def)

lemma entry_expiry_maps: "(ent_expires e = None \<longleftrightarrow> ent_unix e = None) \<Longrightarrow>
    map_option fst (entry_expiry e) = ent_expires e \<and> map_option snd (entry_expiry e) = ent_unix e"
  by (cases "ent_expires e"; cases "ent_unix e") (simp_all add: entry_expiry_def)

lemma apply_memory_edit_ok:
  assumes ok: "store_ok st" and e: "bm_get (st_values st) key = Some e" "ent_value e = VMemory c"
  obtains res st' where "apply_memory_edit t key c edit st = Some (res, st')" "memory_keeps st st'"
    "memory_step key (Some e) (case res of Inl _ \<Rightarrow> None | Inr mu \<Rightarrow> Some mu) (bm_get (st_values st') key)"
    "\<forall>mu. res = Inr mu \<longrightarrow> stamped 2 st st' key"
proof (cases "\<exists>c' ds. apply_edits c (coll_descriptor c) [edit] key = Inr c' \<and> can_replace key (VMemory c') st
    \<and> resolve_member_deadlines t key (VMemory c') st = Inr ds")
  case True
  then obtain c' ds where c': "apply_edits c (coll_descriptor c) [edit] key = Inr c'" "can_replace key (VMemory c') st"
    "resolve_member_deadlines t key (VMemory c') st = Inr ds"
    by blast
  note m = entry_memory_ok [OF ok e]
  have ok': "collection_ok c'" "validate_key c' key = Inr ()" using apply_edits_ok [OF m(1) c'(1)] by auto
  obtain st' where st': "insert_value t key (VMemory c') (entry_expiry e) st = Some st'" "memory_keeps st st'"
    "bm_get (st_values st') key = Some \<lparr>ent_value = VMemory c', ent_expires = map_option fst (entry_expiry e),
       ent_unix = map_option snd (entry_expiry e), ent_generation = st_generation st', ent_deadlines = ds\<rparr>"
    "stamped 2 st st' key"
    by (rule insert_memory_ok [OF ok ok' c'(2,3)])
  note x = entry_expiry_maps [OF m(3)]
  have "apply_memory_edit t key c edit st = Some (Inr (Delta key (coll_descriptor c) [edit] (ent_unix e)), st')"
    using c' st'(1) e(1) x by (simp add: apply_memory_edit_def)
  then show ?thesis
    using that [of "Inr (Delta key (coll_descriptor c) [edit] (ent_unix e))" st'] st' e(2) c'(1) x by (simp add: memory_step_def)
next
  case False
  let ?r = "res_bind (map_err memory_failure (apply_edits c (coll_descriptor c) [edit] key)) (\<lambda>candidate.
      res_bind (ensure (can_replace key (VMemory candidate) st) EOutOfMemory) (\<lambda>_.
      res_bind (map_err memory_failure (resolve_member_deadlines t key (VMemory candidate) st)) (\<lambda>_. Inr candidate)))"
  obtain err where "?r = Inl err"
  proof (cases ?r)
    case (Inr c')
    with False show ?thesis by (auto simp: result_simps)
  qed
  then have "apply_memory_edit t key c edit st = Some (Inl err, st)" by (simp add: apply_memory_edit_def)
  then show ?thesis using that [of "Inl err" st] e(1) memory_keeps_refl [OF ok] by (simp add: memory_step_def)
qed

lemma memory_edit_ok:
  assumes ok: "store_ok st" and e: "bm_get (st_values st) key = Some e" "ent_value e = VMemory c"
  obtains res x st' where "memory_edit t key oper c e st = Some (res, x, st')" "memory_keeps st st'"
    "memory_step key (Some e) (outcome_mutation res) (bm_get (st_values st') key)"
    "outcome_mutation res \<noteq> None \<longrightarrow> stamped 2 st st' key"
proof -
  let ?i = "operation_member oper" and ?x = "member_expired (t_now t) e (operation_member oper)"
  let ?d = "res_bind (ensure (\<not> (?i = [] \<or> length ?i > 256)) (EMemory memory_limit_exceeded)) (\<lambda>_.
      memory_decide t e c (opt_filter (\<lambda>_. \<not> ?x) (bm_get (coll_members c) ?i)) ?x oper)"
  show thesis
  proof (cases ?d)
    case (Inl err)
    then show ?thesis using that [of "Inl err" None st] memory_keeps_refl [OF ok] e(1)
      by (simp add: memory_edit_def Let_def memory_step_def)
  next
    case (Inr d)
    show ?thesis
    proof (cases d)
      case (Answer r)
      with Inr show ?thesis using that [of "Inr (r, None)" None st] memory_keeps_refl [OF ok] e(1)
        by (simp add: memory_edit_def Let_def memory_step_def)
    next
      case (Purge r)
      obtain res st' where *: "apply_memory_edit t key c (Remove ?i) st = Some (res, st')" "memory_keeps st st'"
        "memory_step key (Some e) (case res of Inl _ \<Rightarrow> None | Inr mu \<Rightarrow> Some mu) (bm_get (st_values st') key)"
        "\<forall>mu. res = Inr mu \<longrightarrow> stamped 2 st st' key"
        by (rule apply_memory_edit_ok [OF ok e, of t "Remove ?i"])
      from Inr Purge *(1) have "memory_edit t key oper c e st = Some (res_bind res (\<lambda>mu. Inr (r, Some mu)), None, st')"
        by (simp add: memory_edit_def Let_def)
      then show ?thesis by (rule that [OF _ *(2)]) (use *(3,4) in \<open>cases res; simp\<close>)+
    next
      case (Change edit)
      obtain res st' where *: "apply_memory_edit t key c edit st = Some (res, st')" "memory_keeps st st'"
        "memory_step key (Some e) (case res of Inl _ \<Rightarrow> None | Inr mu \<Rightarrow> Some mu) (bm_get (st_values st') key)"
        "\<forall>mu. res = Inr mu \<longrightarrow> stamped 2 st st' key"
        by (rule apply_memory_edit_ok [OF ok e, of t edit])
      from Inr Change *(1) have "memory_edit t key oper c e st = Some (res_bind res (\<lambda>mu. Inr (RInteger 1, Some mu)), None, st')"
        by (simp add: memory_edit_def Let_def)
      then show ?thesis by (rule that [OF _ *(2)]) (use *(3,4) in \<open>cases res; simp\<close>)+
    qed
  qed
qed

lemma memory_create_ok:
  assumes ok: "store_ok st" and e: "bm_get (st_values st) key = None"
  obtains res x st' where "memory_create t key d st = Some (res, x, st')" "memory_keeps st st'"
    "memory_step key None (outcome_mutation res) (bm_get (st_values st') key)"
    "outcome_mutation res \<noteq> None \<longrightarrow> stamped 2 st st' key"
proof -
  let ?r = "res_bind (map_err memory_failure (collection_new d)) (\<lambda>c.
      res_bind (map_err memory_failure (validate_key c key)) (\<lambda>_.
      res_bind (ensure (can_replace key (VMemory c) st) EOutOfMemory) (\<lambda>_. Inr c)))"
  show ?thesis
  proof (cases ?r)
    case (Inl err)
    then show ?thesis using that [of "Inl err" None st] e memory_keeps_refl [OF ok]
      by (simp add: memory_create_def memory_step_def)
  next
    case (Inr c)
    then have c: "collection_new d = Inr c" "validate_key c key = Inr ()" "can_replace key (VMemory c) st"
      by (auto simp: result_simps)
    have new: "collection_ok c" "coll_members c = []" using collection_new_ok [OF c(1)] by auto
    have "resolve_member_deadlines t key (VMemory c) st = Inr []" using new(2) by (simp add: resolve_member_deadlines_def)
    then obtain st' where st': "insert_value t key (VMemory c) None st = Some st'" "memory_keeps st st'"
      "bm_get (st_values st') key = Some \<lparr>ent_value = VMemory c, ent_expires = None, ent_unix = None,
         ent_generation = st_generation st', ent_deadlines = []\<rparr>" "stamped 2 st st' key"
      by (rule insert_memory_ok [OF ok new(1) c(2,3), where x = None, simplified])
    then show ?thesis using that [of "Inr (ROk, Some (Image key c None))" None st'] e Inr new(1) c(2)
      by (simp add: memory_create_def memory_step_def)
  qed
qed

lemma memory_existing_ok:
  assumes ok: "store_ok st" and e: "bm_get (st_values st) key = Some e" "ent_value e = VMemory c"
  obtains res x st' where "memory_existing t key oper c e st = Some (res, x, st')" "memory_keeps st st'"
    "memory_step key (Some e) (outcome_mutation res) (bm_get (st_values st') key)"
    "outcome_mutation res \<noteq> None \<longrightarrow> stamped 2 st st' key"
proof -
  note found = that
  have same: thesis if "memory_existing t key oper c e st = Some (res, x, st)" "outcome_mutation res = None" for res x
    using that e(1) memory_keeps_refl [OF ok] by (intro found [of res x st]) (simp_all add: memory_step_def)
  consider (create) d where "oper = OpCreate d" | (info) "oper = OpInfo"
    | (search) d v k ns md where "oper = OpSearch d v k ns md"
    | (edit) "memory_existing t key oper c e st = memory_edit t key oper c e st"
    by (cases oper) (auto simp: memory_existing_def)
  then show thesis
  proof cases
    case create
    then show ?thesis
      by (intro same [of "if coll_descriptor c = d then Inr (ROk, None) else Inl (EMemory ''ERR memory schema mismatch'')" None])
        (simp_all add: memory_existing_def)
  next
    case info
    then show ?thesis by (intro same [of "Inr (descriptor_reply (coll_descriptor c), None)" None]) (simp_all add: memory_existing_def)
  next
    case search
    then show ?thesis
    proof (cases "memory_search t e c d v k ns md")
      case (Inl err)
      with search show ?thesis by (intro same [of "Inl err" None]) (simp_all add: memory_existing_def)
    next
      case (Inr x)
      with search show ?thesis by (intro same [of "Inr (fst x, None)" "Some (snd x)"]) (simp_all add: memory_existing_def case_prod_unfold)
    qed
  next
    case edit
    obtain res x st' where "memory_edit t key oper c e st = Some (res, x, st')" "memory_keeps st st'"
      "memory_step key (Some e) (outcome_mutation res) (bm_get (st_values st') key)"
      "outcome_mutation res \<noteq> None \<longrightarrow> stamped 2 st st' key"
      by (rule memory_edit_ok [OF ok e, of t oper])
    with edit that show ?thesis by simp
  qed
qed

text \<open>The entry of a key, unless its deadline has passed.\<close>

abbreviation unexpired :: "int \<Rightarrow> store \<Rightarrow> bytes \<Rightarrow> entry option" where
  "unexpired now st key \<equiv> opt_filter (\<lambda>e. \<not> entry_expired now e) (bm_get (st_values st) key)"

lemma try_memory_inner_ok:
  assumes ok: "store_ok st"
  obtains res x st' where "try_memory_inner t key oper st = Some (res, x, st')" "memory_keeps st st'"
    "memory_step key (unexpired (t_now t) st key) (outcome_mutation res) (bm_get (st_values st') key)
      \<or> outcome_mutation res = None \<and> st' = st"
    "outcome_mutation res \<noteq> None \<longrightarrow> stamped 3 st st' key"
proof (cases "memory_preflight key oper")
  case (Inl err)
  then show ?thesis using that [of "Inl err" None st] memory_keeps_refl [OF ok] by (simp add: try_memory_inner_def)
next
  case (Inr u)
  obtain st1 j where 1: "expire_key (t_now t) key st = Some st1" "store_ok st1"
    "bm_get (st_values st1) = (bm_get (st_values st))(key := unexpired (t_now t) st key)"
    "st_used st1 \<le> st_used st" "st_quota st1 = st_quota st" "st_generation st1 = st_generation st + of_nat j" "j \<le> 1"
    by (rule expire_key_ok [OF ok])
  have get: "bm_get (st_values st1) key = unexpired (t_now t) st key" by (simp add: 1(3))
  have keeps: "memory_keeps st st'" if "memory_keeps st1 st'" for st' using that 1(4,5) by (auto simp: memory_keeps_def)
  note refl = keeps [OF memory_keeps_refl [OF 1(2)]]
  have stamp: "stamped 3 st st' key" if s: "stamped 2 st1 st' key" for st'
  proof -
    obtain e i where "bm_get (st_values st') key = Some e" "ent_generation e = st_generation st1 + of_nat i" "i \<in> {1..2}"
      using s by (auto simp: stamped_def)
    with 1(6,7) show ?thesis unfolding stamped_def by (intro exI [of _ e] exI [of _ "j + i"]) (auto simp: add.assoc)
  qed
  show ?thesis
  proof (cases "bm_get (st_values st1) key")
    case None
    show ?thesis
    proof (cases "\<exists>d. oper = OpCreate d")
      case True
      then obtain d where d: "oper = OpCreate d" by blast
      obtain res x st' where "memory_create t key d st1 = Some (res, x, st')" "memory_keeps st1 st'"
        "memory_step key None (outcome_mutation res) (bm_get (st_values st') key)"
        "outcome_mutation res \<noteq> None \<longrightarrow> stamped 2 st1 st' key"
        by (rule memory_create_ok [OF 1(2) None, of t d])
      then show ?thesis using that [of res x st'] keeps [of st'] stamp [of st'] Inr 1(1) None d by (simp add: try_memory_inner_def get)
    next
      case False
      then have "try_memory_inner t key oper st = Some (fst (memory_absent oper), snd (memory_absent oper), st1)"
        using Inr 1(1) None by (cases oper) (simp_all add: try_memory_inner_def)
      moreover have "outcome_mutation (fst (memory_absent oper)) = None" by (cases oper) simp_all
      ultimately show ?thesis using that [OF _ refl] None by (simp add: memory_step_def get)
    qed
  next
    case (Some e)
    show ?thesis
    proof (cases "\<exists>c. ent_value e = VMemory c")
      case True
      then obtain c where c: "ent_value e = VMemory c" by blast
      obtain res x st' where "memory_existing t key oper c e st1 = Some (res, x, st')" "memory_keeps st1 st'"
        "memory_step key (Some e) (outcome_mutation res) (bm_get (st_values st') key)"
        "outcome_mutation res \<noteq> None \<longrightarrow> stamped 2 st1 st' key"
        by (rule memory_existing_ok [OF 1(2) Some c, of t oper])
      then show ?thesis using that [of res x st'] keeps [of st'] stamp [of st'] Inr 1(1) Some c by (simp add: try_memory_inner_def get)
    next
      case False
      then have "try_memory_inner t key oper st = Some (Inl EWrongType, None, st1)"
        using Inr 1(1) Some by (auto simp: try_memory_inner_def split: value_split)
      then show ?thesis using that [OF _ refl] Some by (simp add: memory_step_def get)
    qed
  qed
qed

section \<open>Preparing and applying\<close>

lemma memory_shadow_sim:
  assumes "store_ok st"
  obtains sh where "memory_shadow key st = Some sh" "sim {key} sh st"
proof -
  obtain sh where sh: "shadow_base st = Some sh" "st_values sh = []" "st_used sh = st_used st"
    "st_generation sh = st_generation st" "st_quota sh = st_quota st"
    by (rule shadow_base_ok [OF assms])
  have "bm_ok (bm_insert key e [])" for e :: entry by simp
  with sh that show ?thesis
    using store_okD(1) [OF assms]
    by (cases "bm_get (st_values st) key") (auto simp: memory_shadow_def sim_def)
qed

lemma stamped_changed:
  assumes "stamped n st st' key" "headroom n st"
  shows "bm_get (st_values st) key \<noteq> bm_get (st_values st') key"
proof
  assume eq: "bm_get (st_values st) key = bm_get (st_values st') key"
  obtain e i where e: "bm_get (st_values st') key = Some e" "ent_generation e = st_generation st + of_nat i" "i \<in> {1..n}"
    using assms(1) by (auto simp: stamped_def)
  have "unat (ent_generation e) = unat (st_generation st) + i"
    using later_generation [of "st_generation st" n i] assms(2) e(2,3) by (simp add: headroom_def)
  moreover have "unat (ent_generation e) \<le> unat (st_generation st)"
    using assms(2) e(1) eq by (simp add: headroom_def word_le_nat_alt)
  ultimately show False using e(3) by simp
qed

lemma headroom_mono: "headroom n st \<Longrightarrow> m \<le> n \<Longrightarrow> headroom m st"
  by (auto simp: headroom_def)

text \<open>What is logged for a change of a key.\<close>

definition memory_logs :: "int \<Rightarrow> store \<Rightarrow> bytes \<Rightarrow> mem_mutation \<Rightarrow> entry option \<Rightarrow> bool" where
  "memory_logs now st key mu after \<longleftrightarrow>
     mu = Legacy (Delete key) \<and> after = None \<or> memory_step key (unexpired now st key) (Some mu) after"

lemma prepare_memory_cases:
  assumes ok: "store_ok st" and h: "headroom 4 st"
  obtains pm res x st' where "prepare_memory_with_limit t key oper limit st = Some pm"
    "try_memory_inner t key oper st = Some (res, x, st')" "memory_keeps st st'" "evolves {key} 4 st st'"
    "pm = \<lparr>pm_prepared = prepared_of (RError EAofRecordLimit) [] (memory_origin oper) st, pm_resolved = None, pm_stats = None\<rparr>
     \<or> pm_stats pm = x \<and> (\<exists>ks. pm_prepared pm = prepared_of (outcome_reply res) (postimages ks st') (memory_origin oper) st
         \<and> (if pm_resolved pm = None then ks = [] \<and> bm_get (st_values st') key = bm_get (st_values st) key
            else ks = [key] \<and> memory_logs (t_now t) st key (the (pm_resolved pm)) (bm_get (st_values st') key)))"
proof -
  obtain res x st' where run: "try_memory_inner t key oper st = Some (res, x, st')" "memory_keeps st st'"
    and step: "memory_step key (unexpired (t_now t) st key) (outcome_mutation res) (bm_get (st_values st') key)
      \<or> outcome_mutation res = None \<and> st' = st"
    and stamp: "outcome_mutation res \<noteq> None \<longrightarrow> stamped 3 st st' key"
    by (rule try_memory_inner_ok [OF ok])
  have inner: "memory_inner t key oper st = Some (outcome_reply res, outcome_mutation res, x, st')"
    by (simp add: memory_inner_outcome run(1))
  obtain sh where sh: "memory_shadow key st = Some sh" "sim {key} sh st" by (rule memory_shadow_sim [OF ok])
  have "sim_memory {key} (memory_inner t key oper sh) (memory_inner t key oper st)" by (rule memory_inner_sim [OF sh(2)]) simp
  then obtain sh' where sh': "memory_inner t key oper sh = Some (outcome_reply res, outcome_mutation res, x, sh')" "sim {key} sh' st'"
    unfolding inner by (cases "memory_inner t key oper sh") auto
  have ev: "evolves {key} 4 st st'" by (rule memory_inner_evolves [OF inner])
  let ?b = "bm_get (st_values st) key" and ?a = "bm_get (st_values st') key"
  have after: "bm_get (st_values sh') key = ?a" using sh'(2) by (simp add: sim_get)
  have tells: "map_option ent_generation ?b \<noteq> map_option ent_generation ?a \<longleftrightarrow> ?b \<noteq> ?a"
    by (rule generation_tells [OF store_okD(1) [OF ok] h ev])
  have chg: "?b \<noteq> ?a" if "outcome_mutation res \<noteq> None"
    using that stamp stamped_changed [of 3 st st' key] headroom_mono [OF h, of 3] by simp
  have gone: "?a = None" if "outcome_mutation res = None" "?b \<noteq> ?a"
    using step that by (cases ?b) (auto simp: memory_step_def split: if_splits)
  define resolved where "resolved = (if ?b \<noteq> ?a \<and> outcome_mutation res = None then Some (Legacy (Delete key)) else outcome_mutation res)"
  let ?pm = "\<lparr>pm_prepared = prepared_of (outcome_reply res) (if ?b \<noteq> ?a then [(key, ?a)] else []) (memory_origin oper) st,
      pm_resolved = resolved, pm_stats = x\<rparr>"
  let ?no = "\<lparr>pm_prepared = prepared_of (RError EAofRecordLimit) [] (memory_origin oper) st, pm_resolved = None, pm_stats = None\<rparr>"
  have prep: "prepare_memory_with_limit t key oper limit st
      = Some (if (case resolved of None \<Rightarrow> True | Some mu \<Rightarrow> memory_fits limit key ?a mu) then ?pm else ?no)"
    unfolding prepare_memory_with_limit_def sh(1) bind.bind_lunit sh'(1) Let_def prod.case after tells resolved_def by (rule refl)
  show ?thesis
  proof (cases "case resolved of None \<Rightarrow> True | Some mu \<Rightarrow> memory_fits limit key ?a mu")
    case False
    with that [OF _ run ev] prep show ?thesis by simp
  next
    case True
    let ?ks = "if ?b \<noteq> ?a then [key] else []"
    have pe: "prepare_memory_with_limit t key oper limit st = Some ?pm" unfolding prep using True by (simp only: if_True)
    have ks: "(if ?b \<noteq> ?a then [(key, ?a)] else []) = postimages ?ks st'" by (simp add: postimages_def)
    have "if resolved = None then ?ks = [] \<and> ?a = ?b
        else ?ks = [key] \<and> memory_logs (t_now t) st key (the resolved) ?a"
    proof (cases "outcome_mutation res")
      case None
      with gone [OF None] show ?thesis by (simp add: resolved_def memory_logs_def)
    next
      case (Some mu)
      with chg step show ?thesis by (simp add: resolved_def memory_logs_def)
    qed
    then show ?thesis
      by (intro that [OF pe run ev] disjI2 conjI exI [of _ ?ks]) (simp_all only: ks prepared_memory.simps)
  qed
qed

lemma prepare_memory_applies:
  assumes ok: "store_ok st" and h: "headroom 4 st" and p: "prepare_memory_with_limit t key oper limit st = Some pm"
  obtains st2 where "batch_ok st (pm_prepared pm)" "logged (pm_prepared pm) = map entry_mutation (pr_entries (pm_prepared pm))"
    "apply_memory pm st = Some (pr_reply (pm_prepared pm), st2)" "memory_keeps st st2"
    "case pm_resolved pm of None \<Rightarrow> pr_entries (pm_prepared pm) = []
      | Some mu \<Rightarrow> \<exists>after. pr_entries (pm_prepared pm) = [(key, after)] \<and> memory_logs (t_now t) st key mu after"
    "pr_reply (pm_prepared pm) = RError EAofRecordLimit \<and> stored st2 = stored st
      \<or> (\<exists>res x st'. try_memory_inner t key oper st = Some (res, x, st') \<and> pr_reply (pm_prepared pm) = outcome_reply res
          \<and> stored st2 = stored st')"
    "\<forall>k. k \<noteq> key \<longrightarrow> stored st2 k = stored st k"
proof -
  obtain pm' res x st' where c: "prepare_memory_with_limit t key oper limit st = Some pm'"
    "try_memory_inner t key oper st = Some (res, x, st')" "memory_keeps st st'" "evolves {key} 4 st st'"
    "pm' = \<lparr>pm_prepared = prepared_of (RError EAofRecordLimit) [] (memory_origin oper) st, pm_resolved = None, pm_stats = None\<rparr>
     \<or> pm_stats pm' = x \<and> (\<exists>ks. pm_prepared pm' = prepared_of (outcome_reply res) (postimages ks st') (memory_origin oper) st
         \<and> (if pm_resolved pm' = None then ks = [] \<and> bm_get (st_values st') key = bm_get (st_values st) key
            else ks = [key] \<and> memory_logs (t_now t) st key (the (pm_resolved pm')) (bm_get (st_values st') key)))"
    by (rule prepare_memory_cases [OF ok h])
  have pm: "pm' = pm" using p c(1) by simp
  have frame: "bm_get (st_values st') k = bm_get (st_values st) k" if "k \<noteq> key" for k
    using c(4) store_okD(1) [OF ok] that by (simp add: evolves_def)
  have ok': "store_ok st'" "st_used st' \<le> max (st_quota st) (st_used st)" using c(3) by (simp_all add: memory_keeps_def)
  have others: "\<forall>k. k \<noteq> key \<longrightarrow> stored st' k = stored st k" using frame by (simp add: stored_def)
  consider (limit) "pm = \<lparr>pm_prepared = prepared_of (RError EAofRecordLimit) [] (memory_origin oper) st, pm_resolved = None, pm_stats = None\<rparr>"
    | (none) "pm_prepared pm = prepared_of (outcome_reply res) (postimages [] st') (memory_origin oper) st" "pm_resolved pm = None"
        "bm_get (st_values st') key = bm_get (st_values st) key"
    | (some) mu where "pm_prepared pm = prepared_of (outcome_reply res) (postimages [key] st') (memory_origin oper) st"
        "pm_resolved pm = Some mu" "memory_logs (t_now t) st key mu (bm_get (st_values st') key)"
    using c(5) unfolding pm by (auto split: if_splits)
  then show ?thesis
  proof cases
    case limit
    obtain st2 where st2: "batch_ok st (pm_prepared pm)" "apply_prepared (pm_prepared pm) st = Some (pr_reply (pm_prepared pm), st2)"
      "store_ok st2" "st_quota st2 = st_quota st" "st_used st2 = st_used st" "stored st2 = stored st"
      by (rule apply_postimages [OF ok ok, of "[]" "pm_prepared pm"]) (simp_all add: limit postimages_def)
    then have "memory_keeps st st2" by (simp add: memory_keeps_def)
    with st2 show ?thesis by (intro that [of st2]) (simp_all add: limit apply_memory_def)
  next
    case none
    have fr: "bm_get (st_values st') k = bm_get (st_values st) k" if "k \<notin> set []" for k using frame none(3) by (cases "k = key") auto
    obtain st2 where st2: "batch_ok st (pm_prepared pm)" "apply_prepared (pm_prepared pm) st = Some (pr_reply (pm_prepared pm), st2)"
      "store_ok st2" "st_quota st2 = st_quota st" "st_used st2 = st_used st'" "stored st2 = stored st'"
      by (rule apply_postimages [OF ok ok'(1) _ fr, where p = "pm_prepared pm"]) (simp_all add: none)
    then have "memory_keeps st st2" using ok'(2) by (simp add: memory_keeps_def)
    with st2 show ?thesis using c(2) others by (intro that [of st2]) (simp_all add: none apply_memory_def postimages_def)
  next
    case some
    have fr: "bm_get (st_values st') k = bm_get (st_values st) k" if "k \<notin> set [key]" for k using frame that by simp
    obtain st2 where st2: "batch_ok st (pm_prepared pm)" "apply_prepared (pm_prepared pm) st = Some (pr_reply (pm_prepared pm), st2)"
      "store_ok st2" "st_quota st2 = st_quota st" "st_used st2 = st_used st'" "stored st2 = stored st'"
      by (rule apply_postimages [OF ok ok'(1) _ fr, where p = "pm_prepared pm"]) (simp_all add: some)
    then have "memory_keeps st st2" using ok'(2) by (simp add: memory_keeps_def)
    with st2 show ?thesis using c(2) others by (intro that [of st2]) (simp_all add: some apply_memory_def postimages_def)
  qed
qed

section \<open>Replaying what was logged\<close>

lemma mirrors_memory:
  assumes "mirrors t s st" "bm_get (st_values st) key = Some e" "ent_value e = VMemory c"
  shows "map_option ent_value (bm_get (st_values s) key) = Some (VMemory c)"
proof -
  have "durable t st key = Some (VMemory c, ent_unix e)" using assms(2,3) by (simp add: durable_def elapsed_def)
  then have "durable t s key = Some (VMemory c, ent_unix e)" using assms(1) by (simp add: mirrors_def)
  then show ?thesis by (auto simp: durable_def result_simps)
qed

lemma replay_image_logged:
  assumes "mirrors t s st" "memory_logs now st key mu after"
  shows "replay_image s mu = Inr (entry_mutation (key, after)) \<and> mem_key mu = key"
proof (cases "mu = Legacy (Delete key) \<and> after = None")
  case False
  then have step: "memory_step key (unexpired now st key) (Some mu) after" using assms(2) by (auto simp: memory_logs_def)
  show ?thesis
  proof (cases mu)
    case (Delta k schema es d)
    with step obtain e e' c c' where e: "bm_get (st_values st) key = Some e" "ent_value e = VMemory c"
      "schema = coll_descriptor c" "d = ent_unix e" "k = key" "apply_edits c schema es key = Inr c'"
      "after = Some e'" "ent_value e' = VMemory c'" "ent_unix e' = ent_unix e"
      by (auto simp: memory_step_def result_simps)
    with Delta mirrors_memory [OF assms(1) e(1,2)] show ?thesis by (auto simp: replay_image_def)
  qed (use step in \<open>auto simp: memory_step_def replay_image_def\<close>)
qed (simp add: replay_image_def)

lemma from_storage_image:
  assumes "\<And>key c d. mu = Put key (VMemory c) d \<Longrightarrow> validate_key c key = Inr ()"
  shows "replay_image s (from_storage mu) = Inr mu \<and> mem_key (from_storage mu) = mutation_key mu"
proof (cases mu)
  case (Put key v d)
  with assms show ?thesis by (cases v) (simp_all add: replay_image_def)
qed (simp add: replay_image_def)

fun delta_bounded :: "mem_mutation \<Rightarrow> bool" where
  "delta_bounded (Delta _ _ es _) = (length es \<le> MAX_EDITS)"
| "delta_bounded _ = True"

lemma replay_image_resolved:
  assumes m: "mirrors t s st" and e: "\<And>e. after = Some e \<Longrightarrow> entry_ok key e"
    and n: "delta_bounded (resolved_mutation st (entry_mutation (key, after)))"
  shows "replay_image s (resolved_mutation st (entry_mutation (key, after))) = Inr (entry_mutation (key, after))
    \<and> mem_key (resolved_mutation st (entry_mutation (key, after))) = key"
proof (cases "\<exists>e c b. after = Some e \<and> ent_value e = VMemory c
    \<and> map_option ent_value (bm_get (st_values st) key) = Some (VMemory b) \<and> coll_descriptor b = coll_descriptor c")
  case True
  then obtain x c y b where x: "after = Some x" "ent_value x = VMemory c" and y: "bm_get (st_values st) key = Some y" "ent_value y = VMemory b"
    and d: "coll_descriptor b = coll_descriptor c"
    by auto
  have ok: "store_ok st" using m by (simp add: mirrors_def)
  note b = entry_memory_ok [OF ok y]
  have c: "collection_ok c" "validate_key c key = Inr ()" using e [OF x(1)] x(2) by (auto simp: entry_ok_def memory_key_ok_def)
  have r: "resolved_mutation st (entry_mutation (key, after)) = Delta key (coll_descriptor c) (map snd (changed_edits b c)) (ent_unix x)"
    using x y d by (simp add: resolved_mutation_def)
  have "apply_edits b (coll_descriptor c) (map snd (changed_edits b c)) key = Inr c"
    by (rule changed_edits_apply [OF b(1,2) c d]) (use n r in simp)
  with r x mirrors_memory [OF m y] show ?thesis by (auto simp: replay_image_def)
next
  case False
  then have r: "resolved_mutation st (entry_mutation (key, after)) = from_storage (entry_mutation (key, after))"
    by (cases after) (auto simp: resolved_mutation_def split: value_splits option.splits)
  have "validate_key c k = Inr ()" if "entry_mutation (key, after) = Put k (VMemory c) d" for k c d
    using that e by (cases after) (auto simp: entry_ok_def memory_key_ok_def)
  with from_storage_image [of "entry_mutation (key, after)" s] show ?thesis unfolding r by simp
qed

lemma replay_images_all:
  "list_all2 (\<lambda>mu image. replay_image s mu = Inr image) ms images \<Longrightarrow> distinct (map mem_key ms) \<Longrightarrow>
   set (map mem_key ms) \<inter> set keys = {} \<Longrightarrow> replay_images s keys ms = Inr images"
  by (induction ms images arbitrary: keys rule: list_all2_induct) auto

text \<open>A batch in the notation of record version 2 replays like the batch it stands for.\<close>

lemma replay_memory_mirrors:
  assumes m: "mirrors t s st" and b: "batch_ok st p" and l: "logged p = map entry_mutation (pr_entries p)"
    and a: "apply_prepared p st = Some (r, st2)" and q: "st_used st2 \<le> st_quota st2"
    and c: "clock_ok t" and i: "\<forall>mu\<in>set (logged p). deadlines_i64 mu"
    and ms: "list_all2 (\<lambda>mu ke. replay_image s mu = Inr (entry_mutation ke) \<and> mem_key mu = fst ke) ms (pr_entries p)"
  shows "replay_images s [] ms = Inr (logged p) \<and> (\<exists>s2. replay_memory t ms s = Inr (Some s2) \<and> mirrors t s2 st2)"
proof -
  obtain s2 where s2: "replay t (logged p) s = Inr (Some s2)" "mirrors t s2 st2"
    using replay_mirrors [OF m b l a q c i] by blast
  have "map mem_key ms = map fst (pr_entries p)" using ms by (induction rule: list_all2_induct) auto
  then have "distinct (map mem_key ms)" using b by (simp add: batch_ok_def)
  moreover have "list_all2 (\<lambda>mu image. replay_image s mu = Inr image) ms (logged p)"
    unfolding l list_all2_map2 using ms by (rule list_all2_mono) simp
  ultimately have images: "replay_images s [] ms = Inr (logged p)" using replay_images_all [of s ms "logged p" "[]"] by simp
  then have "replay_memory t ms s = replay t (logged p) s"
    by (simp add: replay_memory_def prepare_memory_replay_def replay_def)
  with s2 images show ?thesis by simp
qed

lemma resolved_batch_images:
  assumes m: "mirrors t s st" and b: "batch_ok st p" and l: "logged p = map entry_mutation (pr_entries p)"
    and n: "list_all delta_bounded (resolved_memory_mutations st p)"
  shows "list_all2 (\<lambda>mu ke. replay_image s mu = Inr (entry_mutation ke) \<and> mem_key mu = fst ke)
    (resolved_memory_mutations st p) (pr_entries p)"
proof -
  have eq: "resolved_memory_mutations st p = map (\<lambda>ke. resolved_mutation st (entry_mutation ke)) (pr_entries p)"
    using l by (simp add: resolved_memory_mutations_def logged_def comp_def)
  have "replay_image s (resolved_mutation st (entry_mutation ke)) = Inr (entry_mutation ke)
      \<and> mem_key (resolved_mutation st (entry_mutation ke)) = fst ke" if ke: "ke \<in> set (pr_entries p)" for ke
  proof -
    obtain k after where kea: "ke = (k, after)" by (cases ke)
    have "delta_bounded (resolved_mutation st (entry_mutation (k, after)))"
      using n ke unfolding eq kea by (auto simp: list_all_iff)
    with replay_image_resolved [OF m, of after k] b ke show ?thesis by (auto simp: kea batch_ok_def)
  qed
  then show ?thesis unfolding eq list_all2_map1 by (auto intro: list.rel_refl_strong)
qed

end
