(* ===== verification/Memory_Commands.thy ===== *)
theory Memory_Commands
  imports Memory_Lifecycle_Correct
begin

text \<open>
  What the memory commands promise, on the members of a collection that have not
  expired: a specification of every operation and the proof that preparing and
  applying an operation implements it.
\<close>

section \<open>The visible collection of a key\<close>

type_synonym memory_view = "(descriptor \<times> (bytes, member) btree_map) option"

definition live_members :: "int \<Rightarrow> entry \<Rightarrow> collection \<Rightarrow> (bytes, member) btree_map" where
  "live_members now e c = filter (\<lambda>(ident, _). \<not> member_expired now e ident) (coll_members c)"

definition memory_view :: "int \<Rightarrow> entry option \<Rightarrow> memory_view" where
  "memory_view now x =
     (case x of
        None \<Rightarrow> None
      | Some e \<Rightarrow> (case ent_value e of VMemory c \<Rightarrow> Some (coll_descriptor c, live_members now e c) | _ \<Rightarrow> None))"

definition key_view :: "int \<Rightarrow> store \<Rightarrow> bytes \<Rightarrow> memory_view" where
  "key_view now st key = memory_view now (unexpired now st key)"

section \<open>Specification\<close>

fun ttl_absolute :: "sample \<Rightarrow> ttl \<Rightarrow> member option \<Rightarrow> int option" where
  "ttl_absolute t TtlPersistent old = None"
| "ttl_absolute t TtlKeep old = Option.bind old mem_deadline"
| "ttl_absolute t (TtlAfter milliseconds) old = Some (t_unix t + milliseconds)"

definition nearest :: "sample \<Rightarrow> bytes \<Rightarrow> nat \<Rightarrow> bytes \<Rightarrow> (bytes, scalar) btree_map \<Rightarrow> member list \<Rightarrow> reply" where
  "nearest t vector k namespace metadata ms =
     RArray (map (\<lambda>(distance, ident). hit_reply (ident, distance))
       (take k (sort_key hit_key (map (\<lambda>m. (squared_distance vector (mem_vector m), mem_id m))
          (filter (matches_member namespace metadata (t_unix t) (\<lambda>_. True)) ms)))))"

fun spec_memory :: "sample \<Rightarrow> (member \<Rightarrow> reply) \<Rightarrow> operation \<Rightarrow> memory_view \<Rightarrow> (reply \<times> memory_view) option" where
  "spec_memory t pttl (OpCreate d) None = Some (ROk, Some (d, []))"
| "spec_memory t pttl (OpCreate d) (Some (s, ms)) = (if d = s then Some (ROk, Some (s, ms)) else None)"
| "spec_memory t pttl (OpPut d m ttl cond) None = None"
| "spec_memory t pttl (OpPut d m ttl cond) (Some (s, ms)) =
     (let old = bm_get ms (mem_id m)
      in if cond = Missing \<and> old \<noteq> None \<or> cond = Present \<and> old = None then Some (RInteger 0, Some (s, ms))
         else Some (RInteger 1, Some (s, bm_insert (mem_id m) (m\<lparr>mem_deadline := ttl_absolute t ttl old\<rparr>) ms)))"
| "spec_memory t pttl OpInfo v = Some (case v of None \<Rightarrow> RBulk None | Some (s, _) \<Rightarrow> descriptor_reply s, v)"
| "spec_memory t pttl (OpSearch d vector k namespace metadata) v =
     Some (case v of None \<Rightarrow> RArray [] | Some (_, ms) \<Rightarrow> nearest t vector k namespace metadata (map snd ms), v)"
| "spec_memory t pttl (OpGet ident) None = Some (RBulk None, None)"
| "spec_memory t pttl (OpGet ident) (Some (s, ms)) =
     Some (case bm_get ms ident of None \<Rightarrow> RBulk None | Some m \<Rightarrow> member_reply m, Some (s, ms))"
| "spec_memory t pttl (OpPttl ident) None = Some (RInteger (- 2), None)"
| "spec_memory t pttl (OpPttl ident) (Some (s, ms)) =
     Some (case bm_get ms ident of None \<Rightarrow> RInteger (- 2) | Some m \<Rightarrow> pttl m, Some (s, ms))"
| "spec_memory t pttl oper None = Some (RInteger 0, None)"
| "spec_memory t pttl (OpDelete ident) (Some (s, ms)) =
     (if bm_get ms ident = None then Some (RInteger 0, Some (s, ms)) else Some (RInteger 1, Some (s, bm_remove ident ms)))"
| "spec_memory t pttl (OpExpire ident milliseconds) (Some (s, ms)) =
     (case bm_get ms ident of
        None \<Rightarrow> Some (RInteger 0, Some (s, ms))
      | Some m \<Rightarrow> Some (RInteger 1, Some (s,
          if milliseconds \<le> 0 then bm_remove ident ms
          else bm_insert ident (m\<lparr>mem_deadline := Some (t_unix t + milliseconds)\<rparr>) ms)))"
| "spec_memory t pttl (OpPersist ident) (Some (s, ms)) =
     (case bm_get ms ident of
        None \<Rightarrow> Some (RInteger 0, Some (s, ms))
      | Some m \<Rightarrow> if mem_deadline m = None then Some (RInteger 0, Some (s, ms))
          else Some (RInteger 1, Some (s, bm_insert ident (m\<lparr>mem_deadline := None\<rparr>) ms)))"

text \<open>The two clocks agree on what has expired.\<close>

definition clocks_agree :: "sample \<Rightarrow> entry option \<Rightarrow> bool" where
  "clocks_agree t x \<longleftrightarrow>
     (\<forall>e c ident m a. x = Some e \<longrightarrow> ent_value e = VMemory c \<longrightarrow> bm_get (coll_members c) ident = Some m \<longrightarrow>
        mem_deadline m = Some a \<longrightarrow> member_expired (t_now t) e ident \<longrightarrow> a \<le> t_unix t)"

section \<open>Deadlines after an edit\<close>

lemma resolve_members_get:
  "resolve_members previous t ms acc = Inr ds \<Longrightarrow> distinct (map fst ms) \<Longrightarrow>
   case Option.bind (map_of ms i) mem_deadline of
     None \<Rightarrow> bm_get ds i = bm_get acc i
   | Some a \<Rightarrow> \<exists>d. member_deadline previous t i a = Inr d \<and> bm_get ds i = Some d"
proof (induction previous t ms acc arbitrary: ds rule: resolve_members.induct)
  case (2 previous t j m ms acc)
  have none: "map_of ms j = None" using "2.prems"(2) by (simp add: map_of_eq_None_iff)
  show ?case
  proof (cases "mem_deadline m")
    case None
    with 2 none show ?thesis by (cases "i = j") auto
  next
    case (Some a)
    with "2.prems" obtain d where d: "member_deadline previous t j a = Inr d"
      "resolve_members previous t ms (bm_insert j d acc) = Inr ds"
      by (auto simp: result_simps)
    have "case Option.bind (map_of ms i) mem_deadline of None \<Rightarrow> bm_get ds i = bm_get (bm_insert j d acc) i
        | Some a \<Rightarrow> \<exists>d. member_deadline previous t i a = Inr d \<and> bm_get ds i = Some d"
      using "2.IH"(2) [OF Some d] "2.prems"(2) by simp
    with Some d(1) none show ?thesis by (cases "i = j") (auto split: option.split)
  qed
qed simp

lemma member_deadline_cases:
  assumes "member_deadline previous t i a = Inr d"
  shows "retained_deadline previous i a = Some d \<or> retained_deadline previous i a = None \<and> (a \<le> t_unix t \<and> d = t_now t \<or> t_unix t < a \<and> t_now t < d)"
proof (cases "retained_deadline previous i a")
  case None
  have "t_now t < d" if "t_unix t < a"
  proof -
    have "instant_checked_add (t_now t) (duration_from_millis (a - t_unix t)) = Some d"
      using assms None that by (auto simp: member_deadline_def Let_def result_simps)
    with that show ?thesis by (auto simp: instant_checked_add_def duration_from_millis_def NANOS_PER_MILLI_def split: if_splits)
  qed
  with None assms show ?thesis by (cases "a \<le> t_unix t") (auto simp: member_deadline_def)
qed (use assms in \<open>simp add: member_deadline_def\<close>)

lemma live_members_get:
  "bm_ok (coll_members c) \<Longrightarrow> bm_ok (live_members now e c)
    \<and> bm_get (live_members now e c) i = (if member_expired now e i then None else bm_get (coll_members c) i)"
proof -
  have "map_of (filter (\<lambda>(k, _). P k) xs) i = (if P i then map_of xs i else None)" for P and xs :: "(bytes \<times> member) list"
    by (induction xs) auto
  moreover have "bm_ok xs \<Longrightarrow> bm_ok (filter P xs)" for P and xs :: "(bytes, member) btree_map"
    by (induction xs) auto
  ultimately show "bm_ok (coll_members c) \<Longrightarrow> ?thesis" by (simp add: live_members_def)
qed

fun edit_members :: "edit \<Rightarrow> (bytes, member) btree_map \<Rightarrow> (bytes, member) btree_map" where
  "edit_members (Upsert m) ms = bm_insert (mem_id m) m ms"
| "edit_members (Remove ident) ms = bm_remove ident ms"

text \<open>A deadline an operation may give a member: none, one in the future, or the one it has.\<close>

definition deadline_sound :: "sample \<Rightarrow> (bytes, member) btree_map \<Rightarrow> edit \<Rightarrow> bool" where
  "deadline_sound t ms edit \<longleftrightarrow>
     (\<forall>m a. edit = Upsert m \<longrightarrow> mem_deadline m = Some a \<longrightarrow> a > t_unix t
        \<or> (\<exists>m'. bm_get ms (mem_id m) = Some m' \<and> mem_deadline m' = Some a))"

lemma edited_view:
  assumes ok: "store_ok st" and e: "bm_get (st_values st) key = Some e" "ent_value e = VMemory c"
    and c': "apply_edits c (coll_descriptor c) [edit] key = Inr c'"
    and ds: "resolve_member_deadlines t key (VMemory c') st = Inr ds"
    and s: "deadline_sound t (live_members (t_now t) e c) edit" and agree: "clocks_agree t (Some e)"
  shows "filter (\<lambda>(i, _). \<not> (case bm_get ds i of None \<Rightarrow> False | Some d \<Rightarrow> d \<le> t_now t)) (coll_members c')
    = edit_members edit (live_members (t_now t) e c)" (is "?l = ?r")
proof (rule bm_eqI)
  have cok: "collection_ok c" "bm_ok (coll_members c)" using entry_memory_ok [OF ok e] by (simp_all add: collection_ok_def members_ok_def)
  have c'ok: "collection_ok c'" "bm_ok (coll_members c')" "bm_get (coll_members c') = edit_effect edit (bm_get (coll_members c))"
    using apply_edits_ok [OF cok(1) c'] by (auto simp: collection_ok_def members_ok_def)
  define e' where "e' = e\<lparr>ent_deadlines := ds\<rparr>"
  have l: "?l = live_members (t_now t) e' c'" by (simp add: live_members_def member_expired_def e'_def)
  note L = live_members_get [OF cok(2), of "t_now t" e] live_members_get [OF c'ok(2), of "t_now t" e']
  show "bm_ok ?l" unfolding l using L by blast
  show "bm_ok ?r" using L by (cases edit) auto
  have res: "case Option.bind (bm_get (coll_members c') i) mem_deadline of None \<Rightarrow> bm_get ds i = None
      | Some a \<Rightarrow> \<exists>d. member_deadline (Some e) t i a = Inr d \<and> bm_get ds i = Some d" for i
    using resolve_members_get [of "Some e" t "coll_members c'" "[]" ds i] ds e bm_ok_distinct [OF c'ok(2)]
    by (simp add: resolve_member_deadlines_def split: option.splits)
  have ids: "fst ` set (ent_deadlines e) = deadline_ids (ent_value e)"
    using store_okD(4) [OF ok e(1)] by (simp add: entry_ok_def)
  have retained: "retained_deadline (Some e) i a = bm_get (ent_deadlines e) i" if "Option.bind (bm_get (coll_members c) i) mem_deadline = Some a" for i a
    using that e(2) by (auto simp: retained_deadline_def bind_eq_Some_conv)
  have has: "\<exists>d. bm_get (ent_deadlines e) i = Some d" if "Option.bind (bm_get (coll_members c) i) mem_deadline = Some a" for i a
  proof -
    have "i \<in> fst ` set (ent_deadlines e)" using that by (auto simp: ids e(2) deadline_ids_def bind_eq_Some_conv)
    then show ?thesis by (metis map_of_eq_None_iff not_None_eq)
  qed
  have none: "bm_get (ent_deadlines e) i = None" if "Option.bind (bm_get (coll_members c) i) mem_deadline = None" for i
  proof -
    have "i \<notin> fst ` set (ent_deadlines e)" using that by (auto simp: ids e(2) deadline_ids_def split: option.splits)
    then show ?thesis by (simp add: map_of_eq_None_iff)
  qed
  have others: "member_expired (t_now t) e' i = member_expired (t_now t) e i" if i: "i \<noteq> edit_id edit" for i
  proof -
    have "bm_get (coll_members c') i = bm_get (coll_members c) i" using i c'ok(3) by (cases edit) auto
    with res [of i] retained [of i] has [of i] none [of i] show ?thesis
      by (cases "Option.bind (bm_get (coll_members c) i) mem_deadline")
        (auto simp: member_expired_def e'_def member_deadline_def)
  qed
  have fresh: "\<not> member_expired (t_now t) e' (mem_id m)" if m: "edit = Upsert m" for m
  proof (cases "mem_deadline m")
    case None
    with res [of "mem_id m"] m c'ok(3) show ?thesis by (simp add: member_expired_def e'_def)
  next
    case (Some a)
    let ?old = "Option.bind (bm_get (coll_members c) (mem_id m)) mem_deadline"
    obtain d where d: "member_deadline (Some e) t (mem_id m) a = Inr d" "bm_get ds (mem_id m) = Some d"
      using res [of "mem_id m"] m c'ok(3) Some by auto
    have "t_now t < d"
    proof (cases "?old = Some a")
      case True
      then obtain m0 where m0: "bm_get (coll_members c) (mem_id m) = Some m0" "mem_deadline m0 = Some a" by (auto simp: bind_eq_Some_conv)
      have old: "bm_get (ent_deadlines e) (mem_id m) = Some d"
        using retained [OF True] has [OF True] d(1) by (auto simp: member_deadline_def)
      have "\<not> member_expired (t_now t) e (mem_id m)"
      proof
        assume x: "member_expired (t_now t) e (mem_id m)"
        then have "a \<le> t_unix t" using agree e(2) m0 unfolding clocks_agree_def by blast
        moreover have "bm_get (live_members (t_now t) e c) (mem_id m) = None" using L(1) [of "mem_id m"] x by simp
        ultimately show False using s m Some by (auto simp: deadline_sound_def)
      qed
      with old show ?thesis by (simp add: member_expired_def)
    next
      case False
      then have "retained_deadline (Some e) (mem_id m) a = None"
        using e(2) by (auto simp: retained_deadline_def split: option.splits)
      moreover have "a > t_unix t"
      proof (rule ccontr)
        assume "\<not> t_unix t < a"
        then obtain m' where "bm_get (live_members (t_now t) e c) (mem_id m) = Some m'" "mem_deadline m' = Some a"
          using s m Some by (auto simp: deadline_sound_def)
        with L(1) [of "mem_id m"] False show False by (metis bind.bind_lunit option.distinct(1))
      qed
      ultimately show ?thesis using member_deadline_cases [OF d(1)] by auto
    qed
    with d(2) show ?thesis by (simp add: member_expired_def e'_def)
  qed
  show "bm_get ?l = bm_get ?r"
  proof
    fix i
    show "bm_get ?l i = bm_get ?r i"
      unfolding l using L(1) [of i] L(2) [of i] others [of i] fresh c'ok(3)
      by (cases edit) (auto simp: bm_get_remove)
  qed
qed

section \<open>Every operation\<close>

lemma apply_memory_edit_view:
  assumes ok: "store_ok st" and e: "bm_get (st_values st) key = Some e" "ent_value e = VMemory c"
    and run: "apply_memory_edit t key c edit st = Some (res, st')"
    and s: "deadline_sound t (live_members (t_now t) e c) edit" and agree: "clocks_agree t (Some e)"
  shows "case res of Inl err \<Rightarrow> st' = st
    | Inr _ \<Rightarrow> memory_view (t_now t) (bm_get (st_values st') key)
        = Some (coll_descriptor c, edit_members edit (live_members (t_now t) e c))
      \<and> map_option ent_expires (bm_get (st_values st') key) = Some (ent_expires e)"
proof (cases res)
  case (Inl err)
  with run show ?thesis by (auto simp: apply_memory_edit_def Let_def bind_eq_Some_conv split: sum.splits)
next
  case (Inr mu)
  obtain c' ds where c': "apply_edits c (coll_descriptor c) [edit] key = Inr c'" "can_replace key (VMemory c') st"
    "resolve_member_deadlines t key (VMemory c') st = Inr ds" "insert_value t key (VMemory c') (entry_expiry e) st = Some st'"
    using run Inr e(1) by (auto simp: apply_memory_edit_def Let_def bind_eq_Some_conv result_simps split: sum.splits)
  note m = entry_memory_ok [OF ok e]
  have ok': "collection_ok c'" "validate_key c' key = Inr ()" "coll_descriptor c' = coll_descriptor c"
    using apply_edits_ok [OF m(1) c'(1)] by auto
  obtain st2 where "insert_value t key (VMemory c') (entry_expiry e) st = Some st2"
    "bm_get (st_values st2) key = Some \<lparr>ent_value = VMemory c', ent_expires = map_option fst (entry_expiry e),
       ent_unix = map_option snd (entry_expiry e), ent_generation = st_generation st2, ent_deadlines = ds\<rparr>"
    by (rule insert_memory_ok [OF ok ok'(1,2) c'(2,3)])
  with c'(4) Inr entry_expiry_maps [OF m(3)] ok'(3) edited_view [OF ok e c'(1,3) s agree] show ?thesis
    by (simp add: memory_view_def live_members_def member_expired_def)
qed

lemma future_deadline_sound: "future_deadline t ms = Inr a \<Longrightarrow> a = t_unix t + ms"
  by (auto simp: future_deadline_def deadline_def i64_checked_def result_simps bind_eq_Some_conv opt_filter_def split: if_splits option.splits)

lemma memory_search_nearest:
  assumes c: "collection_ok c" and run: "memory_search t e c d vector k namespace metadata = Inr (r, stats)"
  shows "r = nearest t vector k namespace metadata (map snd (live_members (t_now t) e c))"
proof -
  let ?v = "\<lambda>m. \<not> member_expired (t_now t) e (mem_id m)"
  have ms: "members_ok (coll_descriptor c) (coll_members c)" using c by (simp add: collection_ok_def)
  have filters: "filter (matches_member namespace metadata (t_unix t) ?v) (map snd xs)
      = filter (matches_member namespace metadata (t_unix t) (\<lambda>_. True)) (map snd (filter (\<lambda>(i, _). \<not> member_expired (t_now t) e i) xs))"
    if "\<forall>(i, m) \<in> set xs. mem_id m = i" for xs
    using that by (induction xs) (auto simp: matches_member_def)
  from run obtain hits where h: "search_with_visibility_stats c vector k namespace metadata (t_unix t) ?v = Inr (hits, stats)"
    "r = RArray (map hit_reply hits)"
    by (auto simp: memory_search_def result_simps)
  then have "0 < k" "hits = map (\<lambda>(distance, ident). (ident, distance)) (fst (search_members (map snd (coll_members c)) vector k
      (matches_member namespace metadata (t_unix t) ?v) [] \<lparr>visits = 0, components = 0\<rparr>))"
    by (auto simp: search_with_visibility_stats_def result_simps Let_def case_prod_unfold)
  then show ?thesis
    unfolding h(2) nearest_def live_members_def
    using search_exact [OF members_distinct [OF ms]] filters [of "coll_members c"] ms
    by (simp add: members_ok_def case_prod_unfold comp_def split_beta)
qed

lemma memory_decide_spec:
  assumes c: "collection_ok c" and agree: "clocks_agree t (Some e)"
    and x: "x = member_expired (t_now t) e (operation_member oper)"
    and edits: "\<forall>d. oper \<noteq> OpCreate d" "oper \<noteq> OpInfo" "\<forall>d v k ns md. oper \<noteq> OpSearch d v k ns md"
    and run: "memory_decide t e c (opt_filter (\<lambda>_. \<not> x) (bm_get (coll_members c) (operation_member oper))) x oper = Inr d"
  shows "spec_memory t (member_pttl (t_now t) e) oper (Some (coll_descriptor c, live_members (t_now t) e c)) =
      (case d of
         Answer r \<Rightarrow> Some (r, Some (coll_descriptor c, live_members (t_now t) e c))
       | Purge r \<Rightarrow> Some (r, Some (coll_descriptor c, edit_members (Remove (operation_member oper)) (live_members (t_now t) e c)))
       | Change edit \<Rightarrow> Some (RInteger 1, Some (coll_descriptor c, edit_members edit (live_members (t_now t) e c))))
    \<and> (\<forall>edit. d = Change edit \<longrightarrow> deadline_sound t (live_members (t_now t) e c) edit)"
proof -
  let ?l = "live_members (t_now t) e c" and ?i = "operation_member oper"
  have b: "bm_ok (coll_members c)" and ids: "\<And>i m. bm_get (coll_members c) i = Some m \<Longrightarrow> mem_id m = i"
    using c by (auto simp: collection_ok_def members_ok_iff)
  have get: "opt_filter (\<lambda>_. \<not> x) (bm_get (coll_members c) ?i) = bm_get ?l ?i" and lok: "bm_ok ?l"
    using live_members_get [OF b, of "t_now t" e ?i] x by (auto simp: opt_filter_def split: option.splits)
  have own: "mem_id m = i" if "bm_get ?l i = Some m" for i m
    using that live_members_get [OF b, of "t_now t" e i] ids by (auto split: if_splits)
  have gone: "bm_remove i ?l = ?l" if "bm_get ?l i = None" for i
    using that lok by (intro bm_eqI) auto
  note run' = run [unfolded get]
  show ?thesis
  proof (cases oper)
    case (OpPut d' m ttl cond)
    show ?thesis
    proof (cases "cond = Missing \<and> bm_get ?l ?i \<noteq> None \<or> cond = Present \<and> bm_get ?l ?i = None")
      case True
      with run' OpPut show ?thesis by (auto simp: result_simps Let_def)
    next
      case False
      with run' OpPut obtain a where a: "put_deadline t ttl (bm_get ?l (mem_id m)) = Inr a" "d = Change (Upsert (m\<lparr>mem_deadline := a\<rparr>))"
        by (auto simp: result_simps simp del: put_deadline.simps)
      have "a = ttl_absolute t ttl (bm_get ?l (mem_id m))"
        using a(1) by (cases ttl) (auto simp: result_simps dest: future_deadline_sound)
      moreover have "deadline_sound t ?l (Upsert (m\<lparr>mem_deadline := a\<rparr>))"
        using a(1) by (cases ttl) (auto simp: result_simps deadline_sound_def bind_eq_Some_conv dest!: future_deadline_sound)
      ultimately show ?thesis using False OpPut a(2) by (auto simp: Let_def)
    qed
  next
    case (OpExpire i ms)
    with run' own show ?thesis
      by (cases "bm_get ?l i") (auto simp: result_simps deadline_sound_def dest!: future_deadline_sound split: if_splits)
  qed (use run' edits own gone in \<open>auto simp: deadline_sound_def split: option.splits if_splits\<close>)
qed

lemma memory_existing_view:
  assumes ok: "store_ok st" and e: "bm_get (st_values st) key = Some e" "ent_value e = VMemory c"
    and run: "memory_existing t key oper c e st = Some (res, x, st')" and agree: "clocks_agree t (Some e)"
  shows "case res of Inl err \<Rightarrow> st' = st
    | Inr (r, _) \<Rightarrow> spec_memory t (member_pttl (t_now t) e) oper (memory_view (t_now t) (Some e))
          = Some (r, memory_view (t_now t) (bm_get (st_values st') key))
        \<and> map_option ent_expires (bm_get (st_values st') key) = Some (ent_expires e)"
proof -
  have c: "collection_ok c" using entry_memory_ok [OF ok e] by simp
  have v: "memory_view (t_now t) (Some e) = Some (coll_descriptor c, live_members (t_now t) e c)" using e(2) by (simp add: memory_view_def)
  consider (create) d where "oper = OpCreate d" | (info) "oper = OpInfo" | (search) d v k ns md where "oper = OpSearch d v k ns md"
    | (edit) "\<forall>d. oper \<noteq> OpCreate d" "oper \<noteq> OpInfo" "\<forall>d v k ns md. oper \<noteq> OpSearch d v k ns md"
    by blast
  then show ?thesis
  proof cases
    case create
    with run e(1) v show ?thesis by (auto simp: memory_existing_def)
  next
    case info
    with run e(1) v show ?thesis by (auto simp: memory_existing_def)
  next
    case search
    with run e(1) v memory_search_nearest [OF c] show ?thesis by (auto simp: memory_existing_def split: sum.splits)
  next
    case edit
    let ?i = "operation_member oper" let ?x = "member_expired (t_now t) e ?i"
    from edit run have run': "memory_edit t key oper c e st = Some (res, x, st')"
      by (auto simp: memory_existing_def split: operation.splits)
    show ?thesis
    proof (cases "memory_decide t e c (opt_filter (\<lambda>_. \<not> ?x) (bm_get (coll_members c) ?i)) ?x oper")
      case (Inl err)
      with run' show ?thesis by (cases res) (auto simp: memory_edit_def Let_def ensure_def split: if_splits)
    next
      case (Inr d)
      note sp = memory_decide_spec [OF c agree refl edit Inr]
      have "deadline_sound t (live_members (t_now t) e c) (Remove ?i)" by (simp add: deadline_sound_def)
      note purge = apply_memory_edit_view [OF ok e _ this agree]
      show ?thesis
      proof (cases d)
        case (Answer r)
        with run' Inr sp v e(1) show ?thesis by (auto simp: memory_edit_def Let_def ensure_def split: if_splits)
      next
        case (Purge r)
        with run' Inr sp v show ?thesis
          by (auto simp: memory_edit_def Let_def ensure_def bind_eq_Some_conv split: if_splits sum.splits dest!: purge)
      next
        case (Change edit)
        with run' Inr sp v apply_memory_edit_view [OF ok e, of t edit] agree show ?thesis
          by (auto simp: memory_edit_def Let_def ensure_def bind_eq_Some_conv split: if_splits sum.splits)
      qed
    qed
  qed
qed

lemma try_memory_inner_view:
  assumes ok: "store_ok st" and agree: "clocks_agree t (unexpired (t_now t) st key)"
    and run: "try_memory_inner t key oper st = Some (res, x, st')"
  shows "case res of Inl err \<Rightarrow> key_view (t_now t) st' key = key_view (t_now t) st key
    | Inr (r, _) \<Rightarrow> spec_memory t (member_pttl (t_now t) (the (unexpired (t_now t) st key))) oper (key_view (t_now t) st key)
        = Some (r, key_view (t_now t) st' key)"
proof (cases "memory_preflight key oper")
  case (Inl err)
  with run show ?thesis by (auto simp: try_memory_inner_def)
next
  case (Inr u)
  let ?now = "t_now t"
  obtain st1 j where 1: "expire_key ?now key st = Some st1" "store_ok st1"
    "bm_get (st_values st1) = (bm_get (st_values st))(key := unexpired ?now st key)"
    by (rule expire_key_ok [OF ok])
  have get: "bm_get (st_values st1) key = unexpired ?now st key" by (simp add: 1(3))
  have un: "unexpired ?now st1 key = unexpired ?now st key" by (auto simp: get opt_filter_def split: option.splits)
  note r = run [unfolded try_memory_inner_def Inr sum.case 1(1) bind.simps]
  show ?thesis
  proof (cases "unexpired ?now st key")
    case None
    show ?thesis
    proof (cases "\<exists>d. oper = OpCreate d")
      case True
      then obtain d where d: "oper = OpCreate d" by blast
      have create: "memory_create t key d st1 = Some (res, x, st')" using r None d by (simp add: get)
      show ?thesis
      proof (cases res)
        case (Inl err)
        then have "st' = st1" using create by (auto simp: memory_create_def bind_eq_Some_conv split: sum.splits)
        with Inl un show ?thesis by (simp add: key_view_def)
      next
        case (Inr rm)
        then obtain c where c: "collection_new d = Inr c" "validate_key c key = Inr ()" "can_replace key (VMemory c) st1"
          "insert_value t key (VMemory c) None st1 = Some st'" "fst rm = ROk"
          using create by (auto simp: memory_create_def bind_eq_Some_conv result_simps split: sum.splits)
        have new: "collection_ok c" "coll_members c = []" "coll_descriptor c = d" using collection_new_ok [OF c(1)] by auto
        have "resolve_member_deadlines t key (VMemory c) st1 = Inr []" using new(2) by (simp add: resolve_member_deadlines_def)
        then obtain st2 where "insert_value t key (VMemory c) None st1 = Some st2"
          "bm_get (st_values st2) key = Some \<lparr>ent_value = VMemory c, ent_expires = None, ent_unix = None,
             ent_generation = st_generation st2, ent_deadlines = []\<rparr>"
          by (rule insert_memory_ok [OF 1(2) new(1) c(2,3), where x = None, simplified])
        with c(4,5) None Inr d new show ?thesis
          by (simp add: key_view_def memory_view_def live_members_def opt_filter_def entry_expired_def case_prod_unfold)
      qed
    next
      case False
      then have *: "res = fst (memory_absent oper)" "st' = st1"
        using r None by (auto simp: get split: operation.splits)
      then show ?thesis using un None False by (cases oper) (auto simp: key_view_def memory_view_def)
    qed
  next
    case (Some e)
    show ?thesis
    proof (cases "\<exists>c. ent_value e = VMemory c")
      case True
      then obtain c where c: "ent_value e = VMemory c" by blast
      have alive: "\<not> entry_expired ?now e" using Some by (auto simp: opt_filter_def split: option.splits if_splits)
      have ex: "memory_existing t key oper c e st1 = Some (res, x, st')" using r Some c by (simp add: get)
      note w = memory_existing_view [OF 1(2) _ c ex, unfolded get, OF Some agree [unfolded Some]]
      have "unexpired ?now st' key = bm_get (st_values st') key" if "map_option ent_expires (bm_get (st_values st') key) = Some (ent_expires e)"
        using that alive by (auto simp: opt_filter_def entry_expired_def)
      with w un Some show ?thesis by (auto simp: key_view_def split: sum.splits)
    next
      case False
      then have "res = Inl EWrongType" "st' = st1" using r Some by (auto simp: get split: value_splits)
      then show ?thesis using un by (simp add: key_view_def)
    qed
  qed
qed

text \<open>What a key shows does not depend on the generations of its entry.\<close>

lemma key_view_stored: "stored a key = stored b key \<Longrightarrow> key_view now a key = key_view now b key"
proof -
  have v: "memory_view now (opt_filter (\<lambda>e. \<not> entry_expired now e) x)
      = memory_view now (opt_filter (\<lambda>e. \<not> entry_expired now e) (map_option unstamped x))" for x
    by (cases x) (simp_all add: opt_filter_def memory_view_def live_members_def member_expired_def entry_expired_def unstamped_def
        split: value_split)
  show "stored a key = stored b key \<Longrightarrow> ?thesis" by (simp add: key_view_def v [of "bm_get (st_values _) key"] stored_def)
qed


definition sample_put :: operation where
  "sample_put = OpPut sample_descriptor (sample_member ''a'' [CHR 0x00, CHR 0x00, CHR 0x00, CHR 0x40]) (TtlAfter 10) Always"

lemmas run_eval =
  memory_eval blank_store_def registry_default_def execute_def prepare_memory_with_limit_def prepare_memory_def memory_shadow_def shadow_base_def
  memory_inner_def try_memory_inner_def memory_preflight_def expire_key_def entry_expired_def memory_create_def can_replace_def within_quota_def
  current_bytes_def entry_bytes_def insert_value_def remove_def install_entry_def add_expirations_def drop_expiration_def drop_member_expirations_def
  resolve_member_deadlines_def member_deadline_def retained_deadline_def instant_checked_add_def memory_fits_def MAX_RECORD_BYTES_def
  memory_origin_def prepared_of_def apply_memory_def apply_prepared_def opt_filter_def result_simps ENTRY_OVERHEAD_BYTES_def Let_def
  memory_existing_def memory_edit_def same_model_def future_deadline_def deadline_def i64_checked_def i64_ok_def I64_MIN_def I64_MAX_def
  duration_from_millis_def NANOS_PER_MILLI_def apply_memory_edit_def entry_expiry_def member_expired_def sample_put_def
  wrapping_add_def wrapping_sub_def checked_sub_def store_with_config_def validate_quota_def charge_def usage_deltas_def registry_invalidate_def drop_member_def ISIZE_MAX_def


text \<open>
  C34. The hypothesis on the clocks is needed: after the wall clock stepped back, putting a
  member again can give it the deadline it had before, and the code then keeps the
  monotonic deadline that has already passed, so that the acknowledged member is not found.
\<close>

theorem put_keeps_elapsed_deadline:
  "\<exists>st1 st2 st3 st4.
     execute \<lparr>t_now = 0, t_unix = 1\<rparr> (CMemory ''k'' (OpCreate sample_descriptor)) blank_store = Some (ROk, st1)
   \<and> execute \<lparr>t_now = 0, t_unix = 50\<rparr> (CMemory ''k'' sample_put) st1 = Some (RInteger 1, st2)
   \<and> execute \<lparr>t_now = 20000000, t_unix = 50\<rparr> (CMemory ''k'' sample_put) st2 = Some (RInteger 1, st3)
   \<and> execute \<lparr>t_now = 20000000, t_unix = 50\<rparr> (CMemory ''k'' (OpGet ''a'')) st3 = Some (RBulk None, st4)"
proof -
  let ?run = "\<lambda>t oper st. execute t (CMemory ''k'' oper) st"
  have "(case ?run \<lparr>t_now = 0, t_unix = 1\<rparr> (OpCreate sample_descriptor) blank_store of None \<Rightarrow> False | Some (r1, st1) \<Rightarrow> r1 = ROk \<and>
     (case ?run \<lparr>t_now = 0, t_unix = 50\<rparr> sample_put st1 of None \<Rightarrow> False | Some (r2, st2) \<Rightarrow> r2 = RInteger 1 \<and>
     (case ?run \<lparr>t_now = 20000000, t_unix = 50\<rparr> sample_put st2 of None \<Rightarrow> False | Some (r3, st3) \<Rightarrow> r3 = RInteger 1 \<and>
     (case ?run \<lparr>t_now = 20000000, t_unix = 50\<rparr> (OpGet ''a'') st3 of None \<Rightarrow> False | Some (r4, _) \<Rightarrow> r4 = RBulk None))))"
    by (simp add: run_eval)
  moreover have ran: "(case x of None \<Rightarrow> False | Some (r, s) \<Rightarrow> P r s) \<longleftrightarrow> (\<exists>r s. x = Some (r, s) \<and> P r s)"
    for x :: "(reply \<times> store) option" and P
    by (cases x) auto
  ultimately show ?thesis unfolding ran by blast
qed

end
