(* ===== verification/Profile.thy ===== *)
theory Profile
  imports Memory_Format
begin

text \<open>
  The profiles of the append-only file (\<open>src/src/persistence/profile.rs\<close>): records of
  version 1 or 2 behind one interface, and the fixed header of version 7 of the composed
  profile (\<open>src/src/persistence/composed_format.rs\<close>).
\<close>

unbundle bit_operations_syntax

section \<open>The composed header\<close>

definition COMPOSED_HEADER_VERSION :: nat where "COMPOSED_HEADER_VERSION = 7"

definition COMPOSED_HEADER_BYTES :: nat where "COMPOSED_HEADER_BYTES = 64"

definition MIXED_OWNER_BATCH :: u32 where "MIXED_OWNER_BATCH = 1"

datatype record_version = LegacyRecords | MemoryRecords

fun record_version_number :: "record_version \<Rightarrow> nat" where
  "record_version_number LegacyRecords = 1"
| "record_version_number MemoryRecords = 2"

record composed_header =
  ch_sequence :: u64
  ch_layout :: durable_layout
  ch_record_version :: record_version
  ch_mixed_owner_batch :: bool
  ch_replication :: "replication_metadata option"

definition composed_validate :: "composed_header \<Rightarrow> format_error + unit" where
  "composed_validate h =
     res_bind (map_err (\<lambda>_. FeCorrupt ''shard configuration'') (layout_validate (ch_layout h))) (\<lambda>_.
       ensure (\<not> (case ch_replication h of None \<Rightarrow> False | Some m \<Rightarrow> rm_epoch m = zero_epoch)) (FeCorrupt ''replication epoch''))"

text \<open>The header is filled over 64 zero bytes.\<close>

definition composed_encode_header :: "composed_header \<Rightarrow> format_error + bytes" where
  "composed_encode_header h =
     res_bind (composed_validate h) (\<lambda>_.
       Inr (sealed (MAGIC @ u32_to_le COMPOSED_HEADER_VERSION @ u32_to_le COMPOSED_HEADER_BYTES
         @ u64_to_le (ch_sequence h) @ u32_to_le (shard_count (ch_layout h)) @ u32_to_le (routing_version (ch_layout h))
         @ u32_to_le (record_version_number (ch_record_version h)) @ u32_to_le (of_bool (ch_mixed_owner_batch h))
         @ (case ch_replication h of
              None \<Rightarrow> replicate 20 (char_of (0 :: nat))
            | Some m \<Rightarrow> role_byte (rm_role m) # replicate 3 (char_of (0 :: nat)) @ rm_epoch m))))"

definition composed_record_version :: "bytes \<Rightarrow> format_error + record_version" where
  "composed_record_version b =
     (let version = of_le b
      in if version = 1 then Inr LegacyRecords
         else if version = 2 then Inr MemoryRecords
         else Inl (FeCorrupt ''record version''))"

definition composed_metadata :: "byte \<Rightarrow> bytes \<Rightarrow> format_error + replication_metadata option" where
  "composed_metadata role epoch =
     (if role = char_of (0 :: nat) then
        (if epoch = zero_epoch then Inr None else Inl (FeCorrupt ''independent epoch''))
      else if role = char_of (1 :: nat) \<or> role = char_of (2 :: nat) then
        (if epoch = zero_epoch then Inl (FeCorrupt ''replication epoch'')
         else Inr (Some \<lparr>rm_role = (if role = char_of (1 :: nat) then Primary else Replica), rm_epoch = epoch\<rparr>))
      else Inl (FeCorrupt ''role''))"

definition composed_read_header :: "input \<Rightarrow> format_error + composed_header \<times> input" where
  "composed_read_header i =
     res_bind (read_header_exact 12 i) (\<lambda>(prefix, i).
     res_bind (ensure (take 8 prefix = MAGIC) FeHeader) (\<lambda>_.
       let version = of_le (slice_of 8 12 prefix)
       in res_bind (ensure (version = COMPOSED_HEADER_VERSION) (FeVersion version)) (\<lambda>_.
          res_bind (read_header_exact (COMPOSED_HEADER_BYTES - 12) i) (\<lambda>(rest, i).
            let h = prefix @ rest; capabilities = of_nat (of_le (slice_of 36 40 h)) :: u32
            in res_bind (ensure (of_le (slice_of 12 16 h) = COMPOSED_HEADER_BYTES) (FeCorrupt ''header length'')) (\<lambda>_.
               res_bind (ensure (unat (checksum (take 60 h)) = of_le (slice_of 60 64 h)) (FeCorrupt ''header checksum'')) (\<lambda>_.
               res_bind (composed_record_version (slice_of 32 36 h)) (\<lambda>record_version.
               res_bind (ensure (capabilities AND NOT MIXED_OWNER_BATCH = 0) (FeCorrupt ''required capabilities'')) (\<lambda>_.
               res_bind (ensure (slice_of 41 44 h = replicate 3 (char_of (0 :: nat))) (FeCorrupt ''reserved header bytes'')) (\<lambda>_.
               res_bind (composed_metadata (h ! 40) (slice_of 44 60 h)) (\<lambda>replication.
                 let header = \<lparr>ch_sequence = of_nat (of_le (slice_of 16 24 h)),
                       ch_layout = \<lparr>shard_count = of_le (slice_of 24 28 h), routing_version = of_le (slice_of 28 32 h)\<rparr>,
                       ch_record_version = record_version, ch_mixed_owner_batch = (capabilities AND MIXED_OWNER_BATCH \<noteq> 0),
                       ch_replication = replication\<rparr>
                 in res_bind (composed_validate header) (\<lambda>_. Inr (header, i))))))))))))"

section \<open>Profiles\<close>

datatype profile = LegacyProfile | MemoryProfile | ComposedLegacyMixed

definition profile_selected :: "bool \<Rightarrow> profile" where
  "profile_selected memory = (if memory then MemoryProfile else LegacyProfile)"

fun profile_write_header ::
  "profile \<Rightarrow> u64 \<Rightarrow> durable_layout \<Rightarrow> replication_metadata option \<Rightarrow> format_error + bytes" where
  "profile_write_header ComposedLegacyMixed sequence layout replication =
     composed_encode_header \<lparr>ch_sequence = sequence, ch_layout = layout, ch_record_version = LegacyRecords,
       ch_mixed_owner_batch = True, ch_replication = replication\<rparr>"
| "profile_write_header MemoryProfile sequence layout replication =
     mem_encode_header \<lparr>mh_sequence = sequence, mh_layout = layout, mh_replication = replication\<rparr>"
| "profile_write_header LegacyProfile sequence layout replication =
     write_header_with_replication sequence layout replication"

fun profile_read_header :: "profile \<Rightarrow> input \<Rightarrow> format_error + aof_header \<times> input" where
  "profile_read_header ComposedLegacyMixed i =
     res_bind (composed_read_header i) (\<lambda>(h, i).
     res_bind (ensure (\<not> (ch_record_version h \<noteq> LegacyRecords \<or> \<not> ch_mixed_owner_batch h))
         (FeCorrupt ''unsupported composed profile'')) (\<lambda>_.
       Inr (\<lparr>ah_sequence = ch_sequence h, ah_layout = ch_layout h, ah_version = COMPOSED_HEADER_VERSION,
             ah_bytes = COMPOSED_HEADER_BYTES, ah_replication = ch_replication h\<rparr>, i)))"
| "profile_read_header LegacyProfile i = read_header_with_layout i"
| "profile_read_header MemoryProfile i =
     res_bind (mem_read_header i) (\<lambda>(h, i).
       Inr (\<lparr>ah_sequence = mh_sequence h, ah_layout = mh_layout h,
             ah_version = (if mh_replication h \<noteq> None then 5 else 4),
             ah_bytes = (if mh_replication h \<noteq> None then 56 else 36), ah_replication = mh_replication h\<rparr>, i))"

fun legacy :: "mem_mutation \<Rightarrow> format_error + mutation" where
  "legacy (Legacy mu) = Inr mu"
| "legacy (Image key c d) = Inr (Put key (VMemory c) d)"
| "legacy (Delta _ _ _ _) = Inl (FeVersion 2)"

fun legacy_all :: "mem_mutation list \<Rightarrow> format_error + mutation list" where
  "legacy_all [] = Inr []"
| "legacy_all (mu # ms) = res_bind (legacy mu) (\<lambda>x. res_bind (legacy_all ms) (\<lambda>xs. Inr (x # xs)))"

fun convert :: "aof_record \<Rightarrow> mem_record" where
  "convert (RecSnapshot mu) = MemSnapshot (from_storage mu)"
| "convert (RecSeal sequence entries digest) = MemSeal sequence entries digest"
| "convert (RecBatch sequence batch) = MemBatch sequence (batch_origin batch) (map from_storage (batch_mutations batch))"

fun legacy_record :: "mem_record \<Rightarrow> format_error + aof_record" where
  "legacy_record (MemSnapshot mu) = res_bind (legacy mu) (\<lambda>x. Inr (RecSnapshot x))"
| "legacy_record (MemSeal sequence entries digest) = Inr (RecSeal sequence entries digest)"
| "legacy_record (MemBatch sequence origin ms) =
     res_bind (legacy_all ms) (\<lambda>xs. Inr (RecBatch sequence \<lparr>batch_origin = origin, batch_mutations = xs\<rparr>))"

definition profile_encode :: "profile \<Rightarrow> mem_record \<Rightarrow> aof_limits \<Rightarrow> format_error + bytes" where
  "profile_encode p r limits =
     (if p = MemoryProfile then mem_encode_record r limits
      else res_bind (legacy_record r) (\<lambda>x. encode_record x limits))"

definition profile_encode_legacy :: "profile \<Rightarrow> aof_record \<Rightarrow> aof_limits \<Rightarrow> format_error + bytes" where
  "profile_encode_legacy p r limits = profile_encode p (convert r) limits"

fun convert_next :: "aof_next \<Rightarrow> mem_next" where
  "convert_next NextEnd = MemEnd"
| "convert_next NextIncomplete = MemIncomplete"
| "convert_next (NextRecord r) = MemRecord (convert r)"

definition profile_read_record :: "profile \<Rightarrow> aof_limits \<Rightarrow> input \<Rightarrow> format_error + mem_next \<times> input" where
  "profile_read_record p limits i =
     (if p = MemoryProfile then mem_read_record limits i
      else res_bind (read_record limits i) (\<lambda>(n, i). Inr (convert_next n, i)))"

end
