(* ===== verification/Profile_Correct.thy ===== *)
theory Profile_Correct
  imports Profile Memory_Format_Correct
begin

text \<open>
  What every profile of the append-only file promises: headers and records are read back,
  a torn record is an incomplete tail, an altered one is refused. The interface is the
  locale \<open>record_log\<close>, provided by each profile.
\<close>

section \<open>Headers\<close>

text \<open>A header split at its twelfth byte.\<close>

lemma mem_read_header_parts:
  assumes "length v = 4" "mem_header_size (of_le v) = Inr n" "12 + length fs + 4 = n" "length k = 4"
  shows "mem_read_header \<lparr>in_bytes = MAGIC @ v @ fs @ k @ rest, in_fault = f\<rparr> =
    (let h = MAGIC @ v @ fs @ k; layout = \<lparr>shard_count = of_le (slice_of 8 12 fs), routing_version = of_le (slice_of 12 16 fs)\<rparr>
     in res_bind (ensure (unat (checksum (MAGIC @ v @ fs)) = of_le k) (FeCorrupt ''header checksum'')) (\<lambda>_.
        res_bind (map_err (\<lambda>_. FeCorrupt ''layout'') (layout_validate layout)) (\<lambda>_.
        res_bind (ensure (of_le (slice_of 16 20 fs) = RECORD_VERSION) (FeCorrupt ''record version'')) (\<lambda>_.
        res_bind (if of_le v = MEMORY_REPLICATION_HEADER_VERSION then res_bind (mem_decode_metadata h) (\<lambda>m. Inr (Some m)) else Inr None) (\<lambda>replication.
          Inr (\<lparr>mh_sequence = of_nat (of_le (take 8 fs)), mh_layout = layout, mh_replication = replication\<rparr>,
               \<lparr>in_bytes = rest, in_fault = f\<rparr>))))))"
proof -
  have m: "length MAGIC = 8" by (simp add: MAGIC_def)
  have n: "36 \<le> n" using assms(2) by (auto simp: mem_header_size_def MEMORY_HEADER_BYTES_def MEMORY_REPLICATION_HEADER_BYTES_def split: if_splits)
  have r1: "read_exact 12 \<lparr>in_bytes = MAGIC @ v @ fs @ k @ rest, in_fault = f\<rparr> = Inr (MAGIC @ v, \<lparr>in_bytes = fs @ k @ rest, in_fault = f\<rparr>)"
    using m assms(1) by (simp add: read_exact_def)
  have r2: "read_exact (n - 12) \<lparr>in_bytes = fs @ k @ rest, in_fault = f\<rparr> = Inr (fs @ k, \<lparr>in_bytes = rest, in_fault = f\<rparr>)"
    using assms(3,4) by (auto simp: read_exact_def)
  have t: "take (n - 4) (MAGIC @ v @ fs @ k) = MAGIC @ v @ fs" "drop (n - 4) (MAGIC @ v @ fs @ k) = k"
    using assms m by auto
  have s: "slice_of a (a + 4) (MAGIC @ v @ fs @ k) = slice_of (a - 12) (a - 8) fs" if "12 \<le> a" "a + 4 \<le> n - 4" for a
    using that assms m by (simp add: slice_of_def)
  have "slice_of 12 20 (MAGIC @ v @ fs @ k) = take 8 fs" using n assms m by (simp add: slice_of_def)
  moreover have "slice_of 20 24 (MAGIC @ v @ fs @ k) = slice_of 8 12 fs" "slice_of 24 28 (MAGIC @ v @ fs @ k) = slice_of 12 16 fs"
    "slice_of 28 32 (MAGIC @ v @ fs @ k) = slice_of 16 20 fs"
    using s [of 20] s [of 24] s [of 28] n by simp_all
  ultimately show ?thesis
    unfolding mem_read_header_def r1 using r2 t m assms(1,2) by (auto simp: Let_def slice_of_def [of 8 12 "MAGIC @ v"])
qed

lemma mem_decode_encode_metadata:
  assumes "length p = 32" "length (rm_epoch m) = 16" "\<not> primary_epoch_missing (Some m)"
  shows "mem_decode_metadata (p @ encode_metadata (Some m) @ k) = Inr m"
proof (cases m)
  case (fields r e)
  then show ?thesis using assms
    by (cases r) (simp_all add: mem_decode_metadata_def encode_metadata_def slice_of_def nth_append numeral_3_eq_3 primary_epoch_missing_def)
qed

lemma mem_header_decodes:
  assumes "mem_encode_header h = Inr w" "metadata_ok (mh_replication h)"
  shows "mem_read_header \<lparr>in_bytes = w @ rest, in_fault = f\<rparr> = Inr (h, \<lparr>in_bytes = rest, in_fault = f\<rparr>)
    \<and> length w = (if mh_replication h \<noteq> None then 56 else 36)"
proof -
  let ?r = "mh_replication h" and ?l = "mh_layout h"
  let ?v = "u32_to_le (if ?r = None then MEMORY_HEADER_VERSION else MEMORY_REPLICATION_HEADER_VERSION)"
  let ?fs = "u64_to_le (mh_sequence h) @ u32_to_le (shard_count ?l) @ u32_to_le (routing_version ?l) @ u32_to_le RECORD_VERSION @ encode_metadata ?r"
  let ?k = "u32_word_to_le (checksum (MAGIC @ ?v @ ?fs))"
  have ok: "layout_validate ?l = Inr ()" "\<not> primary_epoch_missing ?r" and w: "w = MAGIC @ ?v @ ?fs @ ?k"
    using assms(1) by (auto simp: mem_encode_header_def result_simps sealed_def)
  have m: "length MAGIC = 8" by (simp add: MAGIC_def)
  have v: "of_le ?v = (if ?r = None then MEMORY_HEADER_VERSION else MEMORY_REPLICATION_HEADER_VERSION)"
    by (simp add: MEMORY_HEADER_VERSION_def MEMORY_REPLICATION_HEADER_VERSION_def)
  have n: "mem_header_size (of_le ?v) = Inr (length w)" "12 + length ?fs + 4 = length w"
    using length_encode_metadata [OF assms(2)] m unfolding v
    by (auto simp: mem_header_size_def w MEMORY_HEADER_VERSION_def MEMORY_REPLICATION_HEADER_VERSION_def
        MEMORY_HEADER_BYTES_def MEMORY_REPLICATION_HEADER_BYTES_def)
  have l: "\<lparr>shard_count = of_le (slice_of 8 12 ?fs), routing_version = of_le (slice_of 12 16 ?fs)\<rparr> = ?l"
    "of_le (slice_of 16 20 ?fs) = RECORD_VERSION"
    using layout_small [OF ok(1)] by (simp_all add: slice_of_def RECORD_VERSION_def)
  have d: "mem_decode_metadata (MAGIC @ ?v @ ?fs @ ?k) = Inr x" if "?r = Some x" for x
    using mem_decode_encode_metadata [of "MAGIC @ ?v @ u64_to_le (mh_sequence h) @ u32_to_le (shard_count ?l) @ u32_to_le (routing_version ?l)
        @ u32_to_le RECORD_VERSION" x ?k] assms(2) m that ok(2) by (simp add: metadata_ok_def)
  have "mem_read_header \<lparr>in_bytes = MAGIC @ ?v @ ?fs @ ?k @ rest, in_fault = f\<rparr> = Inr (h, \<lparr>in_bytes = rest, in_fault = f\<rparr>)"
    using ok l d by (subst mem_read_header_parts [OF _ n])
      (auto simp: Let_def v MEMORY_HEADER_VERSION_def MEMORY_REPLICATION_HEADER_VERSION_def)
  with n(2) length_encode_metadata [OF assms(2)] show ?thesis by (auto simp: w)
qed

lemma composed_header_decodes:
  assumes "composed_encode_header h = Inr w" "metadata_ok (ch_replication h)"
  shows "composed_read_header \<lparr>in_bytes = w @ rest, in_fault = f\<rparr> = Inr (h, \<lparr>in_bytes = rest, in_fault = f\<rparr>) \<and> length w = 64"
proof -
  let ?r = "ch_replication h" and ?l = "ch_layout h"
  define role where "role = (case ?r of None \<Rightarrow> char_of (0 :: nat) | Some m \<Rightarrow> role_byte (rm_role m))"
  define epoch where "epoch = (case ?r of None \<Rightarrow> zero_epoch | Some m \<Rightarrow> rm_epoch m)"
  let ?m = "role # replicate 3 (char_of (0 :: nat)) @ epoch"
  let ?fs = "u32_to_le COMPOSED_HEADER_BYTES @ u64_to_le (ch_sequence h) @ u32_to_le (shard_count ?l) @ u32_to_le (routing_version ?l)
      @ u32_to_le (record_version_number (ch_record_version h)) @ u32_to_le (of_bool (ch_mixed_owner_batch h)) @ ?m"
  let ?p = "MAGIC @ u32_to_le COMPOSED_HEADER_VERSION"
  let ?k = "u32_word_to_le (checksum (?p @ ?fs))"
  have ok: "composed_validate h = Inr ()" using assms(1) by (auto simp: composed_encode_header_def result_simps)
  then have l: "layout_validate ?l = Inr ()" and e: "\<And>m. ?r = Some m \<Longrightarrow> rm_epoch m \<noteq> zero_epoch"
    by (auto simp: composed_validate_def result_simps split: option.splits)
  have "(case ?r of None \<Rightarrow> replicate 20 (char_of (0 :: nat)) | Some m \<Rightarrow> role_byte (rm_role m) # replicate 3 (char_of (0 :: nat)) @ rm_epoch m) = ?m"
    by (simp add: role_def epoch_def zero_epoch_def numeral_eq_Suc split: option.split)
  then have w: "w = ?p @ ?fs @ ?k" using assms(1) by (auto simp: composed_encode_header_def result_simps sealed_def)
  have len: "length ?p = 12" "length epoch = 16" using assms(2) by (simp_all add: MAGIC_def epoch_def zero_epoch_def metadata_ok_def split: option.splits)
  define p where "p = ?p"
  define q where "q = ?fs @ ?k"
  have r1: "read_header_exact 12 \<lparr>in_bytes = w @ rest, in_fault = f\<rparr> = Inr (p, \<lparr>in_bytes = q @ rest, in_fault = f\<rparr>)"
    using read_header_exact_ok [of p 12 "q @ rest" f] len by (simp add: w p_def q_def)
  have r2: "read_header_exact (COMPOSED_HEADER_BYTES - 12) \<lparr>in_bytes = q @ rest, in_fault = f\<rparr> = Inr (q, \<lparr>in_bytes = rest, in_fault = f\<rparr>)"
    using read_header_exact_ok [of q "COMPOSED_HEADER_BYTES - 12" rest f] len by (simp add: COMPOSED_HEADER_BYTES_def q_def)
  have mg: "length MAGIC = 8" by (simp add: MAGIC_def)
  note sm = layout_small [OF l]
  have d: "composed_metadata role epoch = Inr ?r"
  proof (cases ?r)
    case (Some m)
    then show ?thesis using e by (cases m; cases "rm_role m") (auto simp: composed_metadata_def role_def epoch_def)
  qed (simp add: composed_metadata_def role_def epoch_def)
  have v: "composed_record_version (u32_to_le (record_version_number (ch_record_version h))) = Inr (ch_record_version h)"
    by (cases "ch_record_version h") (simp_all add: composed_record_version_def)
  have c: "(of_nat (of_le (u32_to_le (of_bool b))) :: u32) AND NOT MIXED_OWNER_BATCH = 0"
    "((of_nat (of_le (u32_to_le (of_bool b))) :: u32) AND MIXED_OWNER_BATCH \<noteq> 0) = b" for b
    by (cases b; simp add: MIXED_OWNER_BATCH_def)+
  have rebuilt: "\<lparr>ch_sequence = ch_sequence h, ch_layout = \<lparr>shard_count = shard_count ?l, routing_version = routing_version ?l\<rparr>,
      ch_record_version = ch_record_version h, ch_mixed_owner_batch = b, ch_replication = ?r\<rparr> = h" if "ch_mixed_owner_batch h = b" for b
    using that by simp
  have pq: "p @ q = ?p @ ?fs @ ?k" by (simp add: p_def q_def)
  have of_le_small: "of_le (u32_to_le COMPOSED_HEADER_VERSION) = COMPOSED_HEADER_VERSION" "of_le (u32_to_le COMPOSED_HEADER_BYTES) = COMPOSED_HEADER_BYTES"
    by (simp_all add: COMPOSED_HEADER_VERSION_def COMPOSED_HEADER_BYTES_def)
  have nth: "(p @ q) ! 40 = role" using mg len unfolding pq by (simp add: nth_append)
  have s: "take 8 p = MAGIC" "slice_of 8 12 p = u32_to_le COMPOSED_HEADER_VERSION"
    using mg by (simp_all add: slice_of_def p_def)
  have t: "slice_of 12 16 (p @ q) = u32_to_le COMPOSED_HEADER_BYTES" "unat (checksum (take 60 (p @ q))) = of_le (slice_of 60 64 (p @ q))"
    "slice_of 32 36 (p @ q) = u32_to_le (record_version_number (ch_record_version h))"
    "slice_of 36 40 (p @ q) = u32_to_le (of_bool (ch_mixed_owner_batch h))" "slice_of 41 44 (p @ q) = replicate 3 (char_of (0 :: nat))"
    "slice_of 44 60 (p @ q) = epoch" "slice_of 16 24 (p @ q) = u64_to_le (ch_sequence h)" "slice_of 24 28 (p @ q) = u32_to_le (shard_count ?l)"
    "slice_of 28 32 (p @ q) = u32_to_le (routing_version ?l)"
    unfolding pq using mg len by (simp_all add: slice_of_def numeral_3_eq_3)
  have "composed_read_header \<lparr>in_bytes = w @ rest, in_fault = f\<rparr> = Inr (h, \<lparr>in_bytes = rest, in_fault = f\<rparr>)"
    unfolding composed_read_header_def r1
    by (simp add: r2 Let_def s t nth d v c sm rebuilt [of True] rebuilt [of False] ok of_le_small MIXED_OWNER_BATCH_def del: take_append)
  then show ?thesis using len mg by (simp add: w)
qed

definition profile_version :: "profile \<Rightarrow> replication_metadata option \<Rightarrow> nat" where
  "profile_version p r =
     (case p of LegacyProfile \<Rightarrow> if r = None then 2 else 3 | MemoryProfile \<Rightarrow> if r = None then 4 else 5 | ComposedLegacyMixed \<Rightarrow> 7)"

lemma profile_header_decodes:
  assumes "profile_write_header p s layout r = Inr h" "metadata_ok r"
  shows "profile_read_header p \<lparr>in_bytes = h @ rest, in_fault = f\<rparr>
    = Inr (\<lparr>ah_sequence = s, ah_layout = layout, ah_version = profile_version p r, ah_bytes = length h, ah_replication = r\<rparr>,
        \<lparr>in_bytes = rest, in_fault = f\<rparr>)"
proof (cases p)
  case LegacyProfile
  with assms header_decodes [of s layout r h rest f] show ?thesis
    by (simp add: profile_version_def LAYOUT_VERSION_def REPLICATION_VERSION_def)
next
  case MemoryProfile
  with assms mem_header_decodes [of _ h rest f] show ?thesis by (simp add: profile_version_def)
next
  case ComposedLegacyMixed
  with assms composed_header_decodes [of _ h rest f] show ?thesis
    by (simp add: profile_version_def COMPOSED_HEADER_VERSION_def COMPOSED_HEADER_BYTES_def)
qed

section \<open>Records\<close>

text \<open>A sequence of records as it is written, and the records at the front of an input, read
  one after the other until the file ends or breaks off.\<close>

fun encode_all :: "(mem_record \<Rightarrow> format_error + bytes) \<Rightarrow> mem_record list \<Rightarrow> format_error + bytes" where
  "encode_all enc [] = Inr []"
| "encode_all enc (r # rs) = res_bind (enc r) (\<lambda>w. res_bind (encode_all enc rs) (\<lambda>ws. Inr (w @ ws)))"

inductive reads_all :: "(input \<Rightarrow> format_error + mem_next \<times> input) \<Rightarrow> input \<Rightarrow> mem_record list \<Rightarrow> mem_next \<Rightarrow> bool" for nxt where
  reads_stop: "nxt i = Inr (n, i') \<Longrightarrow> (\<forall>r. n \<noteq> MemRecord r) \<Longrightarrow> reads_all nxt i [] n"
| reads_more: "nxt i = Inr (MemRecord r, i') \<Longrightarrow> reads_all nxt i' rs n \<Longrightarrow> reads_all nxt i (r # rs) n"

text \<open>What the client of a file of records relies on: a record that was written is read
  back, a torn one is an incomplete tail, an altered one is refused.\<close>

locale record_log =
  fixes encode :: "mem_record \<Rightarrow> format_error + bytes" and next_record :: "input \<Rightarrow> format_error + mem_next \<times> input"
    and wire :: "mem_record \<Rightarrow> bool"
  assumes reads_back: "encode r = Inr w \<Longrightarrow> wire r \<Longrightarrow>
      next_record \<lparr>in_bytes = w @ rest, in_fault = f\<rparr> = Inr (MemRecord r, \<lparr>in_bytes = rest, in_fault = f\<rparr>)"
    and torn: "encode r = Inr w \<Longrightarrow> wire r \<Longrightarrow> n < length w \<Longrightarrow>
      next_record \<lparr>in_bytes = take n w, in_fault = None\<rparr> = Inr (if n = 0 then MemEnd else MemIncomplete, \<lparr>in_bytes = [], in_fault = None\<rparr>)"
    and refused: "encode r = Inr w \<Longrightarrow> wire r \<Longrightarrow> i < length w \<Longrightarrow> y \<noteq> w ! i \<Longrightarrow>
      \<exists>what. next_record \<lparr>in_bytes = w[i := y] @ rest, in_fault = f\<rparr> = Inl (FeCorrupt what)"
begin

lemma reads_written:
  assumes "encode_all encode rs = Inr ws" "list_all wire rs" "encode r = Inr w" "wire r" "n < length w"
  shows "reads_all next_record \<lparr>in_bytes = ws @ take n w, in_fault = None\<rparr> rs (if n = 0 then MemEnd else MemIncomplete)"
  using assms(1,2)
proof (induction rs arbitrary: ws)
  case Nil
  then show ?case using torn [OF assms(3-5)] by (auto intro!: reads_stop)
next
  case (Cons a rs)
  then obtain v vs where "encode a = Inr v" "encode_all encode rs = Inr vs" "ws = v @ vs" "wire a" "list_all wire rs"
    by (auto simp: result_simps)
  with Cons.IH [of vs] reads_back [of a v "vs @ take n w" None] show ?case by (auto intro: reads_more)
qed

end

definition profile_wire :: "profile \<Rightarrow> aof_limits \<Rightarrow> mem_record \<Rightarrow> bool" where
  "profile_wire p limits r \<longleftrightarrow>
     (if p = MemoryProfile then mem_record_wire r \<and> max_mutations limits < 4294967296
      else case legacy_record r of Inl _ \<Rightarrow> True | Inr x \<Rightarrow> record_wire x)"

lemma from_legacy: "legacy mu = Inr x \<Longrightarrow> mutation_small x \<Longrightarrow> from_storage x = mu"
proof (cases mu)
  case (Legacy y)
  then show "legacy mu = Inr x \<Longrightarrow> mutation_small x \<Longrightarrow> ?thesis"
    by (cases x) (auto elim: value_small.elims)
qed auto

lemma from_legacy_all: "legacy_all ms = Inr xs \<Longrightarrow> list_all mutation_small xs \<Longrightarrow> map from_storage xs = ms"
  by (induction ms arbitrary: xs) (auto simp: result_simps from_legacy)

lemma convert_legacy_record: "legacy_record r = Inr x \<Longrightarrow> record_small limits x \<Longrightarrow> convert x = r"
  by (cases r) (auto simp: result_simps from_legacy from_legacy_all Let_def)

text \<open>A record of any profile on the wire is a frame that the profile decodes.\<close>

lemma profile_encode_frame:
  assumes "profile_encode p r limits = Inr w" "profile_wire p limits r"
  obtains b where "w = frame_record (length b) b" "fits limits b"
    "profile_read_record p limits = (\<lambda>i. if p = MemoryProfile then mem_read_record limits i
       else res_bind (read_record limits i) (\<lambda>(n, i). Inr (convert_next n, i)))"
    "if p = MemoryProfile then mem_decode_record b limits = Inr r else \<exists>x. decode_record b limits = Inr x \<and> convert x = r"
proof (cases "p = MemoryProfile")
  case True
  with assms have e: "mem_encode_record r limits = Inr w" "mem_record_wire r" "max_mutations limits < 4294967296"
    by (simp_all add: profile_encode_def profile_wire_def)
  note f = mem_encode_frame [OF e(1,2)]
  have "length (mem_body r) \<le> USIZE_MAX" using f(2) max_record_small by (auto simp: fits_def)
  with mem_decode_body [OF f(3) _ e(3)] f True that show ?thesis by (simp add: profile_read_record_def fun_eq_iff)
next
  case False
  with assms obtain x where x: "legacy_record r = Inr x" "encode_record x limits = Inr w" "record_wire x"
    by (auto simp: profile_encode_def profile_wire_def result_simps)
  obtain b where b: "encode_body x = Inr b" "w = frame_record (length b) b" "record_small limits x" "fits limits b"
    by (rule encode_record_frame [OF x(2)])
  have "length b \<le> USIZE_MAX" using b(4) max_record_small by (auto simp: fits_def)
  with decode_encode_body [OF b(1,3) x(3)] convert_legacy_record [OF x(1) b(3)] b that False show ?thesis
    by (simp add: profile_read_record_def fun_eq_iff)
qed

interpretation pl: record_log "\<lambda>r. profile_encode p r limits" "profile_read_record p limits" "profile_wire p limits" for p limits
proof
  fix r w assume e: "profile_encode p r limits = Inr w" and v: "profile_wire p limits r"
  obtain b where b: "w = frame_record (length b) b" "fits limits b"
    "profile_read_record p limits = (\<lambda>i. if p = MemoryProfile then mem_read_record limits i
       else res_bind (read_record limits i) (\<lambda>(n, i). Inr (convert_next n, i)))"
    "if p = MemoryProfile then mem_decode_record b limits = Inr r else \<exists>x. decode_record b limits = Inr x \<and> convert x = r"
    by (rule profile_encode_frame [OF e v])
  show "profile_read_record p limits \<lparr>in_bytes = w @ rest, in_fault = f\<rparr> = Inr (MemRecord r, \<lparr>in_bytes = rest, in_fault = f\<rparr>)" for rest f
    using b(4) unfolding b(1,3) mem_read_record_def read_record_def by (auto simp: framed_roundtrip [OF b(2)] split: if_splits)
  show "profile_read_record p limits \<lparr>in_bytes = take n w, in_fault = None\<rparr>
      = Inr (if n = 0 then MemEnd else MemIncomplete, \<lparr>in_bytes = [], in_fault = None\<rparr>)" if "n < length w" for n
    using that unfolding b(1,3) mem_read_record_def read_record_def by (simp add: framed_torn [OF b(2)])
  show "\<exists>what. profile_read_record p limits \<lparr>in_bytes = w[i := y] @ rest, in_fault = f\<rparr> = Inl (FeCorrupt what)"
    if "i < length w" "y \<noteq> w ! i" for i y rest f
    using framed_altered [OF b(2,1) that] unfolding b(3) mem_read_record_def read_record_def
    by (metis res_bind_simps(1))
qed

text \<open>
  C20. Whichever profile a file has, the header its writer publishes is read back by the
  same profile with its sequence, layout, role and length, and is followed by the records:
  a sequence of records, the last of them torn at any byte, reads as exactly the complete
  ones and then as the end of the file or an incomplete tail.
\<close>

theorem profile_file_roundtrip:
  assumes "profile_write_header p s layout meta = Inr h" "metadata_ok meta"
    and "encode_all (\<lambda>r. profile_encode p r limits) rs = Inr ws" "list_all (profile_wire p limits) rs"
    and "profile_encode p r limits = Inr w" "profile_wire p limits r" "n < length w"
  shows "\<exists>body. profile_read_header p \<lparr>in_bytes = h @ ws @ take n w, in_fault = None\<rparr>
      = Inr (\<lparr>ah_sequence = s, ah_layout = layout, ah_version = profile_version p meta, ah_bytes = length h, ah_replication = meta\<rparr>, body)
    \<and> reads_all (profile_read_record p limits) body rs (if n = 0 then MemEnd else MemIncomplete)"
  using profile_header_decodes [OF assms(1,2)] pl.reads_written [OF assms(3-7)] by blast

lemmas record_eval =
  profile_encode_def profile_wire_def encode_record_def Let_def add_mutation_def mutation_size_def counted_def add_blob_def
  blob_size_def checked_add_def U32_MAX_def USIZE_MAX_def MAX_RECORD_BYTES_def aof_limits_default_def encode_mutation_def frame_record_def

lemma layout_default_ok: "layout_validate layout_default = Inr ()"
  by (simp add: layout_default_def layout_validate_def router_new_def MAX_SHARDS_def ROUTING_VERSION_def)

theorem profile_file_roundtrip_witness:
  "\<exists>h ws w body. profile_write_header ComposedLegacyMixed 4 layout_default None = Inr h
    \<and> encode_all (\<lambda>r. profile_encode ComposedLegacyMixed r aof_limits_default) [MemSeal 4 0 0] = Inr ws
    \<and> profile_encode ComposedLegacyMixed (MemBatch 5 Client [Legacy (Delete ''d'')]) aof_limits_default = Inr w
    \<and> profile_read_header ComposedLegacyMixed \<lparr>in_bytes = h @ ws @ take 20 w, in_fault = None\<rparr>
      = Inr (\<lparr>ah_sequence = 4, ah_layout = layout_default, ah_version = 7, ah_bytes = length h, ah_replication = None\<rparr>, body)
    \<and> reads_all (profile_read_record ComposedLegacyMixed aof_limits_default) body [MemSeal 4 0 0] MemIncomplete"
proof -
  let ?p = ComposedLegacyMixed and ?l = aof_limits_default and ?r = "MemBatch 5 Client [Legacy (Delete ''d'')]"
  obtain h where h: "profile_write_header ?p 4 layout_default None = Inr h"
    using layout_default_ok by (simp add: composed_encode_header_def composed_validate_def)
  obtain ws where ws: "encode_all (\<lambda>r. profile_encode ?p r ?l) [MemSeal 4 0 0] = Inr ws"
    by (simp add: record_eval)
  have "\<exists>w. profile_encode ?p ?r ?l = Inr w \<and> length w = 32" by (simp add: record_eval)
  then obtain w where w: "profile_encode ?p ?r ?l = Inr w" "length w = 32" by blast
  have "list_all (profile_wire ?p ?l) [MemSeal 4 0 0]" "profile_wire ?p ?l ?r" "metadata_ok None"
    by (simp_all add: profile_wire_def metadata_ok_def)
  with profile_file_roundtrip [OF h _ ws _ w(1), of 20] h ws w show ?thesis by (auto simp: profile_version_def)
qed

end
