(* ===== verification/Aof_Recovery.thy ===== *)
theory Aof_Recovery
  imports Profile Memory_Lifecycle
begin

text \<open>
  Opening the append-only file (\<open>src/src/persistence/writer.rs\<close>, \<open>load_profile\<close>): the
  configuration, the choice of a generation in the directory, the scan of its records with
  replay into a store, and the repair of an incomplete tail. The directory is a map from
  file names to contents; reading may fail as \<open>input\<close> says.
\<close>

section \<open>Configuration and errors\<close>

datatype sync_policy = SyncAlways | SyncPeriodic int

record aof_config =
  cfg_memory_profile :: bool
  cfg_directory :: bytes
  cfg_layout :: durable_layout
  cfg_sync :: sync_policy
  cfg_queue_capacity :: nat
  cfg_limits :: aof_limits
  cfg_compact_after_bytes :: nat
  cfg_max_delta_bytes :: nat

definition aof_config_new :: "bytes \<Rightarrow> aof_config" where
  "aof_config_new directory =
     \<lparr>cfg_memory_profile = False, cfg_directory = directory, cfg_layout = layout_default, cfg_sync = SyncAlways,
      cfg_queue_capacity = 32, cfg_limits = aof_limits_default, cfg_compact_after_bytes = 67108864,
      cfg_max_delta_bytes = 16777216\<rparr>"

definition with_memory_profile :: "aof_config \<Rightarrow> aof_config" where
  "with_memory_profile cfg = cfg\<lparr>cfg_memory_profile := True\<rparr>"

text \<open>\<open>permits\<close> is the largest capacity of a channel of the runtime. The synchronisation period is
  in nanoseconds.\<close>

definition aof_config_validate :: "nat \<Rightarrow> aof_config \<Rightarrow> config_error + unit" where
  "aof_config_validate permits cfg =
     res_bind (layout_validate (cfg_layout cfg)) (\<lambda>_.
     res_bind (ensure (cfg_directory cfg \<noteq> []) (InvalidServerLimits ''SIDER_AOF_DIR cannot be empty'')) (\<lambda>_.
     res_bind (ensure (\<not> (cfg_queue_capacity cfg = 0 \<or> cfg_queue_capacity cfg > permits))
       (InvalidServerLimits ''AOF queue must have valid capacity'')) (\<lambda>_.
     res_bind (ensure (\<not> (max_record_bytes (cfg_limits cfg) < 64 \<or> max_record_bytes (cfg_limits cfg) > MAX_RECORD_BYTES
         \<or> max_mutations (cfg_limits cfg) = 0 \<or> max_mutations (cfg_limits cfg) > 1000000
         \<or> cfg_max_delta_bytes cfg = 0 \<or> cfg_max_delta_bytes cfg > ISIZE_MAX))
       (InvalidServerLimits ''invalid AOF limits'')) (\<lambda>_.
       ensure (case cfg_sync cfg of SyncAlways \<Rightarrow> True | SyncPeriodic period \<Rightarrow> \<not> (period = 0 \<or> period > 60000000000))
         (InvalidServerLimits ''AOF sync period must be between 1 ms and 60 s'')))))"

datatype aof_error =
    AofConfig config_error
  | AofIo
  | AofFormat format_error
  | AofReplay replay_error
  | AofLocked
  | AofUnavailable
  | AofSequence
  | AofCompacting
  | AofDeltaLimit
  | AofLayoutMismatch durable_layout durable_layout
  | AofCrossShard
  | AofShardQuota nat nat nat
  | AofMigration string

section \<open>Replay of a batch into the shards\<close>

text \<open>The shard every key belongs to; unless the profile allows it, they have to agree.\<close>

fun select_shard :: "durable_layout \<Rightarrow> bool \<Rightarrow> bytes list \<Rightarrow> nat option \<Rightarrow> aof_error + nat option" where
  "select_shard layout allow_mixed [] selected = Inr selected"
| "select_shard layout allow_mixed (key # keys) selected =
     res_bind (map_err AofConfig (layout_shard_for layout key)) (\<lambda>shard.
     res_bind (ensure (\<not> (\<not> allow_mixed \<and> selected \<noteq> None \<and> selected \<noteq> Some shard)) AofCrossShard) (\<lambda>_.
       select_shard layout allow_mixed keys (Some shard)))"

definition batch_shard :: "mutation list \<Rightarrow> durable_layout \<Rightarrow> aof_error + nat" where
  "batch_shard ms layout =
     res_bind (select_shard layout False (map mutation_key ms) None) (\<lambda>selected.
       Inr (case selected of None \<Rightarrow> 0 | Some shard \<Rightarrow> shard))"

fun project_usage ::
  "durable_layout \<Rightarrow> nat list \<Rightarrow> (bytes \<times> nat \<times> nat) list \<Rightarrow> (nat, nat) btree_map \<Rightarrow> aof_error + (nat, nat) btree_map" where
  "project_usage layout usage [] projected = Inr projected"
| "project_usage layout usage ((key, b, a) # deltas) projected =
     res_bind (map_err AofConfig (layout_shard_for layout key)) (\<lambda>shard.
       let used = (case bm_get projected shard of None \<Rightarrow> usage ! shard | Some u \<Rightarrow> u)
       in res_bind (ok_or (do { v \<leftarrow> checked_sub used b; checked_add v a }) (AofReplay ReQuota)) (\<lambda>used.
            project_usage layout usage deltas (bm_insert shard used projected)))"

fun check_quotas :: "durable_layout \<Rightarrow> nat \<Rightarrow> (nat \<times> nat) list \<Rightarrow> aof_error + unit" where
  "check_quotas layout total_bytes [] = Inr ()"
| "check_quotas layout total_bytes ((shard, used) # rest) =
     res_bind (map_err AofConfig (layout_quota layout total_bytes shard)) (\<lambda>quota.
     res_bind (ensure (\<not> used > quota) (AofShardQuota shard used quota)) (\<lambda>_. check_quotas layout total_bytes rest))"

text \<open>\<open>None\<close> inside the result is a panic while applying.\<close>

definition replay_routed_memory ::
  "sample \<Rightarrow> mem_mutation list \<Rightarrow> durable_layout \<Rightarrow> nat \<Rightarrow> bool \<Rightarrow> store \<Rightarrow> nat list \<Rightarrow> aof_error + (store \<times> nat list) option" where
  "replay_routed_memory t ms layout total_bytes allow_mixed st usage =
     res_bind (select_shard layout allow_mixed (map mem_key ms) None) (\<lambda>_.
     res_bind (map_err AofReplay (prepare_memory_replay t ms Client st)) (\<lambda>p.
     res_bind (map_err AofReplay (usage_deltas p st)) (\<lambda>deltas.
     res_bind (project_usage layout usage deltas []) (\<lambda>projected.
     res_bind (check_quotas layout total_bytes projected) (\<lambda>_.
       Inr (map_option (\<lambda>(_, st'). (st', fold (\<lambda>(shard, used) u. u[shard := used]) projected usage)) (apply_prepared p st)))))))"

section \<open>The scan\<close>

record scan =
  sc_store :: store
  sc_usage :: "nat list"
  sc_sequence :: u64
  sc_sealed :: bool
  sc_previous :: "bytes option"
  sc_entries :: u64
  sc_digest :: u32
  sc_valid :: nat

fun snapshot_image :: "mem_mutation \<Rightarrow> bool" where
  "snapshot_image (Image _ _ _) = True"
| "snapshot_image (Legacy (Put _ _ _)) = True"
| "snapshot_image _ = False"

definition replay_scan :: "aof_config \<Rightarrow> profile \<Rightarrow> nat \<Rightarrow> sample \<Rightarrow> mem_mutation list \<Rightarrow> scan \<Rightarrow> aof_error + scan option" where
  "replay_scan cfg p total_bytes t ms sc =
     res_bind (replay_routed_memory t ms (cfg_layout cfg) total_bytes (p = ComposedLegacyMixed) (sc_store sc) (sc_usage sc)) (\<lambda>x.
       Inr (map_option (\<lambda>(st, usage). sc\<lparr>sc_store := st, sc_usage := usage\<rparr>) x))"

text \<open>\<open>checked_add(1)\<close> on a \<open>u64\<close>.\<close>

definition next_sequence :: "u64 \<Rightarrow> u64 option" where
  "next_sequence s = (if s = - 1 then None else Some (s + 1))"

text \<open>One record of the file, after a header that announced the sequence \<open>base\<close>.\<close>

fun scan_record :: "aof_config \<Rightarrow> profile \<Rightarrow> nat \<Rightarrow> sample \<Rightarrow> u64 \<Rightarrow> mem_record \<Rightarrow> scan \<Rightarrow> aof_error + scan option" where
  "scan_record cfg p total_bytes t base (MemSnapshot mu) sc =
     (if \<not> sc_sealed sc \<and> snapshot_image mu then
        res_bind (ensure (\<not> (case sc_previous sc of None \<Rightarrow> False | Some key \<Rightarrow> key \<ge> mem_key mu)) AofSequence) (\<lambda>_.
        res_bind (map_err AofFormat (profile_encode p (MemSnapshot mu) (cfg_limits cfg))) (\<lambda>encoded.
          replay_scan cfg p total_bytes t [mu] (sc\<lparr>sc_previous := Some (mem_key mu), sc_entries := sc_entries sc + 1,
            sc_digest := snapshot_digest (sc_digest sc) encoded\<rparr>)))
      else Inl AofSequence)"
| "scan_record cfg p total_bytes t base (MemSeal sequence entries digest) sc =
     (if \<not> sc_sealed sc \<and> sequence = base \<and> entries = sc_entries sc \<and> digest = sc_digest sc
      then Inr (Some (sc\<lparr>sc_sealed := True\<rparr>)) else Inl AofSequence)"
| "scan_record cfg p total_bytes t base (MemBatch sequence origin ms) sc =
     (if sc_sealed sc \<and> next_sequence (sc_sequence sc) = Some sequence then
        res_bind (replay_scan cfg p total_bytes t ms sc) (\<lambda>x. Inr (map_option (\<lambda>sc. sc\<lparr>sc_sequence := sequence\<rparr>) x))
      else Inl AofSequence)"

text \<open>The loop over the records of a file of \<open>bytes\<close> bytes. The outer \<open>None\<close> is a panic or a loop
  that does not end; the boolean of the result says that the tail is incomplete.\<close>

partial_function (option) scan_records ::
  "aof_config \<Rightarrow> profile \<Rightarrow> nat \<Rightarrow> sample \<Rightarrow> u64 \<Rightarrow> nat \<Rightarrow> input \<Rightarrow> scan \<Rightarrow> (aof_error + bool \<times> scan) option" where
  "scan_records cfg p total_bytes t base bytes i sc =
     (case profile_read_record p (cfg_limits cfg) i of
        Inl e \<Rightarrow> Some (Inl (AofFormat e))
      | Inr (n, i) \<Rightarrow>
          (case n of
             MemEnd \<Rightarrow> Some (Inr (False, sc))
           | MemIncomplete \<Rightarrow> Some (Inr (True, sc))
           | MemRecord r \<Rightarrow>
               (case scan_record cfg p total_bytes t base r sc of
                  Inl e \<Rightarrow> Some (Inl e)
                | Inr None \<Rightarrow> None
                | Inr (Some sc) \<Rightarrow> scan_records cfg p total_bytes t base bytes i (sc\<lparr>sc_valid := bytes - length (in_bytes i)\<rparr>))))"

declare scan_records.simps [code]

record recovered =
  rec_store :: store
  rec_layout :: durable_layout
  rec_sequence :: u64
  rec_version :: nat
  rec_usage :: "nat list"
  rec_valid_bytes :: nat
  rec_tail_bytes :: nat
  rec_replication :: "replication_metadata option"

definition scan_start :: "aof_config \<Rightarrow> aof_header \<Rightarrow> store \<Rightarrow> scan" where
  "scan_start cfg h st =
     \<lparr>sc_store = st, sc_usage = replicate (shard_count (cfg_layout cfg)) 0, sc_sequence = ah_sequence h, sc_sealed = False,
      sc_previous = None, sc_entries = 0, sc_digest = 0, sc_valid = ah_bytes h\<rparr>"

text \<open>The selected file, from its header to the end of its records.\<close>

definition load_file :: "aof_config \<Rightarrow> profile \<Rightarrow> nat \<Rightarrow> sample \<Rightarrow> nat \<Rightarrow> input \<Rightarrow> (aof_error + recovered) option" where
  "load_file cfg p total_bytes t rid file =
     (case store_with_config total_bytes rid of
        Inl e \<Rightarrow> Some (Inl (AofConfig e))
      | Inr st \<Rightarrow>
          (case profile_read_header p file of
             Inl e \<Rightarrow>
               Some (Inl (if cfg_memory_profile cfg \<and> (\<exists>v\<in>{1, 2, 3}. e = FeVersion v)
                 then AofMigration ''record-2 profile requires explicit offline migration from legacy AOF'' else AofFormat e))
           | Inr (h, i) \<Rightarrow>
               if ah_layout h \<noteq> cfg_layout cfg then Some (Inl (AofLayoutMismatch (cfg_layout cfg) (ah_layout h)))
               else do {
                 r \<leftarrow> scan_records cfg p total_bytes t (ah_sequence h) (length (in_bytes file)) i (scan_start cfg h st);
                 Some (res_bind r (\<lambda>(incomplete, sc).
                   res_bind (ensure (sc_sealed sc) AofSequence) (\<lambda>_.
                     Inr \<lparr>rec_store = sc_store sc, rec_layout = ah_layout h, rec_sequence = sc_sequence sc,
                       rec_version = ah_version h, rec_usage = sc_usage sc, rec_valid_bytes = sc_valid sc,
                       rec_tail_bytes = (if incomplete then length (in_bytes file) - sc_valid sc else 0),
                       rec_replication = ah_replication h\<rparr>)))
               }))"

end
