(* ===== verification/Decoder_Safe.thy ===== *)
theory Decoder_Safe
  imports Profile Memory_Lifecycle Replay_Correct
begin

text \<open>
  Whatever bytes a file holds, a record that the decoders accept is well formed, and
  reading it consumes input. The decoders are verified with a small logic of
  postconditions.
\<close>

section \<open>Postconditions of parsers\<close>

definition yields :: "'a parser \<Rightarrow> ('a \<Rightarrow> bool) \<Rightarrow> bool" where
  "yields p P \<longleftrightarrow> (\<forall>c x c'. p c = Inr (x, c') \<longrightarrow> P x)"

lemma yieldsD: "yields p P \<Longrightarrow> p c = Inr (x, c') \<Longrightarrow> P x"
  by (auto simp: yields_def)

lemma yields_true [simp]: "yields p (\<lambda>_. True)"
  by (simp add: yields_def)

lemma yields_return [simp]: "yields (parse_return x) P \<longleftrightarrow> P x"
  by (auto simp: yields_def parse_return_def)

lemma yields_lift [simp]: "yields (parse_lift r) P \<longleftrightarrow> (\<forall>x. r = Inr x \<longrightarrow> P x)"
  by (cases r) (auto simp: yields_def parse_lift_def)

lemma yields_bind: "yields p Q \<Longrightarrow> (\<And>x. Q x \<Longrightarrow> yields (f x) P) \<Longrightarrow> yields (parse_bind p f) P"
  by (fastforce simp: yields_def parse_bind_def result_simps)

lemma yields_then: "(\<And>x. yields (f x) P) \<Longrightarrow> yields (parse_bind p f) P"
  by (rule yields_bind [OF yields_true])

lemma yields_if: "(b \<Longrightarrow> yields p P) \<Longrightarrow> (\<not> b \<Longrightarrow> yields q P) \<Longrightarrow> yields (if b then p else q) P"
  by simp

lemma yields_guard: "yields p P \<Longrightarrow> yields (\<lambda>c. if b c then Inl e else p c) P"
  by (simp add: yields_def)

lemma yields_read_into:
  assumes "yields p Q" "I acc" "\<And>x a a'. Q x \<Longrightarrow> I a \<Longrightarrow> add x a = Inr a' \<Longrightarrow> I a'"
  shows "yields (read_into n p add acc) I"
  using assms(2)
proof (induction n arbitrary: acc)
  case (Suc n)
  with assms(3) show ?case
    unfolding read_into.simps by (intro yields_bind [OF assms(1)] yields_bind [where p = "parse_lift _" and Q = I]) auto
qed simp

lemma yields_read_into_Suc:
  assumes "I acc" "\<And>x a a'. I a \<Longrightarrow> add x a = Inr a' \<Longrightarrow> I a' \<and> J a'" "n \<noteq> 0"
  shows "yields (read_into n p add acc) (\<lambda>a. I a \<and> J a)"
proof -
  obtain m where n: "n = Suc m" using assms(3) by (cases n) auto
  have "yields (read_into m p add a) (\<lambda>a. I a \<and> J a)" if "I a \<and> J a" for a
    by (rule yields_read_into [OF yields_true]) (use that assms(2) in blast)+
  with assms(1,2) show ?thesis unfolding n read_into.simps
    by (intro yields_then yields_bind [where p = "parse_lift _" and Q = "\<lambda>a. I a \<and> J a"]) auto
qed

lemma yields_read_loop:
  "I s \<Longrightarrow> (\<And>s. I s \<Longrightarrow> yields (step s) I) \<Longrightarrow> yields (read_loop n step s) I"
  by (induction n arbitrary: s) (auto intro!: yields_bind [where Q = I])

section \<open>Values\<close>

lemma cursor_count_positive: "yields (cursor_count unit what) (\<lambda>n. n \<noteq> 0)"
  by (auto simp: yields_def cursor_count_def parse_bind_def result_simps split: if_splits)

lemma insert_scored_ok: "zs_ok z \<Longrightarrow> insert_scored x z = Inr z' \<Longrightarrow> zs_ok z' \<and> zs_members z' \<noteq> []"
  using zs_insert_ok [of z "snd x" "fst x"]
  by (auto simp: insert_scored_def Let_def case_prod_unfold fun_eq_iff split: if_splits)

lemma cursor_value_ok: "yields (cursor_value tag) value_ok"
proof -
  have "yields (read_into n cursor_scored insert_scored zs_empty) (\<lambda>z. zs_ok z \<and> zs_members z \<noteq> [])" if "n \<noteq> 0" for n
    by (rule yields_read_into_Suc) (use that insert_scored_ok in auto)
  moreover have "yields (read_into n cursor_blob insert_member []) (\<lambda>ms. bs_ok ms \<and> ms \<noteq> [])" if "n \<noteq> 0" for n
    by (rule yields_read_into_Suc) (use that in \<open>auto simp: insert_member_def split: if_splits\<close>)
  moreover have "yields (read_into n cursor_blob push_element []) (\<lambda>vs. True \<and> vs \<noteq> [])" if "n \<noteq> 0" for n
    by (rule yields_read_into_Suc) (use that in \<open>auto simp: push_element_def\<close>)
  moreover have "yields (read_into n cursor_field insert_field []) (\<lambda>fs. bm_ok fs \<and> fs \<noteq> [])" if "n \<noteq> 0" for n
    by (rule yields_read_into_Suc) (use that in \<open>auto simp: insert_field_def split: if_splits\<close>)
  ultimately show ?thesis
    unfolding cursor_value_def
    by (intro yields_if yields_then [of "\<lambda>v. parse_return (VString v)"] yields_bind [OF cursor_count_positive])
      (auto intro!: yields_bind [rotated])
qed

section \<open>Mutations and records\<close>

fun image_ok :: "mem_mutation \<Rightarrow> bool" where
  "image_ok (Legacy mu) = mutation_ok mu"
| "image_ok (Image _ c _) = collection_ok c"
| "image_ok (Delta _ _ _ _) = True"

fun record_images :: "mem_record \<Rightarrow> mem_mutation list" where
  "record_images (MemSnapshot mu) = [mu]"
| "record_images (MemSeal _ _ _) = []"
| "record_images (MemBatch _ _ ms) = ms"

lemma cursor_mutation_ok: "yields cursor_mutation mutation_ok"
  unfolding cursor_mutation_def Let_def
  by (intro yields_then yields_if yields_bind [OF cursor_value_ok]) auto

lemma from_storage_ok: "mutation_ok mu \<Longrightarrow> image_ok (from_storage mu)"
  by (cases mu rule: from_storage.cases) auto

lemma cursor_record_ok: "yields (cursor_record limits) (\<lambda>r. list_all image_ok (record_images (convert r)))"
proof -
  have "yields (read_into n cursor_mutation push_mutation []) (list_all mutation_ok)" for n
    by (rule yields_read_into [OF cursor_mutation_ok]) (auto simp: push_mutation_def)
  then have "yields (cursor_batch limits) (\<lambda>r. list_all image_ok (record_images (convert r)))"
    unfolding cursor_batch_def
    by (intro yields_then yields_guard yields_bind [where p = "read_into _ _ _ _" and Q = "list_all mutation_ok"])
      (auto simp: list_all_iff from_storage_ok)
  then show ?thesis
    unfolding cursor_record_def
    by (intro yields_then yields_if yields_bind [OF cursor_mutation_ok]) (auto intro!: yields_then simp: from_storage_ok)
qed

lemma mem_cursor_mutation_ok: "yields mem_cursor_mutation image_ok"
proof -
  have "yields (parse_bind (parse_lift (map_err (\<lambda>_. FeCorrupt ''memory image quota'') (from_members d ms key)))
      (\<lambda>c. parse_return (Image key c deadline))) image_ok" for d ms key deadline
    by (rule yields_bind [where Q = collection_ok]) (auto simp: result_simps dest: from_members_ok)
  note built = this
  have image: "yields (cursor_image key d) image_ok" for key d
    unfolding cursor_image_def case_prod_unfold by (rule yields_then, rule yields_then, rule yields_then, rule yields_then, rule built)
  have delta: "yields (cursor_delta key d) image_ok" for key d
    unfolding cursor_delta_def case_prod_unfold by (intro yields_then) simp
  have legacy: "yields (parse_bind cursor_mutation (\<lambda>mu. parse_return (Legacy mu))) image_ok"
    by (rule yields_bind [OF cursor_mutation_ok]) simp
  have "image_ok x" if run: "mem_cursor_mutation start = Inr (x, c')" for start x c'
  proof -
    obtain b c where b: "cursor_byte start = Inr (b, c)" using run by (auto simp: mem_cursor_mutation_def parse_bind_def result_simps)
    let ?tag = "of_char b :: nat"
    have rest: "yields (parse_bind (bounded_blob 1 256) (\<lambda>key. parse_bind cursor_descriptor (\<lambda>d.
        if ?tag = 7 then cursor_image key d else cursor_delta key d))) image_ok"
      by (intro yields_then yields_if image delta)
    from run b yieldsD [OF legacy] yieldsD [OF rest] show ?thesis
      by (auto simp: mem_cursor_mutation_def parse_bind_def [of cursor_byte] Let_def parse_lift_def split: if_splits)
  qed
  then show ?thesis by (auto simp: yields_def)
qed

lemma mem_cursor_record_ok: "yields (mem_cursor_record limits) (\<lambda>r. list_all image_ok (record_images r))"
proof -
  have "yields (read_loop n mem_batch_step ([], [])) (\<lambda>s. list_all image_ok (snd s))" for n
  proof (rule yields_read_loop)
    fix s :: "bytes btree_set \<times> mem_mutation list" assume "list_all image_ok (snd s)"
    then show "yields (mem_batch_step s) (\<lambda>s. list_all image_ok (snd s))"
      unfolding mem_batch_step_def
      unfolding case_prod_unfold by (intro yields_bind [OF mem_cursor_mutation_ok] yields_then [where p = "parse_lift _"]) simp
  qed simp
  then have "yields (mem_cursor_batch limits) (\<lambda>r. list_all image_ok (record_images r))"
    unfolding mem_cursor_batch_def
    by (intro yields_then yields_bind [where p = "read_loop _ _ _" and Q = "\<lambda>s. list_all image_ok (snd s)"]) auto
  then show ?thesis
    unfolding mem_cursor_record_def
    by (intro yields_then yields_if yields_bind [OF mem_cursor_mutation_ok]) (auto intro!: yields_then)
qed

section \<open>Reading a record\<close>

lemma read_framed_consumes:
  assumes "read_framed e n decode limits i = Inr (x, i')" "x \<noteq> e" "x \<noteq> n"
  shows "length (in_bytes i') < length (in_bytes i) \<and> in_fault i' = in_fault i \<and> (\<exists>body. decode body = Inr x)"
proof -
  have rest: "length (in_bytes j') \<le> length (in_bytes j) \<and> in_fault j' = in_fault j" if "read_exact m j = Inr (b, j')" for m j b j'
    using that by (auto simp: read_exact_def split: if_splits)
  have one: "length (in_bytes j') < length (in_bytes j) \<and> in_fault j' = in_fault j" if "read_one j = Inr (Some (b, j'))" for j b j'
    using that by (auto simp: read_one_def split: list.splits option.splits if_splits)
  from assms show ?thesis
    by (auto simp: read_framed_def read_rest_def Let_def result_simps split: sum.splits option.splits if_splits io_error.splits
        dest!: rest one) blast+
qed

lemma mem_read_record_ok:
  assumes "mem_read_record limits i = Inr (MemRecord r, i')"
  shows "length (in_bytes i') < length (in_bytes i) \<and> list_all image_ok (record_images r)"
proof -
  obtain body where b: "length (in_bytes i') < length (in_bytes i)"
    "res_bind (mem_decode_record body limits) (\<lambda>r. Inr (MemRecord r)) = Inr (MemRecord r)"
    using read_framed_consumes [OF assms [unfolded mem_read_record_def]] by auto
  then show ?thesis by (auto simp: mem_decode_record_def result_simps dest!: yieldsD [OF mem_cursor_record_ok])
qed

lemma read_record_ok:
  assumes "read_record limits i = Inr (NextRecord r, i')"
  shows "length (in_bytes i') < length (in_bytes i) \<and> list_all image_ok (record_images (convert r))"
proof -
  obtain body where b: "length (in_bytes i') < length (in_bytes i)"
    "res_bind (decode_record body limits) (\<lambda>r. Inr (NextRecord r)) = Inr (NextRecord r)"
    using read_framed_consumes [OF assms [unfolded read_record_def]] by auto
  then show ?thesis by (auto simp: decode_record_def result_simps dest!: yieldsD [OF cursor_record_ok])
qed

lemma profile_read_record_ok:
  "profile_read_record p limits i = Inr (MemRecord r, i') \<Longrightarrow>
   length (in_bytes i') < length (in_bytes i) \<and> list_all image_ok (record_images r)"
  by (auto simp: profile_read_record_def result_simps elim!: convert_next.elims split: if_splits
      dest: mem_read_record_ok read_record_ok)

end
