(* ===== verification/Aof_Recovery_Correct.thy ===== *)
theory Aof_Recovery_Correct
  imports Aof_Recovery Decoder_Safe Profile_Correct Memory_Lifecycle_Correct
begin

text \<open>
  Recovery from arbitrary bytes: it always ends without a panic, and what it accepts is a
  well-formed store, within its quota and with the exact usage of every shard.
\<close>

section \<open>Replaying a decoded batch\<close>

lemma replay_image_ok:
  assumes "store_ok st" "image_ok mu" "replay_image st mu = Inr img"
  shows "mutation_ok img \<and> mutation_key img = mem_key mu"
proof (cases mu)
  case (Delta key schema es d)
  with assms(3) obtain e c c' where e: "bm_get (st_values st) key = Some e" "ent_value e = VMemory c"
    "apply_edits c schema es key = Inr c'" "img = Put key (VMemory c') d"
    by (auto simp: replay_image_def result_simps split: option.splits value_splits)
  from apply_edits_ok [OF entry_memory_ok(1) [OF assms(1) e(1,2)] e(3)] e(4) Delta show ?thesis by simp
qed (use assms in \<open>auto simp: replay_image_def result_simps\<close>)

lemma replay_images_ok:
  assumes "store_ok st" "list_all image_ok ms" "replay_images st keys ms = Inr images"
  shows "(\<forall>mu\<in>set images. mutation_ok mu) \<and> map mutation_key images = map mem_key ms"
  using assms(2,3) by (induction ms arbitrary: keys images) (auto simp: result_simps replay_image_ok [OF assms(1)])

lemma prepare_replay_batch:
  assumes ok: "store_ok st" and m: "\<forall>mu\<in>set ms. mutation_ok mu" and p: "prepare_replay t ms origin st = Inr p"
  shows "batch_ok st p \<and> map fst (pr_entries p) = map mutation_key ms
    \<and> st_used st - keys_size (map fst (pr_entries p)) st + entries_size (pr_entries p) \<le> st_quota st"
proof -
  let ?ks = "map mutation_key ms"
  obtain used es used' where r: "replay_base ms [] (st_used st) st = Inr used"
    "replay_entries t st ms used = Inr (es, used')" "used' \<le> st_quota st" "p = prepared_of ROk es origin st"
    using p by (auto simp: prepare_replay_def result_simps)
  have dist: "distinct ?ks" using replay_base_distinct [OF r(1)] by simp
  have used: "used = st_used st - keys_size ?ks st"
    using replay_base_eq [OF ok _ dist, of "[]" "st_used st"] keys_size_le [OF ok dist] store_okD(8) [OF ok] r(1) by simp
  have es: "map fst es = ?ks" "used' = used + entries_size es" "\<forall>k e. (k, Some e) \<in> set es \<longrightarrow> entry_ok k e"
    using replay_entries_ok [OF r(2) m] by simp_all
  moreover have "used + entries_size es \<le> USIZE_MAX"
    using r(3) es(2) store_okD(10) [OF ok] by (simp add: USIZE_MAX_def ISIZE_MAX_def)
  ultimately show ?thesis using r(3,4) dist used by (simp add: batch_ok_def prepared_of_def)
qed

section \<open>Usage of the shards\<close>

definition owner :: "durable_layout \<Rightarrow> bytes \<Rightarrow> nat" where
  "owner layout key = shard_for \<lparr>sr_count = shard_count layout\<rparr> key"

definition shard_bytes :: "durable_layout \<Rightarrow> store \<Rightarrow> nat \<Rightarrow> nat" where
  "shard_bytes layout st shard = sum_list (map (\<lambda>(k, e). entry_size k (ent_value e)) (filter (\<lambda>(k, _). owner layout k = shard) (st_values st)))"

lemma layout_shard_for_owner:
  "layout_shard_for layout key = Inr shard \<Longrightarrow> shard = owner layout key \<and> shard < shard_count layout \<and> layout_validate layout = Inr ()"
  using shard_for_less [of "\<lparr>sr_count = shard_count layout\<rparr>" key]
  by (auto simp: layout_shard_for_def owner_def router_new_def result_simps)

lemma shard_bytes_sum:
  assumes "bm_ok (st_values st)" "finite K" "fst ` set (st_values st) \<subseteq> K"
  shows "shard_bytes layout st shard = (\<Sum>k | k \<in> K \<and> owner layout k = shard. key_size k st)"
proof -
  let ?vs = "filter (\<lambda>(k, _). owner layout k = shard) (st_values st)"
  have d: "distinct (map fst ?vs)" using bm_ok_distinct [OF assms(1)] by (simp add: distinct_map_filter)
  have inj: "inj_on fst (set ?vs)" "distinct ?vs" using d by (simp_all add: distinct_map)
  have "shard_bytes layout st shard = (\<Sum>x\<in>set ?vs. case x of (k, e) \<Rightarrow> entry_size k (ent_value e))"
    unfolding shard_bytes_def using inj(2) by (simp add: sum_list_distinct_conv_sum_set)
  also have "\<dots> = (\<Sum>x\<in>set ?vs. key_size (fst x) st)"
    using assms(1) by (intro sum.cong) (auto simp: key_size_def bm_get_mem [symmetric])
  also have "\<dots> = (\<Sum>k\<in>fst ` set ?vs. key_size k st)" using inj(1) by (simp add: sum.reindex comp_def)
  also have "\<dots> = (\<Sum>k | k \<in> K \<and> owner layout k = shard. key_size k st)"
    using assms(2,3) by (intro sum.mono_neutral_left) (force simp: key_size_def split: option.splits dest: map_of_SomeD)+
  finally show ?thesis .
qed

definition usage_exact :: "durable_layout \<Rightarrow> store \<Rightarrow> nat list \<Rightarrow> bool" where
  "usage_exact layout st usage \<longleftrightarrow>
     length usage = shard_count layout \<and> (\<forall>shard < shard_count layout. usage ! shard = shard_bytes layout st shard)"

abbreviation projected_use :: "nat list \<Rightarrow> (nat, nat) btree_map \<Rightarrow> nat \<Rightarrow> nat" where
  "projected_use usage projected shard \<equiv> (case bm_get projected shard of None \<Rightarrow> usage ! shard | Some u \<Rightarrow> u)"

lemma project_usage_exact:
  assumes "project_usage layout usage deltas projected = Inr out" "distinct (map fst deltas)" "finite K"
    and "\<forall>(k, b, a) \<in> set deltas. b = sz k \<and> k \<in> K" "bm_ok projected" "\<forall>s u. bm_get projected s = Some u \<longrightarrow> s < shard_count layout"
    and "\<forall>s < shard_count layout. projected_use usage projected s = (\<Sum>k | k \<in> K \<and> owner layout k = s. sz k)"
  shows "bm_ok out \<and> (\<forall>s u. bm_get out s = Some u \<longrightarrow> s < shard_count layout)
    \<and> (\<forall>s < shard_count layout. projected_use usage out s
        = (\<Sum>k | k \<in> K \<and> owner layout k = s. case map_of deltas k of None \<Rightarrow> sz k | Some (_, a) \<Rightarrow> a))"
  using assms
proof (induction deltas arbitrary: projected sz)
  case (Cons x deltas)
  obtain k b a where x: "x = (k, b, a)" by (cases x)
  define n where "n = owner layout k"
  let ?S = "\<lambda>s. {k \<in> K. owner layout k = s}"
  obtain n' u where u': "layout_shard_for layout k = Inr n'" "Option.bind (checked_sub (projected_use usage projected n') b) (\<lambda>v. checked_add v a) = Some u"
    "project_usage layout usage deltas (bm_insert n' u projected) = Inr out"
    using Cons.prems(1) unfolding x by (auto simp only: project_usage.simps result_simps Let_def)
  have "n' = n" using layout_shard_for_owner [OF u'(1)] by (simp add: n_def)
  with u' have u: "layout_shard_for layout k = Inr n" "b \<le> projected_use usage projected n"
    "u = projected_use usage projected n - b + a" "project_usage layout usage deltas (bm_insert n u projected) = Inr out"
    by (simp_all only: bind_eq_Some_conv checked_simps) auto
  have n: "n < shard_count layout" using layout_shard_for_owner [OF u(1)] by blast
  have k: "b = sz k" "k \<in> K" "k \<notin> fst ` set deltas" using Cons.prems(2,4) x by auto
  define sz' where "sz' = sz(k := a)"
  have fin: "finite (?S s)" for s using Cons.prems(3) by simp
  have "projected_use usage (bm_insert n u projected) s = sum sz' (?S s)" if s: "s < shard_count layout" for s
  proof (cases "s = n")
    case True
    have kn: "k \<in> ?S n" using k(2) by (simp add: n_def)
    have "sum sz' (?S n - {k}) = sum sz (?S n - {k})" by (intro sum.cong) (auto simp: sz'_def)
    then have "sum sz' (?S n) = a + sum sz (?S n - {k})" using sum.remove [OF fin kn, of sz'] by (simp add: sz'_def)
    moreover have "projected_use usage projected n = sz k + sum sz (?S n - {k})"
      using Cons.prems(7) n sum.remove [OF fin kn, of sz] by simp
    ultimately show ?thesis using u(3) k(1) Cons.prems(5) True by simp
  next
    case False
    have "sum sz' (?S s) = sum sz (?S s)" using False by (intro sum.cong) (auto simp: sz'_def n_def)
    with False s Cons.prems(5,7) show ?thesis by simp
  qed
  moreover have "\<forall>(k, b, a) \<in> set deltas. b = sz' k \<and> k \<in> K" 
  proof (clarify)
    fix k' b' a' assume m: "(k', b', a') \<in> set deltas"
    then have "k' \<noteq> k" using k(3) by force
    with m Cons.prems(4) show "b' = sz' k' \<and> k' \<in> K" by (auto simp: sz'_def)
  qed
  moreover have "\<forall>s v. bm_get (bm_insert n u projected) s = Some v \<longrightarrow> s < shard_count layout"
    using Cons.prems(5,6) n by simp
  ultimately have *: "bm_ok out \<and> (\<forall>s u. bm_get out s = Some u \<longrightarrow> s < shard_count layout)
    \<and> (\<forall>s < shard_count layout. projected_use usage out s
        = (\<Sum>k | k \<in> K \<and> owner layout k = s. case map_of deltas k of None \<Rightarrow> sz' k | Some (_, a) \<Rightarrow> a))"
    using Cons.IH [OF u(4), of sz'] Cons.prems(2,3,5) x by simp
  have "(case map_of deltas k' of None \<Rightarrow> sz' k' | Some (_, a) \<Rightarrow> a) = (case map_of (x # deltas) k' of None \<Rightarrow> sz k' | Some (_, a) \<Rightarrow> a)" for k'
  proof (cases "k' = k")
    case True
    then have "map_of deltas k' = None" using k(3) by (simp add: map_of_eq_None_iff)
    with True show ?thesis by (simp add: x sz'_def)
  next
    case False
    then show ?thesis by (cases "map_of deltas k'") (simp_all add: x sz'_def)
  qed
  with * show ?case by simp
qed simp

lemma update_usage:
  "distinct (map fst out) \<Longrightarrow> s < length usage \<Longrightarrow>
   fold (\<lambda>(s, u) us. us[s := u]) out usage ! s = (case map_of out s of None \<Rightarrow> usage ! s | Some u \<Rightarrow> u)"
proof (induction out arbitrary: usage)
  case (Cons x out)
  have "map_of out s = None" if "s = fst x" using Cons.prems(1) that by (simp add: map_of_eq_None_iff)
  with Cons.IH [of "usage[fst x := snd x]"] Cons.prems show ?case
    by (cases x) (auto simp: nth_list_update split: option.split)
qed simp

lemma length_update_usage: "length (fold (\<lambda>(s, u) us. us[s := u]) out usage) = length usage"
  by (induction out arbitrary: usage) auto

lemma usage_deltas_sizes:
  assumes "usage_deltas p st = Inr deltas" "store_ok st" "batch_ok st p"
  shows "deltas = map (\<lambda>(k, e). (k, key_size k st, option_size k e)) (pr_entries p)"
proof -
  have before: "charge k (bm_get (st_values st) k) = Inr (key_size k st)" for k
    using store_okD(4) [OF assms(2), of k] by (auto simp: charge_def key_size_def entry_ok_bytes split: option.split)
  have after: "charge k e = Inr (option_size k e)" if "(k, e) \<in> set (pr_entries p)" for k e
    using assms(3) that by (cases e) (auto simp: charge_def batch_ok_def entry_ok_bytes)
  have "res_mapM (\<lambda>(key, after). res_bind (charge key (bm_get (st_values st) key)) (\<lambda>b. res_bind (charge key after) (\<lambda>a. Inr (key, b, a)))) es
      = Inr (map (\<lambda>(k, e). (k, key_size k st, option_size k e)) es)" if "set es \<subseteq> set (pr_entries p)" for es
    using that by (induction es) (auto simp: before after)
  with assms(1) show ?thesis by (simp add: usage_deltas_def)
qed

text \<open>What replaying a batch into the shards keeps.\<close>

definition shards_ok :: "durable_layout \<Rightarrow> nat \<Rightarrow> store \<Rightarrow> nat list \<Rightarrow> bool" where
  "shards_ok layout total_bytes st usage \<longleftrightarrow> store_ok st \<and> st_quota st = total_bytes \<and> st_used st \<le> total_bytes
     \<and> usage_exact layout st usage
     \<and> (\<forall>shard < shard_count layout. \<forall>quota. layout_quota layout total_bytes shard = Inr quota \<longrightarrow> usage ! shard \<le> quota)"

lemma check_quotas_ok:
  "check_quotas layout total_bytes out = Inr u \<Longrightarrow> (shard, used) \<in> set out \<Longrightarrow> layout_quota layout total_bytes shard = Inr q \<Longrightarrow> used \<le> q"
  by (induction out) (auto simp: result_simps)

lemma usage_exact_after:
  assumes ok: "store_ok st" "store_ok st'" and b: "batch_ok st p" and u: "usage_exact layout st usage"
    and st': "stored st' = (\<lambda>k. case map_of (pr_entries p) k of None \<Rightarrow> stored st k | Some e \<Rightarrow> map_option unstamped e)"
    and d: "usage_deltas p st = Inr deltas" "project_usage layout usage deltas [] = Inr out"
  shows "usage_exact layout st' (fold (\<lambda>(s, u) us. us[s := u]) out usage)
    \<and> bm_ok out \<and> (\<forall>s u. bm_get out s = Some u \<longrightarrow> s < shard_count layout)"
proof -
  let ?es = "pr_entries p" and ?n = "shard_count layout"
  define K where "K = fst ` set (st_values st) \<union> fst ` set (st_values st') \<union> fst ` set ?es"
  have K: "finite K" "fst ` set (st_values st) \<subseteq> K" "fst ` set (st_values st') \<subseteq> K" "fst ` set ?es \<subseteq> K" by (auto simp: K_def)
  note ds = usage_deltas_sizes [OF d(1) ok(1) b]
  have dist: "distinct (map fst ?es)" using b by (simp add: batch_ok_def)
  have size': "key_size k st' = (case map_of ?es k of None \<Rightarrow> key_size k st | Some e \<Rightarrow> option_size k e)" for k
  proof -
    have ks: "key_size k s = option_size k (stored s k)" for s by (auto simp: key_size_def stored_def split: option.split)
    have un: "option_size k (map_option unstamped e) = option_size k e" for e by (cases e) simp_all
    show ?thesis unfolding ks st' by (simp add: un split: option.split)
  qed
  have "map_of (map (\<lambda>(k, e). (k, key_size k st, option_size k e)) xs) k = map_option (\<lambda>e. (key_size k st, option_size k e)) (map_of xs k)" for k xs
    by (induction xs) (auto split: option.split)
  then have "map_of deltas k = map_option (\<lambda>e. (key_size k st, option_size k e)) (map_of ?es k)" for k
    unfolding ds .
  then have sz: "(case map_of deltas k of None \<Rightarrow> key_size k st | Some (_, a) \<Rightarrow> a) = key_size k st'" for k
    by (simp add: size' split: option.split)
  have start: "\<forall>s < ?n. projected_use usage [] s = (\<Sum>k | k \<in> K \<and> owner layout k = s. key_size k st)"
    using u shard_bytes_sum [OF store_okD(1) [OF ok(1)] K(1,2)] by (simp add: usage_exact_def)
  have "distinct (map fst deltas)" "\<forall>(k, b, a) \<in> set deltas. b = key_size k st \<and> k \<in> K"
    using dist K(4) by (force simp: ds comp_def case_prod_unfold)+
  from project_usage_exact [OF d(2) this(1) K(1) this(2) _ _ start]
  have out: "bm_ok out" "\<forall>s u. bm_get out s = Some u \<longrightarrow> s < ?n"
    "\<forall>s < ?n. projected_use usage out s = (\<Sum>k | k \<in> K \<and> owner layout k = s. key_size k st')"
    by (simp_all add: sz)
  have "fold (\<lambda>(s, u) us. us[s := u]) out usage ! s = shard_bytes layout st' s" if "s < ?n" for s
    using update_usage [OF bm_ok_distinct [OF out(1)], of s usage] that u out(3)
      shard_bytes_sum [OF store_okD(1) [OF ok(2)] K(1,3), of layout s]
    by (simp add: usage_exact_def)
  with u out show ?thesis by (simp add: usage_exact_def length_update_usage)
qed

lemma replay_routed_memory_ok:
  assumes s: "shards_ok layout total_bytes st usage" and m: "list_all image_ok ms"
    and r: "replay_routed_memory t ms layout total_bytes mixed st usage = Inr x"
  shows "\<exists>st' usage'. x = Some (st', usage') \<and> shards_ok layout total_bytes st' usage'"
proof -
  have ok: "store_ok st" "st_quota st = total_bytes" "usage_exact layout st usage" using s by (simp_all add: shards_ok_def)
  obtain images p deltas out where p: "replay_images st [] ms = Inr images" "prepare_replay t images Client st = Inr p"
    "usage_deltas p st = Inr deltas" "project_usage layout usage deltas [] = Inr out" "check_quotas layout total_bytes out = Inr ()"
    and x: "x = map_option (\<lambda>(_, st'). (st', fold (\<lambda>(s, u) us. us[s := u]) out usage)) (apply_prepared p st)"
    using r by (auto simp: replay_routed_memory_def prepare_memory_replay_def result_simps)
  have "\<forall>mu\<in>set images. mutation_ok mu" using replay_images_ok [OF ok(1) m p(1)] by blast
  note b = prepare_replay_batch [OF ok(1) this p(2)]
  obtain st' where st': "apply_prepared p st = Some (pr_reply p, st')" "store_ok st'" "st_quota st' = st_quota st"
    "st_used st' = st_used st - keys_size (map fst (pr_entries p)) st + entries_size (pr_entries p)"
    "stored st' = (\<lambda>k. case map_of (pr_entries p) k of None \<Rightarrow> stored st k | Some e \<Rightarrow> map_option unstamped e)"
    by (rule apply_prepared_ok [OF ok(1)]) (use b in blast)
  have e: "usage_exact layout st' (fold (\<lambda>(s, u) us. us[s := u]) out usage)" "bm_ok out"
    using usage_exact_after [OF ok(1) st'(2) _ ok(3) st'(5) p(3,4)] b by blast+
  have "fold (\<lambda>(s, u) us. us[s := u]) out usage ! shard \<le> quota"
    if "shard < shard_count layout" "layout_quota layout total_bytes shard = Inr quota" for shard quota
    using update_usage [OF bm_ok_distinct [OF e(2)], of shard usage] that ok(3) s check_quotas_ok [OF p(5)]
    by (auto simp: usage_exact_def shards_ok_def split: option.splits dest: map_of_SomeD)
  moreover have "st_used st' \<le> total_bytes" using b st'(4) ok(2) by (metis (no_types))
  ultimately show ?thesis using st'(1-3) e(1) ok(2) x by (simp add: shards_ok_def)
qed

section \<open>The scan\<close>

lemma scan_record_ok:
  assumes "shards_ok (cfg_layout cfg) total_bytes (sc_store sc) (sc_usage sc)" "list_all image_ok (record_images r)"
    and "scan_record cfg p total_bytes t base r sc = Inr x"
  shows "\<exists>sc'. x = Some sc' \<and> shards_ok (cfg_layout cfg) total_bytes (sc_store sc') (sc_usage sc') \<and> sc_valid sc' = sc_valid sc"
proof -
  have replay: "\<exists>sc'. x = Some sc' \<and> shards_ok (cfg_layout cfg) total_bytes (sc_store sc') (sc_usage sc') \<and> sc_valid sc' = sc_valid sc0"
    if "replay_scan cfg p total_bytes t ms sc0 = Inr x" "sc_store sc0 = sc_store sc" "sc_usage sc0 = sc_usage sc" "list_all image_ok ms" for ms sc0 x
    using that replay_routed_memory_ok [OF assms(1) that(4)] by (fastforce simp: replay_scan_def result_simps)
  show ?thesis
  proof (cases r)
    case (MemSnapshot mu)
    with assms(2,3) show ?thesis by (auto simp: result_simps split: if_splits dest!: replay)
  next
    case (MemBatch s og ms)
    with assms(2,3) show ?thesis by (auto simp: result_simps split: if_splits dest!: replay)
  qed (use assms in \<open>auto split: if_splits\<close>)
qed

lemma scan_records_returns:
  assumes "shards_ok (cfg_layout cfg) total_bytes (sc_store sc) (sc_usage sc)" "sc_valid sc + length (in_bytes i) = bytes"
  shows "\<exists>res. scan_records cfg p total_bytes t base bytes i sc = Some res
    \<and> (\<forall>incomplete sc'. res = Inr (incomplete, sc') \<longrightarrow>
         shards_ok (cfg_layout cfg) total_bytes (sc_store sc') (sc_usage sc') \<and> sc_valid sc' \<le> bytes)"
  using assms
proof (induction "length (in_bytes i)" arbitrary: i sc rule: less_induct)
  case less
  show ?case
  proof (cases "\<exists>r i'. profile_read_record p (cfg_limits cfg) i = Inr (MemRecord r, i')")
    case False
    with less.prems show ?thesis
      by (subst scan_records.simps) (auto split: sum.split prod.split mem_next.split)
  next
    case True
    then obtain r i' where r: "profile_read_record p (cfg_limits cfg) i = Inr (MemRecord r, i')" by blast
    note o = profile_read_record_ok [OF r]
    show ?thesis
    proof (cases "scan_record cfg p total_bytes t base r sc")
      case (Inl e)
      with r show ?thesis by (subst scan_records.simps) simp
    next
      case (Inr x)
      then obtain sc' where sc': "x = Some sc'" "shards_ok (cfg_layout cfg) total_bytes (sc_store sc') (sc_usage sc')"
        using scan_record_ok [OF less.prems(1)] o by blast
      let ?sc = "sc'\<lparr>sc_valid := bytes - length (in_bytes i')\<rparr>"
      have "scan_records cfg p total_bytes t base bytes i sc = scan_records cfg p total_bytes t base bytes i' ?sc"
        using r Inr sc'(1) by (subst scan_records.simps) simp
      moreover have "sc_valid ?sc + length (in_bytes i') = bytes" using o less.prems(2) by simp
      ultimately show ?thesis using less.hyps [of i' ?sc] o sc'(2) by simp
    qed
  qed
qed

section \<open>Arbitrary files\<close>

lemma profile_header_bytes:
  "profile_read_header p file = Inr (h, i) \<Longrightarrow> ah_bytes h + length (in_bytes i) = length (in_bytes file)"
proof -
  have exact: "n + length (in_bytes j') = length (in_bytes j)" if "read_exact n j = Inr (b, j')" for n j b j'
    using that by (auto simp: read_exact_def split: if_splits)
  have header: "n + length (in_bytes j') = length (in_bytes j)" if "read_header_exact n j = Inr (b, j')" for n j b j'
    using that by (auto simp: read_header_exact_def split: sum.splits io_error.splits dest: exact)
  show "profile_read_header p file = Inr (h, i) \<Longrightarrow> ?thesis"
    by (cases p)
      (auto simp: read_header_with_layout_def mem_read_header_def composed_read_header_def Let_def result_simps
        header_size_def mem_header_size_def mem_decode_metadata_def HEADER_BYTES_def LAYOUT_HEADER_BYTES_def REPLICATION_HEADER_BYTES_def MEMORY_HEADER_BYTES_def
        MEMORY_REPLICATION_HEADER_BYTES_def COMPOSED_HEADER_BYTES_def MEMORY_HEADER_VERSION_def MEMORY_REPLICATION_HEADER_VERSION_def
        split: if_splits dest!: exact header)
qed

lemma store_with_config_ok:
  "store_with_config total_bytes rid = Inr st \<Longrightarrow> store_ok st \<and> st_quota st = total_bytes \<and> st_used st = 0 \<and> st_values st = []"
  by (auto simp: store_with_config_def validate_quota_def result_simps store_ok_def key_index_def member_index_def total_size_def)

lemma scan_start_ok:
  assumes "store_with_config total_bytes rid = Inr st"
  shows "shards_ok (cfg_layout cfg) total_bytes (sc_store (scan_start cfg h st)) (sc_usage (scan_start cfg h st))"
  using store_with_config_ok [OF assms] by (simp add: shards_ok_def scan_start_def usage_exact_def shard_bytes_def)

lemma load_file_returns:
  "\<exists>res. load_file cfg p total_bytes t rid file = Some res
    \<and> (\<forall>r. res = Inr r \<longrightarrow> shards_ok (rec_layout r) total_bytes (rec_store r) (rec_usage r) \<and> rec_layout r = cfg_layout cfg
         \<and> rec_valid_bytes r \<le> length (in_bytes file)
         \<and> (rec_tail_bytes r = 0 \<or> rec_valid_bytes r + rec_tail_bytes r = length (in_bytes file)))"
proof (cases "\<exists>st h i. store_with_config total_bytes rid = Inr st \<and> profile_read_header p file = Inr (h, i) \<and> ah_layout h = cfg_layout cfg")
  case True
  then obtain st h i where o: "store_with_config total_bytes rid = Inr st" "profile_read_header p file = Inr (h, i)" "ah_layout h = cfg_layout cfg"
    by blast
  have "sc_valid (scan_start cfg h st) + length (in_bytes i) = length (in_bytes file)"
    using profile_header_bytes [OF o(2)] by (simp add: scan_start_def)
  from scan_records_returns [OF scan_start_ok [OF o(1)] this]
  obtain res where "scan_records cfg p total_bytes t (ah_sequence h) (length (in_bytes file)) i (scan_start cfg h st) = Some res"
    "\<forall>incomplete sc'. res = Inr (incomplete, sc') \<longrightarrow>
       shards_ok (cfg_layout cfg) total_bytes (sc_store sc') (sc_usage sc') \<and> sc_valid sc' \<le> length (in_bytes file)"
    by blast
  with o show ?thesis by (auto simp: load_file_def result_simps)
next
  case False
  then show ?thesis by (auto simp: load_file_def split: sum.split)
qed

section \<open>A file that was written\<close>

fun scan_all :: "aof_config \<Rightarrow> profile \<Rightarrow> nat \<Rightarrow> sample \<Rightarrow> u64 \<Rightarrow> mem_record list \<Rightarrow> scan \<Rightarrow> (aof_error + scan) option" where
  "scan_all cfg p total_bytes t base [] sc = Some (Inr sc)"
| "scan_all cfg p total_bytes t base (r # rs) sc =
     (case scan_record cfg p total_bytes t base r sc of
        Inl e \<Rightarrow> Some (Inl e)
      | Inr None \<Rightarrow> None
      | Inr (Some sc) \<Rightarrow> scan_all cfg p total_bytes t base rs sc)"

lemma replay_scan_valid:
  "replay_scan cfg p total_bytes t ms (sc\<lparr>sc_valid := v\<rparr>)
    = res_bind (replay_scan cfg p total_bytes t ms sc) (\<lambda>x. Inr (map_option (\<lambda>sc. sc\<lparr>sc_valid := v\<rparr>) x))"
  by (auto simp: replay_scan_def res_bind_def option.map_comp comp_def case_prod_unfold split: sum.split intro!: option.map_cong0)

lemma scan_record_valid:
  "scan_record cfg p total_bytes t base r (sc\<lparr>sc_valid := v\<rparr>)
    = res_bind (scan_record cfg p total_bytes t base r sc) (\<lambda>x. Inr (map_option (\<lambda>sc. sc\<lparr>sc_valid := v\<rparr>) x))"
proof (cases r)
  case (MemSnapshot mu)
  have "sc\<lparr>sc_valid := v, sc_previous := a, sc_entries := b, sc_digest := c\<rparr> = (sc\<lparr>sc_previous := a, sc_entries := b, sc_digest := c\<rparr>)\<lparr>sc_valid := v\<rparr>" for a b c
    by simp
  with MemSnapshot show ?thesis by (simp only: scan_record.simps)
    (auto simp: replay_scan_valid res_bind_def split: sum.split)
next
  case (MemBatch s og ms)
  then show ?thesis by (simp add: replay_scan_valid) (auto simp: res_bind_def option.map_comp comp_def split: sum.split intro!: option.map_cong0)
qed simp

lemma scan_all_valid:
  "scan_all cfg p total_bytes t base rs sc = Some (Inr sc') \<Longrightarrow>
   scan_all cfg p total_bytes t base rs (sc\<lparr>sc_valid := v\<rparr>) = Some (Inr (sc'\<lparr>sc_valid := v\<rparr>))"
  by (induction rs arbitrary: sc) (auto simp: scan_record_valid split: sum.splits option.splits)

lemma scan_records_written:
  assumes "encode_all (\<lambda>r. profile_encode p r (cfg_limits cfg)) rs = Inr ws" "list_all (profile_wire p (cfg_limits cfg)) rs"
    and "profile_encode p r (cfg_limits cfg) = Inr w" "profile_wire p (cfg_limits cfg) r" "n < length w"
    and "scan_all cfg p total_bytes t base rs sc = Some (Inr sc')" "sc_valid sc + length (ws @ take n w) = bytes"
  shows "scan_records cfg p total_bytes t base bytes \<lparr>in_bytes = ws @ take n w, in_fault = None\<rparr> sc
    = Some (Inr (n \<noteq> 0, sc'\<lparr>sc_valid := bytes - n\<rparr>))"
  using assms(1,2,6,7)
proof (induction rs arbitrary: ws sc sc')
  case Nil
  then show ?case using pl.torn [OF assms(3-5)] assms(5) by (subst scan_records.simps) auto
next
  case (Cons a rs)
  obtain v vs where v: "profile_encode p a (cfg_limits cfg) = Inr v" "encode_all (\<lambda>r. profile_encode p r (cfg_limits cfg)) rs = Inr vs" "ws = v @ vs"
    using Cons.prems(1) by (auto simp: result_simps)
  obtain sc1 where sc1: "scan_record cfg p total_bytes t base a sc = Inr (Some sc1)" "scan_all cfg p total_bytes t base rs sc1 = Some (Inr sc')"
    using Cons.prems(3) by (auto split: sum.splits option.splits)
  let ?sc = "sc1\<lparr>sc_valid := bytes - length (vs @ take n w)\<rparr>"
  have "profile_read_record p (cfg_limits cfg) \<lparr>in_bytes = ws @ take n w, in_fault = None\<rparr>
      = Inr (MemRecord a, \<lparr>in_bytes = vs @ take n w, in_fault = None\<rparr>)"
    using pl.reads_back [OF v(1), of "vs @ take n w" None] Cons.prems(2) v(3) by simp
  then have "scan_records cfg p total_bytes t base bytes \<lparr>in_bytes = ws @ take n w, in_fault = None\<rparr> sc
      = scan_records cfg p total_bytes t base bytes \<lparr>in_bytes = vs @ take n w, in_fault = None\<rparr> ?sc"
    using sc1(1) by (subst scan_records.simps) simp
  also have "\<dots> = Some (Inr (n \<noteq> 0, sc'\<lparr>sc_valid := bytes - n\<rparr>))"
    using Cons.IH [OF v(2) _ scan_all_valid [OF sc1(2)]] Cons.prems(2,4) v(3) by simp
  finally show ?case .
qed

lemma load_file_written:
  assumes "store_with_config total_bytes rid = Inr st" "profile_write_header p base (cfg_layout cfg) meta = Inr h" "metadata_ok meta"
    and "encode_all (\<lambda>r. profile_encode p r (cfg_limits cfg)) rs = Inr ws" "list_all (profile_wire p (cfg_limits cfg)) rs"
    and "profile_encode p r (cfg_limits cfg) = Inr w" "profile_wire p (cfg_limits cfg) r" "n < length w"
    and "\<And>hd. ah_sequence hd = base \<Longrightarrow> \<exists>sc. scan_all cfg p total_bytes t base rs (scan_start cfg hd st) = Some (Inr sc)
           \<and> sc_sealed sc \<and> P (sc_store sc) (sc_sequence sc)"
  shows "\<exists>rc. load_file cfg p total_bytes t rid \<lparr>in_bytes = h @ ws @ take n w, in_fault = None\<rparr> = Some (Inr rc)
    \<and> P (rec_store rc) (rec_sequence rc) \<and> rec_tail_bytes rc = n \<and> rec_replication rc = meta"
proof -
  let ?b = "length h + length (ws @ take n w)"
  obtain hd where hd: "profile_read_header p \<lparr>in_bytes = h @ ws @ take n w, in_fault = None\<rparr> = Inr (hd, \<lparr>in_bytes = ws @ take n w, in_fault = None\<rparr>)"
    "ah_sequence hd = base" "ah_layout hd = cfg_layout cfg" "ah_bytes hd = length h" "ah_replication hd = meta"
    using profile_header_decodes [OF assms(2,3), of "ws @ take n w" None] by simp
  obtain sc where sc: "scan_all cfg p total_bytes t base rs (scan_start cfg hd st) = Some (Inr sc)" "sc_sealed sc" "P (sc_store sc) (sc_sequence sc)"
    using assms(9) [OF hd(2)] by blast
  have "scan_records cfg p total_bytes t base ?b \<lparr>in_bytes = ws @ take n w, in_fault = None\<rparr> (scan_start cfg hd st)
      = Some (Inr (n \<noteq> 0, sc\<lparr>sc_valid := ?b - n\<rparr>))"
    by (rule scan_records_written [OF assms(4-8) sc(1)]) (simp add: scan_start_def hd(4))
  then show ?thesis using assms(1) hd sc(2,3) assms(8) by (simp add: load_file_def)
qed

section \<open>Properties\<close>

text \<open>
  C7. Opening a file ends whatever bytes it holds: the scan never loops and never panics,
  it returns a recovered state or an error.
\<close>

theorem recovery_terminates: "\<exists>res. load_file cfg p total_bytes t rid file = Some res"
  using load_file_returns [of cfg p total_bytes t rid "file"] by blast

text \<open>
  C8. Whatever bytes a file holds, a recovery that succeeds gives a well-formed store of
  the configured layout within the total quota; the usage it reports for each shard is
  exactly the size of the entries whose keys the shard owns, and no shard exceeds its
  share of the quota.
\<close>

theorem recovery_is_sound:
  assumes "load_file cfg p total_bytes t rid file = Some (Inr r)"
  shows "store_ok (rec_store r) \<and> rec_layout r = cfg_layout cfg \<and> st_quota (rec_store r) = total_bytes
    \<and> st_used (rec_store r) \<le> total_bytes \<and> length (rec_usage r) = shard_count (cfg_layout cfg)
    \<and> (\<forall>shard < shard_count (cfg_layout cfg). rec_usage r ! shard = shard_bytes (cfg_layout cfg) (rec_store r) shard)
    \<and> (\<forall>shard < shard_count (cfg_layout cfg). \<forall>quota.
         layout_quota (cfg_layout cfg) total_bytes shard = Inr quota \<longrightarrow> rec_usage r ! shard \<le> quota)
    \<and> rec_valid_bytes r \<le> length (in_bytes file)"
  using load_file_returns [of cfg p total_bytes t rid "file"] assms by (auto simp: shards_ok_def usage_exact_def)

theorem recovery_is_sound_witness:
  "\<exists>h ws r. profile_write_header LegacyProfile 4 layout_default None = Inr h
    \<and> encode_all (\<lambda>r. profile_encode LegacyProfile r aof_limits_default) [MemSeal 4 0 0, MemBatch 5 Client [Legacy (Delete ''d'')]] = Inr ws
    \<and> load_file (aof_config_new ''dir'') LegacyProfile 1000 \<lparr>t_now = 3, t_unix = 5\<rparr> 0 \<lparr>in_bytes = h @ ws, in_fault = None\<rparr> = Some (Inr r)
    \<and> store_ok (rec_store r) \<and> rec_sequence r = 5 \<and> rec_usage r ! 0 = shard_bytes layout_default (rec_store r) 0"
proof -
  let ?p = LegacyProfile and ?l = aof_limits_default and ?t = "\<lparr>t_now = 3, t_unix = 5\<rparr>" and ?c = "aof_config_new ''dir''"
  let ?rs = "[MemSeal 4 0 0, MemBatch 5 Client [Legacy (Delete ''d'')]]"
  obtain h where h: "profile_write_header ?p 4 (cfg_layout ?c) None = Inr h"
    using layout_default_ok by (simp add: write_header_with_replication_def aof_config_new_def)
  obtain ws where ws: "encode_all (\<lambda>r. profile_encode ?p r (cfg_limits ?c)) ?rs = Inr ws"
    by (simp add: record_eval aof_config_new_def)
  obtain st where st: "store_with_config 1000 0 = Inr st"
    by (simp add: store_with_config_def validate_quota_def ISIZE_MAX_def)
  have st': "st_values st = []" "st_used st = 0" "st_quota st = 1000" using store_with_config_ok [OF st] by simp_all
  have "\<exists>w. profile_encode ?p (MemSeal 0 0 0) (cfg_limits ?c) = Inr w \<and> 0 < length w" by (simp add: record_eval aof_config_new_def)
  then obtain w where w: "profile_encode ?p (MemSeal 0 0 0) (cfg_limits ?c) = Inr w" "0 < length w" by blast
  have wire: "list_all (profile_wire ?p (cfg_limits ?c)) ?rs" "profile_wire ?p (cfg_limits ?c) (MemSeal 0 0 0)" "metadata_ok None"
    by (simp_all add: profile_wire_def metadata_ok_def)
  have shard: "layout_shard_for layout_default k = Inr 0" for k
    using layout_default_ok layout_shard_for_owner [of layout_default k] by (auto simp: layout_shard_for_def layout_default_def router_new_def result_simps MAX_SHARDS_def)
  have one: "shard_count layout_default = 1" by (simp add: layout_default_def)
  have "\<exists>sc. scan_all ?c ?p 1000 ?t 4 ?rs (scan_start ?c hd st) = Some (Inr sc) \<and> sc_sealed sc \<and> sc_sequence sc = 5"
    if "ah_sequence hd = 4" for hd
    using that st' shard layout_default_ok one
    by (simp add: checked_sub_def checked_add_def USIZE_MAX_def scan_start_def aof_config_new_def replay_scan_def replay_routed_memory_def prepare_memory_replay_def replay_image_def
        prepare_replay_def next_sequence_def usage_deltas_def charge_def prepared_of_def checked_simps layout_quota_def apply_prepared_def remove_None)
  from load_file_written [OF st h wire(3) ws wire(1) w(1) wire(2) w(2) this]
  obtain r where r: "load_file ?c ?p 1000 ?t 0 \<lparr>in_bytes = h @ ws, in_fault = None\<rparr> = Some (Inr r)" "rec_sequence r = 5" by auto
  from recovery_is_sound [OF r(1)] r(1,2) h ws show ?thesis by (auto simp: aof_config_new_def layout_default_def)
qed

end
