(* ===== verification/Spec2Isabelle.thy ===== *)
theory Spec2Isabelle
  imports Resp_Roundtrip Parser_Correct Memory_Correct Score_Correct Keyspace Store_Watch Replay_Correct Transaction Routing Aof_Correct Memory_Format_Correct
    Memory_Commands Profile_Correct Aof_Recovery_Correct
begin

text \<open>
  A verification library for sider, a server that speaks RESP, keeps keys in memory under a
  byte quota, divides them among shards, stores vectors with metadata ("memory collections"),
  and makes its state durable in an append-only file. Paths below are relative to \<open>src/src\<close>.

  \<^bold>\<open>How the parts interact.\<close> A connection feeds bytes to the RESP decoder; a frame is parsed to a
  command; the command is routed to the shard that owns its keys; the shard prepares it on a
  shadow of its store, appends the resolved batch of mutations to the file, applies it, and
  the reply is encoded. At start the file is read back and replayed. The library follows this
  path; each link has a theory with the definitions and one with the lemmas and properties.

  \<^bold>\<open>Conventions.\<close> \<open>Bytes\<close> are lists of characters, \<open>usize\<close> is a natural number with the checked and
  wrapping operations of Rust on 64 bits (\<open>Prelude\<close>), \<open>i64\<close> is an integer with its range, \<open>u64\<close>
  and \<open>u32\<close> are words. A \<open>Result\<close> is a sum whose left side is the error. \<open>None\<close> in the result
  type of a state transformer is a panic. Ordered maps and sets of the standard library are
  strictly increasing lists (\<open>Ordered\<close>, with the interfaces \<open>dictionary\<close> and \<open>key_set\<close> and their
  interpretations). Time is a \<open>sample\<close>: a monotonic instant in nanoseconds and the wall clock in
  milliseconds, read once per operation.

  \<^bold>\<open>RESP\<close> (\<open>resp/\<close>). \<open>Resp_Frame\<close>, \<open>Resp_Decoder\<close>, \<open>Resp_Encoder\<close>: frames, limits, the incremental
  scanner with its node and array stacks, and the two-pass encoder. \<open>Resp_Roundtrip\<close>: what is
  encoded is decoded, in any fragments; a failure is terminal; the encoder's size is exact.

  \<^bold>\<open>Commands\<close> (\<open>command/\<close>). \<open>Command_Base\<close>, \<open>Command\<close>, \<open>Parser\<close>: typed commands and replies, and the
  parser of every request. \<open>Float64\<close>, \<open>Float_Text\<close>, \<open>Fpconv\<close>, \<open>Score\<close>: doubles as bits, their
  text, the Grisu digit generator, and the scores of sorted sets. \<open>Parser_Correct\<close>,
  \<open>Score_Correct\<close>: a parsed command satisfies what the store assumes; which errors are fatal;
  case of names is ignored; scores are ordered by value.

  \<^bold>\<open>Memory collections\<close> (\<open>storage/memory.rs\<close>). \<open>Memory\<close>, \<open>Memory_Correct\<close>: validation, sizes, guarded
  edits and the bounded search, which is exact.

  \<^bold>\<open>Store\<close> (\<open>storage/mod.rs\<close>, \<open>collections.rs\<close>, \<open>sorted_set.rs\<close>, \<open>value.rs\<close>, \<open>watch.rs\<close>). \<open>Value\<close>, \<open>Watch\<close>,
  \<open>Store\<close>: entries with generation and deadlines, the two expiration indexes, the quota, every
  command, and the registry of observations. \<open>Store_Correct\<close> has the invariant \<open>store_ok\<close>;
  \<open>Keyspace\<close> the specification of the commands on a map from keys to values, and that the store
  implements it; \<open>Store_Watch\<close> that a valid observation means an unchanged key.

  \<^bold>\<open>Batches\<close> (\<open>storage/mutation.rs\<close>, \<open>transaction.rs\<close>). \<open>Mutation\<close>: preparation on a shadow, resolved
  mutations, application, snapshots, replay, and the maintenance batch. \<open>Mutation_Sim\<close>,
  \<open>Mutation_Correct\<close>: preparing and applying is executing. \<open>Expiration_Correct\<close>: the maintenance
  batch is bounded and removes only what is due. \<open>Transaction\<close>: a transaction of one owner is
  the sequence of its commands. \<open>Replay_Correct\<close>: replay of a snapshot, and of the log of a store in
  service, restores the durable state. The relation \<open>mirrors\<close> carries it.

  \<^bold>\<open>Memory commands\<close> (\<open>storage/memory_lifecycle.rs\<close>). \<open>Memory_Lifecycle\<close>: operations, preparation,
  replay of images and deltas. \<open>Memory_Delta\<close>: the delta of two images, applied to the first, is the
  second. \<open>Memory_Lifecycle_Correct\<close>, \<open>Memory_Commands\<close>: the specification of every operation on the
  members that have not expired, and its refinement, under the hypothesis that the two clocks
  agree on what has expired (without it a property shows what goes wrong).

  \<^bold>\<open>Routing\<close> (\<open>storage/routing.rs\<close>, \<open>persistence/layout.rs\<close>). \<open>Routing\<close>: owners of keys, commands and
  transactions; the shares of the quota.

  \<^bold>\<open>Append-only file\<close> (\<open>persistence/\<close>). \<open>Codec\<close>: little-endian integers, the checksum, inputs that
  may end or fail, and parsers over a cursor, with the interface \<open>wire_codec\<close>. \<open>Aof_Format\<close>,
  \<open>Memory_Format\<close>, \<open>Profile\<close>: headers and records of both versions, and the three profiles.
  \<open>Aof_Correct\<close>, \<open>Memory_Format_Correct\<close>, \<open>Profile_Correct\<close>: everything written is read back, a torn
  record is an incomplete tail, an altered byte is detected; the interface \<open>record_log\<close> states
  this for every profile. \<open>Aof_Recovery\<close>: the scan of a file with replay into the shards.
  \<open>Decoder_Safe\<close>, \<open>Aof_Recovery_Correct\<close>: for arbitrary bytes the scan ends, and what it accepts is
  a well-formed store with the exact usage of each shard.

  \<^bold>\<open>Loops and bounds.\<close> Loops are structural recursion or functions with a measure. The scan of the
  file is a partial function, whose return is proved. The search of a collection, the
  maintenance batch and the expiration loop carry the bounds of the code. The generation of a
  store is a wrapping \<open>u64\<close>; properties that compare generations assume \<open>headroom\<close>, the
  distance to the wrap that one operation needs.

  \<^bold>\<open>Not modelled.\<close> Tasks, channels, sockets and timers of the runtime (connections, server, workers and
  their coordinator, publish and subscribe, replication sessions), reading of the configuration,
  metrics, security, backup and migration of directories, the command line tools, and the
  development tooling. Buffer capacities and reservation are not part of the codecs. File
  system calls other than reading the selected file are not modelled.
\<close>

end
